(* ===== verification/Prelude.thy ===== *)
theory Prelude
  imports Main
begin

text \<open>
  Shared material of the development: reachability of a step relation and the two contracts
  the components are proved against (an inductive invariant, a simulation of an abstract
  system), the ordered dictionary of \<open>collections.OrderedDict\<close> as an association list in
  insertion order, and counting lemmas for the tasks that are in a given phase.
\<close>

section \<open>Collections of hints\<close>

named_theorems od_simps \<open>facts about the ordered dictionary\<close>
named_theorems inv_defs \<open>definitions of invariants\<close>

section \<open>Reachable states\<close>

inductive reach :: "('s \<Rightarrow> 's \<Rightarrow> bool) \<Rightarrow> 's \<Rightarrow> 's \<Rightarrow> bool" for step s0 where
  reach_refl [intro]: "reach step s0 s0"
| reach_step: "reach step s0 s \<Longrightarrow> step s s' \<Longrightarrow> reach step s0 s'"

lemma reach_trans: "reach step b c \<Longrightarrow> reach step a b \<Longrightarrow> reach step a c"
  by (induction rule: reach.induct) (auto intro: reach_step)

lemma reach_one: "step a b \<Longrightarrow> reach step a b"
  by (blast intro: reach_step)

text \<open>
  The contract of a component with an inductive invariant: it holds initially and every
  step keeps it.  What a client may use is that it holds in every reachable state.
\<close>

locale invariant_system =
  fixes start :: "'s \<Rightarrow> bool"
    and step :: "'s \<Rightarrow> 's \<Rightarrow> bool"
    and inv :: "'s \<Rightarrow> bool"
  assumes inv_start: "start s \<Longrightarrow> inv s"
    and inv_step: "inv s \<Longrightarrow> step s s' \<Longrightarrow> inv s'"
begin

lemma inv_reach: "reach step s0 s \<Longrightarrow> start s0 \<Longrightarrow> inv s"
  by (induction rule: reach.induct) (auto intro: inv_start inv_step)

end

text \<open>
  The contract of a component that hands out a bounded resource: the users it admits never
  exceed its capacity.  The two consequences below are what callers rely on.
\<close>

locale bounded_resource = invariant_system start step inv
  for start :: "'s \<Rightarrow> bool" and step :: "'s \<Rightarrow> 's \<Rightarrow> bool" and inv :: "'s \<Rightarrow> bool" +
  fixes users :: "'s \<Rightarrow> nat set"
    and limit :: "'s \<Rightarrow> nat"
  assumes users_finite: "inv s \<Longrightarrow> finite (users s)"
    and users_limit: "inv s \<Longrightarrow> card (users s) \<le> limit s"
begin

lemma users_bounded: "reach step s0 s \<Longrightarrow> start s0 \<Longrightarrow> card (users s) \<le> limit s"
  by (blast intro: users_limit inv_reach)

lemma exclusive:
  assumes "reach step s0 s" and "start s0" and "limit s \<le> 1"
    and "t \<in> users s" and "u \<in> users s"
  shows "t = u"
proof -
  have "card (users s) \<le> Suc 0"
    using users_bounded [OF assms(1,2)] assms(3) by simp
  moreover have "finite (users s)"
    using assms(1,2) by (blast intro: users_finite inv_reach)
  ultimately show ?thesis
    using assms(4,5) by (simp add: card_le_Suc0_iff_eq)
qed

end

text \<open>
  A simulation: every concrete step from an invariant state is an abstract step or leaves
  the abstract state alone.
\<close>

locale simulation = invariant_system start step inv
  for start :: "'s \<Rightarrow> bool" and step :: "'s \<Rightarrow> 's \<Rightarrow> bool" and inv :: "'s \<Rightarrow> bool" +
  fixes abs :: "'s \<Rightarrow> 'a"
    and astep :: "'a \<Rightarrow> 'a \<Rightarrow> bool"
  assumes sim_step: "inv s \<Longrightarrow> step s s' \<Longrightarrow> abs s' = abs s \<or> astep (abs s) (abs s')"
begin

lemma simulates: "reach step s0 s \<Longrightarrow> start s0 \<Longrightarrow> reach astep (abs s0) (abs s)"
proof (induction rule: reach.induct)
  case reach_refl
  show ?case by (rule reach.reach_refl)
next
  case (reach_step s s')
  then have "inv s" by (blast intro: inv_reach)
  with reach_step sim_step [of s s'] show ?case
    by (auto intro: reach.reach_step)
qed

end

section \<open>Ordered dictionaries\<close>

text \<open>
  \<open>collections.OrderedDict\<close> as an association list in insertion order: assignment keeps
  the position of a present key and appends a new one, \<open>pop(k, None)\<close> removes a key,
  \<open>popitem(last=False)\<close> takes the first pair (a \<open>case\<close> on the list).
\<close>

type_synonym ('k, 'v) odict = "('k \<times> 'v) list"

fun od_set :: "'k \<Rightarrow> 'v \<Rightarrow> ('k, 'v) odict \<Rightarrow> ('k, 'v) odict" where
  "od_set k v [] = [(k, v)]"
| "od_set k v ((k', v') # d) = (if k' = k then (k, v) # d else (k', v') # od_set k v d)"

definition od_has :: "'k \<Rightarrow> ('k, 'v) odict \<Rightarrow> bool" where
  "od_has k d \<longleftrightarrow> k \<in> fst ` set d"

definition od_del :: "'k \<Rightarrow> ('k, 'v) odict \<Rightarrow> ('k, 'v) odict" where
  "od_del k d = filter (\<lambda>p. fst p \<noteq> k) d"

lemma od_has_simps [simp]:
  "\<not> od_has k []"
  "od_has k ((k', v) # d) \<longleftrightarrow> k' = k \<or> od_has k d"
  "od_has k (d @ e) \<longleftrightarrow> od_has k d \<or> od_has k e"
  by (auto simp: od_has_def)

lemma od_del_simps [simp]:
  "od_del k [] = []"
  "od_del k ((k', v) # d) = (if k' = k then od_del k d else (k', v) # od_del k d)"
  "od_del k (d @ e) = od_del k d @ od_del k e"
  by (auto simp: od_del_def)

lemma od_set_fresh [od_simps]: "\<not> od_has k d \<Longrightarrow> od_set k v d = d @ [(k, v)]"
  by (induction d) auto

lemma od_del_absent [od_simps]: "\<not> od_has k d \<Longrightarrow> od_del k d = d"
  by (induction d) auto

lemma od_has_del [simp]: "od_has k (od_del k' d) \<longleftrightarrow> k \<noteq> k' \<and> od_has k d"
  by (auto simp: od_has_def od_del_def)

lemma set_od_del: "set (od_del k d) = {p \<in> set d. fst p \<noteq> k}"
  by (auto simp: od_del_def)

lemma distinct_od_del: "distinct (map fst d) \<Longrightarrow> distinct (map fst (od_del k d))"
  by (auto simp: od_del_def distinct_map_filter)

lemma length_od_del:
  "distinct (map fst d) \<Longrightarrow> length (od_del k d) = (if od_has k d then length d - 1 else length d)"
proof (induction d)
  case (Cons p d)
  obtain k' v where p: "p = (k', v)" by fastforce
  have "k' = k \<Longrightarrow> \<not> od_has k d" using Cons.prems p by (auto simp: od_has_def)
  moreover have "od_has k d \<Longrightarrow> length d \<noteq> 0" by (cases d) auto
  ultimately show ?case using Cons p by (auto simp: od_del_absent)
qed simp

section \<open>Counting the tasks of a phase\<close>

lemma card_upd_add:
  "finite {t. P (f t)} \<Longrightarrow> \<not> P (f a) \<Longrightarrow> P b \<Longrightarrow>
   card {t. P ((f(a := b)) t)} = Suc (card {t. P (f t)})"
proof -
  assume "finite {t. P (f t)}" "\<not> P (f a)" "P b"
  moreover from this have "{t. P ((f(a := b)) t)} = insert a {t. P (f t)}" by auto
  ultimately show ?thesis by simp
qed

lemma finite_upd: "finite {t. P (f t)} \<Longrightarrow> finite {t. P ((f(a := b)) t)}"
  by (rule finite_subset [of _ "insert a {t. P (f t)}"]) auto

end
