(* ===== verification/Asyncio.thy ===== *)
theory Asyncio
  imports Prelude
begin

text \<open>
  What the source uses of \<open>asyncio\<close> events and event loops.  Events, loops and tasks are
  object identities (numbers); \<open>asyncio.Event()\<close> takes a fresh number.
  \<open>loop.call_soon_threadsafe(event.set)\<close> raises \<open>RuntimeError\<close> on a closed loop (here
  \<open>None\<close>) and otherwise queues the callback; the loop runs it later.  Closing a loop drops
  what it has queued, and no task of a closed loop runs again.  The order in which queued
  callbacks run is left open, so what is proved holds for every order.
\<close>

section \<open>Events, loops, tasks\<close>

type_synonym evt = nat
type_synonym loop = nat
type_synonym task = nat

datatype error =
    RuntimeError string
  | ValueError string
  | OverflowError
  | TypeError string
  | CancelledError
  | TimeoutError string
  | ThreadPoolClosedError string
  | ChannelClosedError
  | WouldBlock
  | UnicodeEncodeError
  | StructError
  | OSError string

text \<open>
  \<open>scheduled\<close> is a history variable: every event whose \<open>set\<close> a loop has accepted so far.
  No operation of the model reads it.
\<close>

record aio =
  next_evt :: nat
  closed :: "loop set"
  callbacks :: "(loop \<times> evt) list"
  evset :: "evt set"
  scheduled :: "evt set"

definition aio_init :: aio where
  "aio_init = \<lparr>next_evt = 0, closed = {}, callbacks = [], evset = {}, scheduled = {}\<rparr>"

definition new_event :: "aio \<Rightarrow> evt \<times> aio" where
  "new_event a = (next_evt a, a\<lparr>next_evt := Suc (next_evt a)\<rparr>)"

definition call_soon_set :: "loop \<Rightarrow> evt \<Rightarrow> aio \<Rightarrow> aio option" where
  "call_soon_set l e a =
     (if l \<in> closed a then None
      else Some (a\<lparr>callbacks := callbacks a @ [(l, e)], scheduled := insert e (scheduled a)\<rparr>))"

definition run_callback :: "loop \<Rightarrow> evt \<Rightarrow> aio \<Rightarrow> aio" where
  "run_callback l e a = a\<lparr>callbacks := remove1 (l, e) (callbacks a), evset := insert e (evset a)\<rparr>"

definition close_loop :: "loop \<Rightarrow> aio \<Rightarrow> aio" where
  "close_loop l a = a\<lparr>closed := insert l (closed a),
     callbacks := filter (\<lambda>c. fst c \<noteq> l) (callbacks a)\<rparr>"

inductive aio_step :: "aio \<Rightarrow> aio \<Rightarrow> bool" where
  aio_run: "(l, e) \<in> set (callbacks a) \<Longrightarrow> l \<notin> closed a \<Longrightarrow> aio_step a (run_callback l e a)"
| aio_close: "aio_step a (close_loop l a)"

lemma new_event_eq:
  "new_event a = (e, a') \<longleftrightarrow> e = next_evt a \<and> a' = a\<lparr>next_evt := Suc (next_evt a)\<rparr>"
  by (auto simp: new_event_def)

lemma call_soon_set_Some:
  "call_soon_set l e a = Some a' \<longleftrightarrow> l \<notin> closed a \<and>
     a' = a\<lparr>callbacks := callbacks a @ [(l, e)], scheduled := insert e (scheduled a)\<rparr>"
  by (auto simp: call_soon_set_def)

lemma call_soon_set_None: "call_soon_set l e a = None \<longleftrightarrow> l \<in> closed a"
  by (auto simp: call_soon_set_def)

section \<open>The hand-off loop\<close>

text \<open>
  The loop the primitives share, written out at each of its places in the source:
  pop the first waiter, ask its loop to set its event, stop at the first loop that accepts,
  go on after a \<open>RuntimeError\<close> (a closed loop).  The flag of the result says whether a
  waiter was woken.  A waiter's value determines its loop through \<open>lp\<close>.
\<close>

fun wake_first :: "('v \<Rightarrow> loop) \<Rightarrow> (evt, 'v) odict \<Rightarrow> aio \<Rightarrow> (evt, 'v) odict \<times> aio \<times> bool" where
  "wake_first lp [] a = ([], a, False)"
| "wake_first lp ((e, v) # q) a =
     (case call_soon_set (lp v) e a of
        Some a' \<Rightarrow> (q, a', True)
      | None \<Rightarrow> wake_first lp q a)"

lemma wake_first_id [simp]: "wake_first (\<lambda>l. l) = wake_first id"
  by (simp add: id_def)

lemma wake_first_none:
  "wake_first lp q a = (q', a', False) \<longleftrightarrow> q' = [] \<and> a' = a \<and> (\<forall>p \<in> set q. lp (snd p) \<in> closed a)"
  by (induction lp q a rule: wake_first.induct)
     (auto simp: call_soon_set_Some call_soon_set_None split: option.splits)

lemma wake_first_some:
  "wake_first lp q a = (q', a', True) \<Longrightarrow>
   \<exists>pre e v. q = pre @ (e, v) # q' \<and> (\<forall>p \<in> set pre. lp (snd p) \<in> closed a) \<and>
     call_soon_set (lp v) e a = Some a'"
proof (induction lp q a rule: wake_first.induct)
  case (2 lp e v q a)
  show ?case
  proof (cases "call_soon_set (lp v) e a")
    case None
    with 2 obtain pre e' v' where "q = pre @ (e', v') # q'"
      "\<forall>p \<in> set pre. lp (snd p) \<in> closed a" "call_soon_set (lp v') e' a = Some a'"
      by auto
    with None have "(e, v) # q = ((e, v) # pre) @ (e', v') # q'"
      "\<forall>p \<in> set ((e, v) # pre). lp (snd p) \<in> closed a"
      by (auto simp: call_soon_set_None)
    with \<open>call_soon_set (lp v') e' a = Some a'\<close> show ?thesis by blast
  next
    case (Some b)
    with 2 show ?thesis by (intro exI [of _ "[]"]) auto
  qed
qed simp

lemma wake_first_pass:
  "\<forall>p \<in> set pre. lp (snd p) \<in> closed a \<Longrightarrow> wake_first lp (pre @ q) a = wake_first lp q a"
proof (induction pre)
  case (Cons p pre)
  then have "call_soon_set (lp (snd p)) (fst p) a = None" by (simp add: call_soon_set_None)
  with Cons show ?case by (cases p) simp
qed simp

text \<open>In closed form: the waiters of closed loops at the front are dropped, the next one is woken.\<close>

lemma wake_first_eq:
  "wake_first lp q a = (case dropWhile (\<lambda>p. lp (snd p) \<in> closed a) q of
       [] \<Rightarrow> ([], a, False)
     | (e, v) # post \<Rightarrow> (post, a\<lparr>callbacks := callbacks a @ [(lp v, e)],
         scheduled := insert e (scheduled a)\<rparr>, True))"
  by (induction lp q a rule: wake_first.induct) (auto simp: call_soon_set_def)

lemma wake_first_shrinks: "wake_first lp q a = (q', a', b) \<Longrightarrow> q' \<noteq> [] \<Longrightarrow> q \<noteq> []"
  by auto

section \<open>Tasks that acquire, wait and hold\<close>

text \<open>
  The phases of a task in a blocking \<open>acquire\<close>: outside, suspended in \<open>await event.wait()\<close>,
  between a returned \<open>acquire\<close> and its \<open>release\<close>, finished.
\<close>

datatype pc = Idle | Waiting evt | Holding | Done

text \<open>How the first critical section of an \<open>acquire\<close> ends: with the resource, or suspended
  on a fresh event.\<close>

datatype entered = Acquired | Suspended evt

text \<open>A component's state with its environment: the loops, and the phase and loop of each task.\<close>

record 'p sys =
  prim :: 'p
  aio :: aio
  pcs :: "task \<Rightarrow> pc"
  loop_of :: "task \<Rightarrow> loop"

text \<open>
  The users of a resource: the tasks that hold it and those that have been handed it (their
  event's \<open>set\<close> is scheduled) but have not run yet.
\<close>

definition tusers :: "aio \<Rightarrow> (task \<Rightarrow> pc) \<Rightarrow> task set" where
  "tusers a p = {t. p t = Holding \<or> (\<exists>e. p t = Waiting e \<and> e \<in> scheduled a)}"

definition fresh_sys :: "'p \<Rightarrow> (task \<Rightarrow> loop) \<Rightarrow> 'p sys" where
  "fresh_sys m lp = \<lparr>prim = m, aio = aio_init, pcs = (\<lambda>t. Idle), loop_of = lp\<rparr>"

definition users :: "'p sys \<Rightarrow> task set" where
  "users s = tusers (aio s) (pcs s)"

text \<open>
  The well-formedness of a waiter queue \<open>q\<close>: no event twice, every entry belongs to a task
  of its loop that waits on it and has not been woken, no two tasks wait on one event, and a
  suspended task of an open loop is in the queue or has been woken.
\<close>

definition waiters_ok ::
    "('v \<Rightarrow> loop) \<Rightarrow> (evt, 'v) odict \<Rightarrow> aio \<Rightarrow> (task \<Rightarrow> pc) \<Rightarrow> (task \<Rightarrow> loop) \<Rightarrow> bool" where
  "waiters_ok lv q a p lp \<longleftrightarrow>
     distinct (map fst q) \<and>
     (\<forall>e v. (e, v) \<in> set q \<longrightarrow> e \<notin> scheduled a \<and> (\<exists>t. p t = Waiting e \<and> lp t = lv v)) \<and>
     (\<forall>t u e. p t = Waiting e \<longrightarrow> p u = Waiting e \<longrightarrow> t = u) \<and>
     (\<forall>t e. p t = Waiting e \<longrightarrow> e < next_evt a) \<and>
     (\<forall>t e. p t = Waiting e \<longrightarrow> lp t \<notin> closed a \<longrightarrow> od_has e q \<or> e \<in> scheduled a) \<and>
     scheduled a \<subseteq> {..< next_evt a} \<and>
     snd ` set (callbacks a) \<subseteq> scheduled a \<and> evset a \<subseteq> scheduled a \<and>
     finite {t. p t \<noteq> Idle}"

lemma waiters_okI:
  assumes "distinct (map fst q)"
    and "\<And>e v. (e, v) \<in> set q \<Longrightarrow> e \<notin> scheduled a"
    and "\<And>e v. (e, v) \<in> set q \<Longrightarrow> \<exists>t. p t = Waiting e \<and> lp t = lv v"
    and "\<And>t u e. p t = Waiting e \<Longrightarrow> p u = Waiting e \<Longrightarrow> t = u"
    and "\<And>t e. p t = Waiting e \<Longrightarrow> e < next_evt a"
    and "\<And>t e. p t = Waiting e \<Longrightarrow> lp t \<notin> closed a \<Longrightarrow> od_has e q \<or> e \<in> scheduled a"
    and "\<And>e. e \<in> scheduled a \<Longrightarrow> e < next_evt a"
    and "\<And>l e. (l, e) \<in> set (callbacks a) \<Longrightarrow> e \<in> scheduled a"
    and "\<And>e. e \<in> evset a \<Longrightarrow> e \<in> scheduled a"
    and "finite {t. p t \<noteq> Idle}"
  shows "waiters_ok lv q a p lp"
proof -
  have "\<forall>e v. (e, v) \<in> set q \<longrightarrow> e \<notin> scheduled a \<and> (\<exists>t. p t = Waiting e \<and> lp t = lv v)"
    using assms(2,3) by blast
  moreover have "\<forall>t u e. p t = Waiting e \<longrightarrow> p u = Waiting e \<longrightarrow> t = u"
    using assms(4) by metis
  moreover have "\<forall>t e. p t = Waiting e \<longrightarrow> e < next_evt a" using assms(5) by blast
  moreover have "\<forall>t e. p t = Waiting e \<longrightarrow> lp t \<notin> closed a \<longrightarrow> od_has e q \<or> e \<in> scheduled a"
    using assms(6) by blast
  moreover have "scheduled a \<subseteq> {..< next_evt a}" using assms(7) by blast
  moreover have "snd ` set (callbacks a) \<subseteq> scheduled a" using assms(8) by auto
  moreover have "evset a \<subseteq> scheduled a" using assms(9) by blast
  ultimately show ?thesis
    unfolding waiters_ok_def using assms(1,10) by - (intro conjI; assumption)
qed

lemma waiters_okD:
  assumes "waiters_ok lv q a p lp"
  shows "distinct (map fst q)"
    and "(e, v) \<in> set q \<Longrightarrow> e \<notin> scheduled a"
    and "(e, v) \<in> set q \<Longrightarrow> \<exists>t. p t = Waiting e \<and> lp t = lv v"
    and "p t = Waiting e \<Longrightarrow> p u = Waiting e \<Longrightarrow> t = u"
    and "p t = Waiting e \<Longrightarrow> e < next_evt a"
    and "p t = Waiting e \<Longrightarrow> lp t \<notin> closed a \<Longrightarrow> od_has e q \<or> e \<in> scheduled a"
    and "e \<in> scheduled a \<Longrightarrow> e < next_evt a"
    and "(l, e) \<in> set (callbacks a) \<Longrightarrow> e \<in> scheduled a"
    and "e \<in> evset a \<Longrightarrow> e \<in> scheduled a"
    and "finite {t. p t \<noteq> Idle}"
proof -
  have a: "\<forall>e v. (e, v) \<in> set q \<longrightarrow> e \<notin> scheduled a \<and> (\<exists>t. p t = Waiting e \<and> lp t = lv v)"
    "\<forall>t u e. p t = Waiting e \<longrightarrow> p u = Waiting e \<longrightarrow> t = u"
    "\<forall>t e. p t = Waiting e \<longrightarrow> e < next_evt a"
    "\<forall>t e. p t = Waiting e \<longrightarrow> lp t \<notin> closed a \<longrightarrow> od_has e q \<or> e \<in> scheduled a"
    "scheduled a \<subseteq> {..< next_evt a}" "snd ` set (callbacks a) \<subseteq> scheduled a"
    "evset a \<subseteq> scheduled a"
    using assms unfolding waiters_ok_def by - (elim conjE; assumption)+
  show "distinct (map fst q)" and "finite {t. p t \<noteq> Idle}"
    using assms unfolding waiters_ok_def by - (elim conjE; assumption)+
  show "(e, v) \<in> set q \<Longrightarrow> e \<notin> scheduled a" using a(1) by blast
  show "(e, v) \<in> set q \<Longrightarrow> \<exists>t. p t = Waiting e \<and> lp t = lv v" using a(1) by blast
  show "p t = Waiting e \<Longrightarrow> p u = Waiting e \<Longrightarrow> t = u" using a(2) by metis
  show "p t = Waiting e \<Longrightarrow> e < next_evt a" using a(3) by blast
  show "p t = Waiting e \<Longrightarrow> lp t \<notin> closed a \<Longrightarrow> od_has e q \<or> e \<in> scheduled a"
    using a(4) by blast
  show "e \<in> scheduled a \<Longrightarrow> e < next_evt a" using a(5) by blast
  show "(l, e) \<in> set (callbacks a) \<Longrightarrow> e \<in> scheduled a" using a(6) by force
  show "e \<in> evset a \<Longrightarrow> e \<in> scheduled a" using a(7) by blast
qed

lemma tusers_finite: "waiters_ok lv q a p lp \<Longrightarrow> finite (tusers a p)"
  by (rule finite_subset [of _ "{t. p t \<noteq> Idle}"]) (auto simp: tusers_def waiters_ok_def)

subsection \<open>What each kind of step does to the queue and to the users\<close>

lemma waiters_ok_init: "waiters_ok lv [] aio_init (\<lambda>t. Idle) lp"
  by (simp add: waiters_ok_def aio_init_def)

lemma fresh_sys_simps [simp]:
  "prim (fresh_sys m lp) = m" "aio (fresh_sys m lp) = aio_init"
  "pcs (fresh_sys m lp) = (\<lambda>t. Idle)" "loop_of (fresh_sys m lp) = lp"
  "users (fresh_sys m lp) = {}"
  by (simp_all add: fresh_sys_def users_def tusers_def)

lemma waiters_ok_new_event:
  assumes "waiters_ok lv q a p lp" and "new_event a = (e, a')"
  shows "waiters_ok lv q a' p lp" and "tusers a' p = tusers a p"
proof -
  have a': "a' = a\<lparr>next_evt := Suc (next_evt a)\<rparr>" using assms(2) by (simp add: new_event_eq)
  show "tusers a' p = tusers a p" by (simp add: tusers_def a')
  show "waiters_ok lv q a' p lp"
    using waiters_okD [OF assms(1)] by (intro waiters_okI) (auto simp: a' intro: less_SucI)
qed

lemma waiters_ok_enqueue:
  assumes ok: "waiters_ok lv q a p lp" and t: "p t = Idle"
    and e: "new_event a = (e, a')" and v: "lv v = lp t"
  shows "waiters_ok lv (od_set e v q) a' (p(t := Waiting e)) lp"
    and "tusers a' (p(t := Waiting e)) = tusers a p"
proof -
  note D = waiters_okD [OF ok]
  have e': "e = next_evt a" "a' = a\<lparr>next_evt := Suc e\<rparr>"
    using e by (simp_all add: new_event_eq)
  have fresh: "e \<notin> scheduled a" "\<And>u. p u \<noteq> Waiting e"
    using D(5,7) e' by blast+
  have new: "\<not> od_has e q"
    using D(3) fresh(2) by (force simp: od_has_def)
  have fin: "finite {u. (p(t := Waiting e)) u \<noteq> Idle}"
    using D(10) by (rule finite_upd)
  show "waiters_ok lv (od_set e v q) a' (p(t := Waiting e)) lp"
    unfolding od_set_fresh [OF new]
  proof (rule waiters_okI)
    show "distinct (map fst (q @ [(e, v)]))" using D(1) new by (auto simp: od_has_def)
    show "finite {u. (p(t := Waiting e)) u \<noteq> Idle}" by (rule fin)
  next
    fix f w assume "(f, w) \<in> set (q @ [(e, v)])"
    then show "f \<notin> scheduled a'" using D(2) fresh e' by auto
    show "\<exists>u. (p(t := Waiting e)) u = Waiting f \<and> lp u = lv w"
      using \<open>(f, w) \<in> set (q @ [(e, v)])\<close> D(3) [of f w] t v by force
  next
    fix u x f assume "(p(t := Waiting e)) u = Waiting f" "(p(t := Waiting e)) x = Waiting f"
    then show "u = x" using D(4) fresh(2) by (auto split: if_splits)
  next
    fix u f assume u: "(p(t := Waiting e)) u = Waiting f"
    then show "f < next_evt a'" using D(5) e' by (auto split: if_splits intro: less_SucI)
    assume "lp u \<notin> closed a'"
    with u show "od_has f (q @ [(e, v)]) \<or> f \<in> scheduled a'"
      using D(6) e' by (auto split: if_splits)
  qed (use D(7,8,9) e' in \<open>auto intro: less_SucI\<close>)
  show "tusers a' (p(t := Waiting e)) = tusers a p"
    using fresh t e' by (auto simp: tusers_def)
qed

lemma waiters_ok_drop:
  assumes ok: "waiters_ok lv (pre @ q) a p lp" and cl: "\<forall>x \<in> set pre. lv (snd x) \<in> closed a"
  shows "waiters_ok lv q a p lp"
proof (rule waiters_okI)
  note D = waiters_okD [OF ok]
  show "distinct (map fst q)" using D(1) by simp
  show "finite {t. p t \<noteq> Idle}" by (rule D(10))
  fix t e assume t: "p t = Waiting e" "lp t \<notin> closed a"
  show "od_has e q \<or> e \<in> scheduled a"
  proof (cases "od_has e pre")
    case True
    then obtain v where v: "(e, v) \<in> set pre" by (auto simp: od_has_def)
    with D(3) [of e v] obtain u where "p u = Waiting e" "lp u = lv v" by auto
    with D(4) [OF t(1)] have "lp t = lv v" by blast
    with v cl t(2) show ?thesis by force
  next
    case False
    with D(6) [OF t] show ?thesis by simp
  qed
qed (use waiters_okD [OF ok] in auto)

lemma waiters_ok_wake1:
  assumes ok: "waiters_ok lv ((e, v) # q) a p lp" and cs: "call_soon_set (lv v) e a = Some a'"
  shows "waiters_ok lv q a' p lp"
    and "\<exists>t. p t = Waiting e \<and> lp t = lv v \<and> t \<notin> tusers a p \<and> tusers a' p = insert t (tusers a p)"
proof -
  note D = waiters_okD [OF ok]
  have a': "a' = a\<lparr>callbacks := callbacks a @ [(lv v, e)], scheduled := insert e (scheduled a)\<rparr>"
    using cs by (simp add: call_soon_set_Some)
  obtain t where t: "p t = Waiting e" "lp t = lv v" using D(3) by fastforce
  have e: "e \<notin> scheduled a" using D(2) by force
  show "waiters_ok lv q a' p lp"
  proof (rule waiters_okI)
    show "distinct (map fst q)" using D(1) by simp
    show "finite {t. p t \<noteq> Idle}" by (rule D(10))
  next
    fix f w assume f: "(f, w) \<in> set q"
    then have "f \<noteq> e" using D(1) by force
    with f D(2) [of f w] show "f \<notin> scheduled a'" by (simp add: a')
  next
    fix f assume "f \<in> scheduled a'"
    then show "f < next_evt a'" using D(7) D(5) [OF t(1)] by (auto simp: a')
  next
    fix u f assume "p u = Waiting f" "lp u \<notin> closed a'"
    with D(6) [of u f] show "od_has f q \<or> f \<in> scheduled a'" by (auto simp: a')
  qed (use D in \<open>auto simp: a'\<close>)
  have "tusers a' p = insert t (tusers a p)"
    using t D(4) by (auto simp: tusers_def a')
  moreover have "t \<notin> tusers a p" using t e by (simp add: tusers_def)
  ultimately show "\<exists>t. p t = Waiting e \<and> lp t = lv v \<and> t \<notin> tusers a p \<and>
      tusers a' p = insert t (tusers a p)"
    using t by blast
qed

lemma waiters_ok_wake_first:
  assumes ok: "waiters_ok lv q a p lp" and w: "wake_first lv q a = (q', a', b)"
  shows "waiters_ok lv q' a' p lp"
    and "card (tusers a' p) = card (tusers a p) + (if b then 1 else 0)"
    and "\<not> b \<Longrightarrow> q' = [] \<and> a' = a"
    and "b \<Longrightarrow> \<exists>u. u \<notin> tusers a p \<and> tusers a' p = insert u (tusers a p)"
proof -
  have fin: "finite (tusers a p)" using ok by (rule tusers_finite)
  have *: "waiters_ok lv q' a' p lp \<and> card (tusers a' p) = card (tusers a p) + (if b then 1 else 0) \<and>
      (b \<longrightarrow> (\<exists>u. u \<notin> tusers a p \<and> tusers a' p = insert u (tusers a p)))"
  proof (cases b)
    case True
    with w have "wake_first lv q a = (q', a', True)" by simp
    from wake_first_some [OF this] obtain pre e v where
      q: "q = pre @ (e, v) # q'" "\<forall>x \<in> set pre. lv (snd x) \<in> closed a"
      and cs: "call_soon_set (lv v) e a = Some a'"
      by blast
    with ok have ok': "waiters_ok lv ((e, v) # q') a p lp" by (blast intro: waiters_ok_drop)
    from waiters_ok_wake1 [OF ok' cs] fin True show ?thesis by auto
  next
    case False
    with w have q: "q' = []" "a' = a" "\<forall>x \<in> set q. lv (snd x) \<in> closed a"
      by (simp_all add: wake_first_none)
    with ok have "waiters_ok lv [] a p lp" by (intro waiters_ok_drop [of lv q "[]"]) simp_all
    with q False show ?thesis by simp
  qed
  then show "waiters_ok lv q' a' p lp"
    and "card (tusers a' p) = card (tusers a p) + (if b then 1 else 0)"
    and "b \<Longrightarrow> \<exists>u. u \<notin> tusers a p \<and> tusers a' p = insert u (tusers a p)" by simp_all
  show "\<not> b \<Longrightarrow> q' = [] \<and> a' = a" using w by (cases b) (simp_all add: wake_first_none)
qed

lemma upd_not_waiting:
  "(\<And>e. c \<noteq> Waiting e) \<Longrightarrow> (p(t := c)) u = Waiting f \<longleftrightarrow> u \<noteq> t \<and> p u = Waiting f"
  by auto

text \<open>A task leaves the queue (its entry is removed), or changes phase without an event.\<close>

lemma waiters_ok_leave:
  assumes ok: "waiters_ok lv q a p lp" and c: "\<And>e. c \<noteq> Waiting e"
    and q': "distinct (map fst q')" "set q' \<subseteq> set q"
    and out: "\<And>e. p t = Waiting e \<Longrightarrow> \<not> od_has e q'"
    and keep: "\<And>e. od_has e q \<Longrightarrow> p t \<noteq> Waiting e \<Longrightarrow> od_has e q'"
  shows "waiters_ok lv q' a (p(t := c)) lp"
proof (rule waiters_okI)
  note D = waiters_okD [OF ok] and upd = upd_not_waiting [of c, OF c]
  show "distinct (map fst q')" by (rule q'(1))
  show "finite {u. (p(t := c)) u \<noteq> Idle}" using D(10) by (rule finite_upd)
  show "e < next_evt a" if "e \<in> scheduled a" for e using that by (rule D(7))
  show "e \<in> scheduled a" if "(l, e) \<in> set (callbacks a)" for l e using that by (rule D(8))
  show "e \<in> scheduled a" if "e \<in> evset a" for e using that by (rule D(9))
  show "e < next_evt a" if "(p(t := c)) u = Waiting e" for u e
    using that D(5) upd by metis
  show "u = x" if "(p(t := c)) u = Waiting e" "(p(t := c)) x = Waiting e" for u x e
    using that D(4) upd by metis
  fix e v assume "(e, v) \<in> set q'"
  then have ev: "(e, v) \<in> set q" "od_has e q'" using q'(2) by (force simp: od_has_def)+
  show "e \<notin> scheduled a" using D(2) [OF ev(1)] .
  from D(3) [OF ev(1)] obtain u where u: "p u = Waiting e" "lp u = lv v" by blast
  have "u \<noteq> t" using out u(1) ev(2) by blast
  with u show "\<exists>u. (p(t := c)) u = Waiting e \<and> lp u = lv v" by auto
next
  note D = waiters_okD [OF ok] and upd = upd_not_waiting [of c, OF c]
  fix u e assume u: "(p(t := c)) u = Waiting e" "lp u \<notin> closed a"
  then have "u \<noteq> t" "p u = Waiting e" using upd by metis+
  then show "od_has e q' \<or> e \<in> scheduled a" using D(4,6) keep u(2) by metis
qed

lemmas waiters_ok_phase = waiters_ok_leave [OF _ _ _ order_refl]

lemma waiters_ok_discard:
  assumes ok: "waiters_ok lv q a p lp" and t: "p t = Waiting e" and c: "\<And>e. c \<noteq> Waiting e"
  shows "waiters_ok lv (od_del e q) a (p(t := c)) lp"
  using c t distinct_od_del [OF waiters_okD(1) [OF ok]]
  by (intro waiters_ok_leave [OF ok]) (auto simp: set_od_del)

text \<open>Steps of the loops.\<close>

lemma waiters_ok_aio:
  assumes ok: "waiters_ok lv q a p lp" and st: "aio_step a a'"
  shows "waiters_ok lv q a' p lp" and "tusers a' p = tusers a p"
proof -
  note D = waiters_okD [OF ok]
  have same: "scheduled a' = scheduled a" "next_evt a' = next_evt a" "closed a \<subseteq> closed a'"
    "set (callbacks a') \<subseteq> set (callbacks a)" "evset a' \<subseteq> evset a \<union> snd ` set (callbacks a)"
    using st by (auto simp: aio_step.simps run_callback_def close_loop_def
        dest: set_remove1_subset [THEN subsetD] intro: rev_image_eqI)
  show "tusers a' p = tusers a p" by (simp add: tusers_def same)
  show "waiters_ok lv q a' p lp"
  proof (rule waiters_okI, goal_cases)
    case (6 t e)
    then show ?case using D(6) same by blast
  next
    case (9 e)
    then show ?case using D(8,9) same by force
  next
    case (8 l e)
    then show ?case using D(8) same by blast
  next
    case 1
    show ?case by (rule D(1))
  next
    case (2 e v)
    then show ?case unfolding same by (rule D(2))
  next
    case (3 e v)
    then show ?case by (rule D(3))
  next
    case (4 t u e)
    then show ?case by (rule D(4))
  next
    case (5 t e)
    then show ?case unfolding same by (rule D(5))
  next
    case (7 e)
    then show ?case unfolding same by (rule D(7))
  next
    case 10
    show ?case by (rule D(10))
  qed
qed

text \<open>
  The environment of one component: its loops run, and other components create events and
  schedule theirs (events that no task waits on here).
\<close>

inductive env_step :: "(task \<Rightarrow> pc) \<Rightarrow> aio \<Rightarrow> aio \<Rightarrow> bool" where
  env_aio: "aio_step a a' \<Longrightarrow> env_step p a a'"
| env_new: "new_event a = (e, a') \<Longrightarrow> env_step p a a'"
| env_set: "call_soon_set l e a = Some a' \<Longrightarrow> e < next_evt a \<Longrightarrow> (\<And>t. p t \<noteq> Waiting e) \<Longrightarrow>
    env_step p a a'"

lemma waiters_ok_env:
  assumes ok: "waiters_ok lv q a p lp" and st: "env_step p a a'"
  shows "waiters_ok lv q a' p lp" and "tusers a' p = tusers a p"
proof -
  have "waiters_ok lv q a' p lp \<and> tusers a' p = tusers a p"
    using st
  proof cases
    case env_aio
    with ok show ?thesis by (simp add: waiters_ok_aio)
  next
    case (env_new e)
    with ok show ?thesis by (simp add: waiters_ok_new_event)
  next
    case (env_set l e)
    note D = waiters_okD [OF ok]
    have a': "a' = a\<lparr>callbacks := callbacks a @ [(l, e)], scheduled := insert e (scheduled a)\<rparr>"
      using env_set(1) by (simp add: call_soon_set_Some)
    have "waiters_ok lv q a' p lp"
    proof (rule waiters_okI)
      fix f v assume fv: "(f, v) \<in> set q"
      then have "f \<noteq> e" using D(3) env_set(3) by blast
      with fv D(2) show "f \<notin> scheduled a'" by (simp add: a')
    next
      fix f assume "f \<in> scheduled a'"
      then show "f < next_evt a'" using D(7) env_set(2) by (auto simp: a')
    next
      fix u f assume "p u = Waiting f" "lp u \<notin> closed a'"
      with D(6) [of u f] show "od_has f q \<or> f \<in> scheduled a'" by (auto simp: a')
    next
      fix u x f assume "p u = Waiting f" "p x = Waiting f"
      then show "u = x" by (rule D(4))
    next
      fix u f assume "p u = Waiting f"
      then show "f < next_evt a'" using D(5) by (simp add: a')
    qed (use D(1,3,8,9,10) in \<open>auto simp: a'\<close>)
    moreover have "tusers a' p = tusers a p" using env_set(3) by (auto simp: tusers_def a')
    ultimately show ?thesis by blast
  qed
  then show "waiters_ok lv q a' p lp" and "tusers a' p = tusers a p" by simp_all
qed

text \<open>What a change of phase does to the users.\<close>

lemma tusers_member: "p t = Holding \<or> p t = Waiting e \<and> e \<in> scheduled a \<Longrightarrow> t \<in> tusers a p"
  by (auto simp: tusers_def)

lemma tusers_left: "c = Idle \<or> c = Done \<Longrightarrow> tusers a (p(t := c)) = tusers a p - {t}"
  by (auto simp: tusers_def)

lemma tusers_entered: "tusers a (p(t := Holding)) = insert t (tusers a p)"
  by (auto simp: tusers_def)

lemma tusers_leave:
  "p t = Holding \<or> p t = Waiting e \<and> e \<in> scheduled a \<Longrightarrow> finite (tusers a p) \<Longrightarrow>
   c = Idle \<or> c = Done \<Longrightarrow> Suc (card (tusers a (p(t := c)))) = card (tusers a p)"
proof -
  assume t: "p t = Holding \<or> p t = Waiting e \<and> e \<in> scheduled a"
    and fin: "finite (tusers a p)" and c: "c = Idle \<or> c = Done"
  have "t \<in> tusers a p" using t by (auto simp: tusers_def)
  moreover have "tusers a (p(t := c)) = tusers a p - {t}" using c by (auto simp: tusers_def)
  ultimately show ?thesis using fin by (metis card_Suc_Diff1)
qed

lemma tusers_enter:
  assumes "p t = Idle" and fin: "finite (tusers a p)"
  shows "card (tusers a (p(t := Holding))) = Suc (card (tusers a p))"
proof -
  have "tusers a (p(t := Holding)) = insert t (tusers a p)" "t \<notin> tusers a p"
    using assms(1) by (auto simp: tusers_def)
  with fin show ?thesis by simp
qed

lemma tusers_quit:
  "p t = Idle \<or> p t = Waiting e \<and> e \<notin> scheduled a \<Longrightarrow> c = Idle \<or> c = Done \<Longrightarrow>
   tusers a (p(t := c)) = tusers a p"
  by (auto simp: tusers_def)

lemma tusers_resume:
  "p t = Waiting e \<Longrightarrow> e \<in> scheduled a \<Longrightarrow> tusers a (p(t := Holding)) = tusers a p"
  by (auto simp: tusers_def)

end
