(* ===== verification/Sem.thy ===== *)
theory Sem
  imports Asyncio
begin

text \<open>
  \<open>multiloop._sync.Semaphore\<close>: the constructor, \<open>acquire\<close> up to its \<open>await\<close>, the
  cancellation path \<open>_cancel_waiter\<close>, \<open>release\<close>, and the system of any number of tasks
  that use one semaphore from their own event loops.  Proved: permits are conserved, a
  queued waiter means no permit is free, release serves the first waiter of an open loop,
  and the system refines a bare counter of permits.
\<close>

section \<open>The code\<close>

record sem =
  s_value :: int
  s_max_value :: int
  s_waiters :: "(evt, loop) odict"

definition sem_new :: "int \<Rightarrow> error + sem" where
  "sem_new max_value =
     (if max_value < 0 then Inl (ValueError ''max_value must be >= 0'')
      else Inr \<lparr>s_value = max_value, s_max_value = max_value, s_waiters = []\<rparr>)"

definition sem_acquire :: "loop \<Rightarrow> sem \<Rightarrow> aio \<Rightarrow> entered \<times> sem \<times> aio" where
  "sem_acquire loop s a =
     (let (event, a) = new_event a in
      if s_value s > 0 then (Acquired, s\<lparr>s_value := s_value s - 1\<rparr>, a)
      else (Suspended event, s\<lparr>s_waiters := od_set event loop (s_waiters s)\<rparr>, a))"

definition sem_cancel_waiter :: "evt \<Rightarrow> sem \<Rightarrow> aio \<Rightarrow> sem \<times> aio" where
  "sem_cancel_waiter event s a =
     (let was_present = od_has event (s_waiters s);
          s = s\<lparr>s_waiters := od_del event (s_waiters s)\<rparr> in
      if was_present then (s, a)
      else (let (q, a, woken) = wake_first id (s_waiters s) a;
                s = s\<lparr>s_waiters := q\<rparr> in
            if woken then (s, a) else (s\<lparr>s_value := s_value s + 1\<rparr>, a)))"

definition sem_release :: "sem \<Rightarrow> aio \<Rightarrow> error option \<times> sem \<times> aio" where
  "sem_release s a =
     (if s_waiters s \<noteq> [] then
        (let (q, a, woken) = wake_first id (s_waiters s) a;
             s = s\<lparr>s_waiters := q\<rparr> in
         if woken then (None, s, a) else (None, s\<lparr>s_value := s_value s + 1\<rparr>, a))
      else if s_value s \<ge> s_max_value s then
        (Some (ValueError ''Semaphore released too many times''), s, a)
      else (None, s\<lparr>s_value := s_value s + 1\<rparr>, a))"

section \<open>Tasks that share a semaphore\<close>

text \<open>
  Every rule is one critical section (or one step of a loop).  \<open>Suspended\<close> tasks run again
  when their event is set, or when they are cancelled, which may happen at any time while
  their loop is open; a task releases what it holds.
\<close>

inductive sem_step :: "sem sys \<Rightarrow> sem sys \<Rightarrow> bool" where
  sem_enter_ok: "pcs s t = Idle \<Longrightarrow> loop_of s t \<notin> closed (aio s) \<Longrightarrow>
     sem_acquire (loop_of s t) (prim s) (aio s) = (Acquired, m, a) \<Longrightarrow>
     sem_step s (s\<lparr>prim := m, aio := a, pcs := (pcs s)(t := Holding)\<rparr>)"
| sem_enter_wait: "pcs s t = Idle \<Longrightarrow> loop_of s t \<notin> closed (aio s) \<Longrightarrow>
     sem_acquire (loop_of s t) (prim s) (aio s) = (Suspended e, m, a) \<Longrightarrow>
     sem_step s (s\<lparr>prim := m, aio := a, pcs := (pcs s)(t := Waiting e)\<rparr>)"
| sem_resume: "pcs s t = Waiting e \<Longrightarrow> loop_of s t \<notin> closed (aio s) \<Longrightarrow> e \<in> evset (aio s) \<Longrightarrow>
     sem_step s (s\<lparr>pcs := (pcs s)(t := Holding)\<rparr>)"
| sem_cancelled: "pcs s t = Waiting e \<Longrightarrow> loop_of s t \<notin> closed (aio s) \<Longrightarrow>
     sem_cancel_waiter e (prim s) (aio s) = (m, a) \<Longrightarrow>
     sem_step s (s\<lparr>prim := m, aio := a, pcs := (pcs s)(t := Idle)\<rparr>)"
| sem_leave: "pcs s t = Holding \<Longrightarrow> sem_release (prim s) (aio s) = (None, m, a) \<Longrightarrow>
     sem_step s (s\<lparr>prim := m, aio := a, pcs := (pcs s)(t := Idle)\<rparr>)"
| sem_loops: "env_step (pcs s) (aio s) a \<Longrightarrow> sem_step s (s\<lparr>aio := a\<rparr>)"

definition sem_start :: "sem sys \<Rightarrow> bool" where
  "sem_start s \<longleftrightarrow> (\<exists>n m lp. sem_new n = Inr m \<and> s = fresh_sys m lp)"

text \<open>
  The invariant: the free permits and the users add up to the capacity, and nobody waits
  while a permit is free.
\<close>

definition sem_inv :: "sem sys \<Rightarrow> bool" where
  "sem_inv s \<longleftrightarrow>
     waiters_ok id (s_waiters (prim s)) (aio s) (pcs s) (loop_of s) \<and>
     0 \<le> s_value (prim s) \<and>
     s_value (prim s) + int (card (users s)) = s_max_value (prim s) \<and>
     (s_waiters (prim s) \<noteq> [] \<longrightarrow> s_value (prim s) = 0)"

lemma sem_inv_start: "sem_start s \<Longrightarrow> sem_inv s"
  by (auto simp: sem_start_def sem_inv_def sem_new_def waiters_ok_init split: if_splits)

lemma sem_inv_step:
  assumes "sem_inv s" and "sem_step s s'"
  shows "sem_inv s'"
proof -
  define q where "q = s_waiters (prim s)"
  have ok: "waiters_ok id q (aio s) (pcs s) (loop_of s)"
    and v: "0 \<le> s_value (prim s)"
      "s_value (prim s) + int (card (tusers (aio s) (pcs s))) = s_max_value (prim s)"
      "q \<noteq> [] \<Longrightarrow> s_value (prim s) = 0"
    using assms(1) by (simp_all add: sem_inv_def users_def q_def)
  note fin = tusers_finite [OF ok] and D = waiters_okD [OF ok]
  from assms(2) show ?thesis
  proof cases
    case (sem_enter_ok t m a)
    then have m: "m = (prim s)\<lparr>s_value := s_value (prim s) - 1\<rparr>" "0 < s_value (prim s)"
      and e: "new_event (aio s) = (next_evt (aio s), a)"
      by (auto simp: sem_acquire_def new_event_def Let_def split: if_splits)
    note ok' = waiters_ok_new_event [OF ok e]
    have "q = []" using v m by linarith
    with sem_enter_ok m v ok' tusers_enter [of "pcs s" t a] fin show ?thesis
      by (auto simp: sem_inv_def users_def q_def intro!: waiters_ok_phase)
  next
    case (sem_enter_wait t e m a)
    then have m: "m = (prim s)\<lparr>s_waiters := od_set e (loop_of s t) q\<rparr>" "\<not> 0 < s_value (prim s)"
      and e: "new_event (aio s) = (e, a)"
      by (auto simp: sem_acquire_def new_event_def Let_def q_def split: if_splits)
    note ok' = waiters_ok_enqueue [OF ok sem_enter_wait(2) e, of "loop_of s t"]
    from sem_enter_wait m v ok' show ?thesis
      by (simp add: sem_inv_def users_def)
  next
    case (sem_resume t e)
    then have "e \<in> scheduled (aio s)" using D(9) by blast
    moreover from this have "\<not> od_has e q" using D(2) by (auto simp: od_has_def)
    ultimately show ?thesis using sem_resume v ok D(1)
      by (auto simp: sem_inv_def users_def q_def [symmetric] tusers_resume intro!: waiters_ok_phase)
  next
    case (sem_cancelled t e m a)
    show ?thesis
    proof (cases "od_has e q")
      case True
      with sem_cancelled have "m = (prim s)\<lparr>s_waiters := od_del e q\<rparr>" "a = aio s"
        by (simp_all add: sem_cancel_waiter_def q_def)
      moreover have "e \<notin> scheduled (aio s)" using True D(2) by (auto simp: od_has_def)
      moreover have "waiters_ok id (od_del e q) (aio s) ((pcs s)(t := Idle)) (loop_of s)"
        using ok sem_cancelled(2) by (rule waiters_ok_discard) simp
      moreover have "q \<noteq> []" using True by auto
      ultimately show ?thesis using sem_cancelled v
        by (simp add: sem_inv_def users_def tusers_quit)
    next
      case False
      then have sch: "e \<in> scheduled (aio s)" using D(6) sem_cancelled by blast
      obtain q' a' b where w: "wake_first id q (aio s) = (q', a', b)" by (metis prod_cases3)
      with False sem_cancelled have m: "a = a'"
        "m = (prim s)\<lparr>s_waiters := q', s_value := s_value (prim s) + (if b then 0 else 1)\<rparr>"
        by (auto simp: sem_cancel_waiter_def q_def od_del_absent Let_def split: if_splits)
      have ok': "waiters_ok id q (aio s) ((pcs s)(t := Idle)) (loop_of s)"
        using ok D(1) False sem_cancelled(2) by (intro waiters_ok_phase) auto
      have "Suc (card (tusers (aio s) ((pcs s)(t := Idle)))) = card (tusers (aio s) (pcs s))"
        using sem_cancelled(2) sch fin by (intro tusers_leave) auto
      with waiters_ok_wake_first [OF ok' w] m v sem_cancelled show ?thesis
        by (cases b) (use wake_first_shrinks [OF w] in \<open>auto simp: sem_inv_def users_def\<close>)
    qed
  next
    case (sem_leave t m a)
    have ok': "waiters_ok id q (aio s) ((pcs s)(t := Idle)) (loop_of s)"
      using ok D(1) sem_leave(2) by (intro waiters_ok_phase) auto
    have less: "Suc (card (tusers (aio s) ((pcs s)(t := Idle)))) = card (tusers (aio s) (pcs s))"
      using sem_leave(2) fin by (intro tusers_leave) auto
    show ?thesis
    proof (cases "q = []")
      case True
      with sem_leave have "m = (prim s)\<lparr>s_value := s_value (prim s) + 1\<rparr>" "a = aio s"
        by (auto simp: sem_release_def q_def Let_def split: if_splits)
      with True ok' less v sem_leave show ?thesis
        by (simp add: sem_inv_def users_def q_def)
    next
      case False
      obtain q' a' b where w: "wake_first id q (aio s) = (q', a', b)" by (metis prod_cases3)
      with False sem_leave have m: "a = a'"
        "m = (prim s)\<lparr>s_waiters := q', s_value := s_value (prim s) + (if b then 0 else 1)\<rparr>"
        by (auto simp: sem_release_def q_def Let_def split: if_splits)
      from waiters_ok_wake_first [OF ok' w] m v less False sem_leave show ?thesis
        by (cases b) (auto simp: sem_inv_def users_def)
    qed
  next
    case (sem_loops a)
    from sem_loops v waiters_ok_env [OF ok sem_loops(2)] show ?thesis
      by (simp add: sem_inv_def users_def q_def)
  qed
qed

section \<open>The contracts the semaphore meets\<close>

interpretation sem_sys: bounded_resource sem_start sem_step sem_inv users
    "\<lambda>s. nat (s_max_value (prim s))"
proof (unfold_locales, goal_cases)
  case (1 s)
  then show ?case by (rule sem_inv_start)
next
  case (2 s s')
  then show ?case by (rule sem_inv_step)
next
  case (3 s)
  then show ?case by (auto simp: sem_inv_def users_def intro: tusers_finite)
next
  case (4 s)
  then have "int (card (users s)) \<le> s_max_value (prim s)" by (auto simp: sem_inv_def)
  then show ?case by simp
qed

text \<open>
  The specification a semaphore implements: a number of free permits and the set of tasks
  that have one.  A task takes a free permit, gives one back, or passes its permit on.
\<close>

inductive permit_step :: "int \<times> task set \<Rightarrow> int \<times> task set \<Rightarrow> bool" where
  take: "0 < n \<Longrightarrow> t \<notin> H \<Longrightarrow> permit_step (n, H) (n - 1, insert t H)"
| give: "t \<in> H \<Longrightarrow> permit_step (n, H) (n + 1, H - {t})"
| pass: "t \<in> H \<Longrightarrow> u \<notin> H - {t} \<Longrightarrow> permit_step (n, H) (n, insert u (H - {t}))"

definition permits :: "sem sys \<Rightarrow> int \<times> task set" where
  "permits s = (s_value (prim s), users s)"

text \<open>Giving up a permit: the loop either passes it on or returns it to the pool.\<close>

lemma permit_forward:
  assumes ok: "waiters_ok lv q a (p(t := Idle)) lp" and w: "wake_first lv q a = (q', a', b)"
    and t: "t \<in> tusers a p"
  shows "permit_step (n, tusers a p) (n + (if b then 0 else 1), tusers a' (p(t := Idle)))"
proof (cases b)
  case True
  have H: "tusers a (p(t := Idle)) = tusers a p - {t}" by (simp add: tusers_left)
  from waiters_ok_wake_first(4) [OF ok w True] H obtain u where
    "u \<notin> tusers a p - {t}" "tusers a' (p(t := Idle)) = insert u (tusers a p - {t})" by auto
  with permit_step.pass [OF t this(1)] True show ?thesis by simp
next
  case False
  with waiters_ok_wake_first(3) [OF ok w] permit_step.give [OF t] show ?thesis
    by (simp add: tusers_left)
qed

lemma sem_sim_step:
  assumes "sem_inv s" and "sem_step s s'"
  shows "permits s' = permits s \<or> permit_step (permits s) (permits s')"
proof -
  define q where "q = s_waiters (prim s)"
  have ok: "waiters_ok id q (aio s) (pcs s) (loop_of s)"
    using assms(1) by (simp add: sem_inv_def q_def)
  note D = waiters_okD [OF ok]
  from assms(2) show ?thesis
  proof cases
    case (sem_enter_ok t m a)
    then have m: "m = (prim s)\<lparr>s_value := s_value (prim s) - 1\<rparr>" "0 < s_value (prim s)"
      and e: "new_event (aio s) = (next_evt (aio s), a)"
      by (auto simp: sem_acquire_def new_event_def Let_def split: if_splits)
    have "t \<notin> tusers (aio s) (pcs s)" using sem_enter_ok by (simp add: tusers_def)
    with permit_step.take [OF m(2) this] sem_enter_ok m waiters_ok_new_event(2) [OF ok e]
    show ?thesis by (simp add: permits_def users_def tusers_entered)
  next
    case (sem_enter_wait t e m a)
    then have m: "m = (prim s)\<lparr>s_waiters := od_set e (loop_of s t) q\<rparr>"
      and e: "new_event (aio s) = (e, a)"
      by (auto simp: sem_acquire_def new_event_def Let_def q_def split: if_splits)
    from sem_enter_wait m waiters_ok_enqueue(2) [OF ok sem_enter_wait(2) e, of "loop_of s t"]
    show ?thesis by (simp add: permits_def users_def)
  next
    case (sem_resume t e)
    then have "e \<in> scheduled (aio s)" using D(9) by blast
    with sem_resume show ?thesis by (simp add: permits_def users_def tusers_resume)
  next
    case (sem_cancelled t e m a)
    show ?thesis
    proof (cases "od_has e q")
      case True
      with sem_cancelled have "m = (prim s)\<lparr>s_waiters := od_del e q\<rparr>" "a = aio s"
        by (simp_all add: sem_cancel_waiter_def q_def)
      moreover have "e \<notin> scheduled (aio s)" using True D(2) by (auto simp: od_has_def)
      ultimately show ?thesis using sem_cancelled by (simp add: permits_def users_def tusers_quit)
    next
      case False
      then have t: "t \<in> tusers (aio s) (pcs s)"
        using D(6) sem_cancelled by (intro tusers_member) blast
      obtain q' a' b where w: "wake_first id q (aio s) = (q', a', b)" by (metis prod_cases3)
      with False sem_cancelled have m: "a = a'"
        "m = (prim s)\<lparr>s_waiters := q', s_value := s_value (prim s) + (if b then 0 else 1)\<rparr>"
        by (auto simp: sem_cancel_waiter_def q_def od_del_absent Let_def split: if_splits)
      have ok': "waiters_ok id q (aio s) ((pcs s)(t := Idle)) (loop_of s)"
        using ok D(1) False sem_cancelled(2) by (intro waiters_ok_phase) auto
      from permit_forward [OF ok' w t] sem_cancelled m show ?thesis
        by (simp add: permits_def users_def)
    qed
  next
    case (sem_leave t m a)
    have ok': "waiters_ok id q (aio s) ((pcs s)(t := Idle)) (loop_of s)"
      using ok D(1) sem_leave(2) by (intro waiters_ok_phase) auto
    have t: "t \<in> tusers (aio s) (pcs s)" using sem_leave(2) by (intro tusers_member) auto
    obtain q' a' b where w: "wake_first id q (aio s) = (q', a', b)" by (metis prod_cases3)
    with sem_leave have m: "a = a'"
      "m = (prim s)\<lparr>s_waiters := q', s_value := s_value (prim s) + (if b then 0 else 1)\<rparr>"
      by (auto simp: sem_release_def q_def Let_def split: if_splits)
    from permit_forward [OF ok' w t] sem_leave m show ?thesis
      by (simp add: permits_def users_def)
  next
    case (sem_loops a)
    with waiters_ok_env [OF ok sem_loops(2)] show ?thesis by (simp add: permits_def users_def)
  qed
qed

interpretation sem_ref: simulation sem_start sem_step sem_inv permits permit_step
  by unfold_locales (rule sem_sim_step)

section \<open>Properties\<close>

text \<open>A run: task 0 takes the only permit, task 1 (on loop 1) queues behind it.\<close>

definition sem_demo :: "sem sys" where
  "sem_demo = fresh_sys \<lparr>s_value = 1, s_max_value = 1, s_waiters = []\<rparr> (\<lambda>t. t)"

definition sem_demo2 :: "sem sys" where
  "sem_demo2 = \<lparr>prim = \<lparr>s_value = 0, s_max_value = 1, s_waiters = [(1, 1)]\<rparr>,
     aio = aio_init\<lparr>next_evt := 2\<rparr>, pcs = (\<lambda>t. Idle)(0 := Holding, 1 := Waiting 1),
     loop_of = (\<lambda>t. t)\<rparr>"

lemma sem_demo_start: "sem_start sem_demo"
  unfolding sem_start_def sem_demo_def
  by (rule exI [of _ 1]) (auto simp: sem_new_def)

lemma sem_demo_run: "reach sem_step sem_demo sem_demo2"
proof -
  have 1: "sem_acquire 0 (prim sem_demo) (aio sem_demo) =
      (Acquired, (prim sem_demo)\<lparr>s_value := 0\<rparr>, aio_init\<lparr>next_evt := 1\<rparr>)"
    by (simp add: sem_demo_def sem_acquire_def new_event_def aio_init_def Let_def)
  let ?s = "sem_demo\<lparr>prim := (prim sem_demo)\<lparr>s_value := 0\<rparr>, aio := aio_init\<lparr>next_evt := 1\<rparr>,
      pcs := (pcs sem_demo)(0 := Holding)\<rparr>"
  have a: "sem_step sem_demo ?s"
    by (rule sem_step.sem_enter_ok) (use 1 in \<open>simp_all add: sem_demo_def aio_init_def\<close>)
  have 2: "sem_acquire (loop_of ?s 1) (prim ?s) (aio ?s) =
      (Suspended 1, prim sem_demo2, aio_init\<lparr>next_evt := 2\<rparr>)"
    by (simp add: sem_demo_def sem_demo2_def fresh_sys_def sem_acquire_def new_event_def aio_init_def Let_def)
  have "sem_step ?s (?s\<lparr>prim := prim sem_demo2, aio := aio_init\<lparr>next_evt := 2\<rparr>,
      pcs := (pcs ?s)(1 := Waiting 1)\<rparr>)"
    by (rule sem_step.sem_enter_wait) (use 2 in \<open>simp_all add: sem_demo_def aio_init_def\<close>)
  moreover have "?s\<lparr>prim := prim sem_demo2, aio := aio_init\<lparr>next_evt := 2\<rparr>,
      pcs := (pcs ?s)(1 := Waiting 1)\<rparr> = sem_demo2"
    by (simp add: sem_demo_def sem_demo2_def fresh_sys_def fun_eq_iff)
  ultimately have b: "sem_step ?s sem_demo2" by simp
  from a have "reach sem_step sem_demo ?s" by (rule reach_one)
  then show ?thesis using b by (rule reach_step)
qed





text \<open>
  \<open>release\<close> on every branch.  It serves the queue in order: the waiters at its front
  whose loops are closed are skipped, the first waiter of an open loop gets the permit (its
  event's \<open>set\<close> is queued on that loop, the rest of the queue is untouched, the count does
  not change); with no such waiter the permit goes back to the pool, except that a release
  beyond \<open>max_value\<close> with nobody queued raises \<open>ValueError\<close> and changes nothing.
\<close>

theorem sem_release_fifo:
  "sem_release s a =
     (case dropWhile (\<lambda>p. snd p \<in> closed a) (s_waiters s) of
        [] \<Rightarrow> if s_waiters s = [] \<and> s_max_value s \<le> s_value s
              then (Some (ValueError ''Semaphore released too many times''), s, a)
              else (None, s\<lparr>s_waiters := [], s_value := s_value s + 1\<rparr>, a)
      | (e, l) # post \<Rightarrow> (None, s\<lparr>s_waiters := post\<rparr>,
          a\<lparr>callbacks := callbacks a @ [(l, e)], scheduled := insert e (scheduled a)\<rparr>))"
proof (cases "dropWhile (\<lambda>p. snd p \<in> closed a) (s_waiters s)")
  case Nil
  then have "wake_first id (s_waiters s) a = ([], a, False)" by (simp only: wake_first_eq id_apply) simp
  with Nil show ?thesis by (auto simp: sem_release_def simp del: dropWhile_eq_Nil_conv)
next
  case (Cons p post)
  then have "s_waiters s \<noteq> []" by auto
  with Cons show ?thesis by (cases p) (simp add: sem_release_def wake_first_eq)
qed

text \<open>
  A waiter that \<open>release\<close> drops because its loop is closed is treated as one that had
  been handed a permit when its coroutine is finalized later: the one released permit ends
  up in the pool twice.
\<close>

theorem sem_closed_loop_overissue:
  assumes "od_has e (s_waiters s)" and "\<forall>p \<in> set (s_waiters s). snd p \<in> closed a"
  shows "\<exists>s1. sem_release s a = (None, s1, a) \<and>
    s_value (fst (sem_cancel_waiter e s1 a)) = s_value s + 2"
proof -
  have "wake_first id (s_waiters s) a = ([], a, False)" "s_waiters s \<noteq> []"
    using assms by (auto simp: wake_first_none)
  then have "sem_release s a = (None, s\<lparr>s_waiters := [], s_value := s_value s + 1\<rparr>, a)"
    by (simp add: sem_release_def)
  then show ?thesis by (simp add: sem_cancel_waiter_def)
qed

theorem sem_closed_loop_overissue_witness:
  "\<exists>s1. sem_release \<lparr>s_value = 0, s_max_value = 1, s_waiters = [(7, 1)]\<rparr> (close_loop 1 aio_init)
      = (None, s1, close_loop 1 aio_init) \<and>
    s_value (fst (sem_cancel_waiter 7 s1 (close_loop 1 aio_init))) = 2"
  using sem_closed_loop_overissue
    [of 7 "\<lparr>s_value = 0, s_max_value = 1, s_waiters = [(7, 1)]\<rparr>" "close_loop 1 aio_init"]
  by (simp add: close_loop_def)

end
