(* ===== verification/PyFloat.thy ===== *)
theory PyFloat
  imports Complex_Main Asyncio
begin

text \<open>
  Python floats: a finite value (a rational number), an infinity or NaN, with the operations
  the source uses.  \<open>int()\<close> of an infinity raises \<open>OverflowError\<close>.
\<close>

datatype pyfloat = Fin rat | PosInf | NegInf | NaN

fun float_le0 :: "pyfloat \<Rightarrow> bool" where
  "float_le0 (Fin r) = (r \<le> 0)"
| "float_le0 NegInf = True"
| "float_le0 PosInf = False"
| "float_le0 NaN = False"

text \<open>\<open>int(x)\<close> truncates towards zero.\<close>

fun float_int :: "pyfloat \<Rightarrow> error + int" where
  "float_int (Fin r) = Inr (if r \<ge> 0 then \<lfloor>r\<rfloor> else - \<lfloor>- r\<rfloor>)"
| "float_int NaN = Inl (ValueError ''cannot convert float NaN to integer'')"
| "float_int PosInf = Inl OverflowError"
| "float_int NegInf = Inl OverflowError"

text \<open>\<open>x - n\<close> for an integer \<open>n\<close>; \<open>rnd\<close> is the rounding of the float format.\<close>

fun float_minus :: "(rat \<Rightarrow> rat) \<Rightarrow> pyfloat \<Rightarrow> int \<Rightarrow> pyfloat" where
  "float_minus rnd (Fin r) n = Fin (rnd (r - of_int n))"
| "float_minus rnd x n = x"

text \<open>Order: NaN compares false with everything.\<close>

fun float_less :: "pyfloat \<Rightarrow> pyfloat \<Rightarrow> bool" where
  "float_less (Fin a) (Fin b) = (a < b)"
| "float_less (Fin a) PosInf = True"
| "float_less NegInf (Fin b) = True"
| "float_less NegInf PosInf = True"
| "float_less _ _ = False"

text \<open>\<open>min(a, b)\<close> returns \<open>b\<close> when \<open>b < a\<close>.\<close>

definition float_min :: "pyfloat \<Rightarrow> pyfloat \<Rightarrow> pyfloat" where
  "float_min a b = (if float_less b a then b else a)"

end
