(* ===== verification/Limiter.thy ===== *)
theory Limiter
  imports PyFloat Asyncio
begin

text \<open>
  \<open>multiloop._sync.CapacityLimiter\<close>: constructor, inspection properties, the \<open>total_tokens\<close>
  setter, \<open>acquire\<close>, \<open>_cancel_waiter\<close>, \<open>release\<close>, and the system of tasks that borrow
  tokens while the budget is resized.
\<close>

section \<open>The code\<close>

record lim =
  l_total_tokens :: pyfloat
  l_borrowed :: int
  l_waiters :: "(evt, loop) odict"

definition lim_new :: "pyfloat \<Rightarrow> error + lim" where
  "lim_new total_tokens =
     (if float_le0 total_tokens then Inl (ValueError ''total_tokens must be positive'')
      else Inr \<lparr>l_total_tokens = total_tokens, l_borrowed = 0, l_waiters = []\<rparr>)"

definition lim_total_capacity :: "lim \<Rightarrow> error + int" where
  "lim_total_capacity m = float_int (l_total_tokens m)"

definition lim_available_capacity :: "lim \<Rightarrow> error + int" where
  "lim_available_capacity m =
     (case float_int (l_total_tokens m) of
        Inl x \<Rightarrow> Inl x
      | Inr c \<Rightarrow> Inr (max 0 (c - l_borrowed m)))"

definition lim_available_tokens :: "(rat \<Rightarrow> rat) \<Rightarrow> lim \<Rightarrow> pyfloat" where
  "lim_available_tokens rnd m = float_minus rnd (l_total_tokens m) (l_borrowed m)"

definition lim_snapshot :: "(rat \<Rightarrow> rat) \<Rightarrow> lim \<Rightarrow> pyfloat \<times> pyfloat \<times> pyfloat" where
  "lim_snapshot rnd m =
     (let avail = float_minus rnd (l_total_tokens m) (l_borrowed m)
      in (l_total_tokens m, avail, Fin (of_int (l_borrowed m))))"

text \<open>The setter's loop: wake waiters while tokens are left, counting those whose loop accepts.\<close>

fun lim_grant :: "int \<Rightarrow> (evt, loop) odict \<Rightarrow> int \<Rightarrow> aio \<Rightarrow> (evt, loop) odict \<times> int \<times> aio" where
  "lim_grant capacity [] b a = ([], b, a)"
| "lim_grant capacity ((e, l) # q) b a =
     (if b < capacity then
        (case call_soon_set l e a of
           Some a' \<Rightarrow> lim_grant capacity q (b + 1) a'
         | None \<Rightarrow> lim_grant capacity q b a)
      else ((e, l) # q, b, a))"

definition lim_set_total_tokens :: "pyfloat \<Rightarrow> lim \<Rightarrow> aio \<Rightarrow> error option \<times> lim \<times> aio" where
  "lim_set_total_tokens value m a =
     (if float_le0 value then (Some (ValueError ''total_tokens must be positive''), m, a)
      else
        (let m = m\<lparr>l_total_tokens := value\<rparr> in
         case float_int (l_total_tokens m) of
           Inl x \<Rightarrow> (Some x, m, a)
         | Inr capacity \<Rightarrow>
             (let (q, b, a) = lim_grant capacity (l_waiters m) (l_borrowed m) a
              in (None, m\<lparr>l_waiters := q, l_borrowed := b\<rparr>, a))))"

definition lim_acquire :: "loop \<Rightarrow> lim \<Rightarrow> aio \<Rightarrow> (error + entered) \<times> lim \<times> aio" where
  "lim_acquire loop m a =
     (let (event, a) = new_event a in
      case float_int (l_total_tokens m) of
        Inl x \<Rightarrow> (Inl x, m, a)
      | Inr capacity \<Rightarrow>
          (if l_borrowed m < capacity then (Inr Acquired, m\<lparr>l_borrowed := l_borrowed m + 1\<rparr>, a)
           else (Inr (Suspended event), m\<lparr>l_waiters := od_set event loop (l_waiters m)\<rparr>, a)))"

text \<open>The loop of \<open>_cancel_waiter\<close>: its guard compares the count that the loop leaves alone.\<close>

fun lim_forward :: "int \<Rightarrow> int \<Rightarrow> (evt, loop) odict \<Rightarrow> aio \<Rightarrow> (evt, loop) odict \<times> aio \<times> bool" where
  "lim_forward capacity b [] a = ([], a, False)"
| "lim_forward capacity b ((e, l) # q) a =
     (if b \<le> capacity then
        (case call_soon_set l e a of
           Some a' \<Rightarrow> (q, a', True)
         | None \<Rightarrow> lim_forward capacity b q a)
      else ((e, l) # q, a, False))"

definition lim_cancel_waiter :: "evt \<Rightarrow> lim \<Rightarrow> aio \<Rightarrow> error option \<times> lim \<times> aio" where
  "lim_cancel_waiter event m a =
     (let was_present = od_has event (l_waiters m);
          m = m\<lparr>l_waiters := od_del event (l_waiters m)\<rparr> in
      if was_present then (None, m, a)
      else
        (case float_int (l_total_tokens m) of
           Inl x \<Rightarrow> (Some x, m, a)
         | Inr capacity \<Rightarrow>
             (let (q, a, woken) = lim_forward capacity (l_borrowed m) (l_waiters m) a;
                  m = m\<lparr>l_waiters := q\<rparr> in
              if woken then (None, m, a)
              else (None, m\<lparr>l_borrowed := l_borrowed m - 1\<rparr>, a))))"

definition lim_release :: "lim \<Rightarrow> aio \<Rightarrow> error option \<times> lim \<times> aio" where
  "lim_release m a =
     (if l_borrowed m \<le> 0 then (Some (ValueError ''CapacityLimiter released too many times''), m, a)
      else
        (let m = m\<lparr>l_borrowed := l_borrowed m - 1\<rparr> in
         case float_int (l_total_tokens m) of
           Inl x \<Rightarrow> (Some x, m, a)
         | Inr capacity \<Rightarrow>
             (if l_borrowed m < capacity then
                (let (q, a, woken) = wake_first id (l_waiters m) a;
                     m = m\<lparr>l_waiters := q\<rparr> in
                 if woken then (None, m\<lparr>l_borrowed := l_borrowed m + 1\<rparr>, a) else (None, m, a))
              else (None, m, a))))"

lemma lim_forward_eq:
  "lim_forward capacity b q a = (if b \<le> capacity then wake_first id q a else (q, a, False))"
  by (induction capacity b q a rule: lim_forward.induct) (auto split: option.splits)

section \<open>Tasks that share a limiter\<close>

text \<open>
  As for the semaphore, with a further step: anybody may assign \<open>total_tokens\<close> at any time
  (the rule covers the assignments of finite values; the behaviour for an infinite budget is
  stated separately below).
\<close>

inductive lim_step :: "lim sys \<Rightarrow> lim sys \<Rightarrow> bool" where
  lim_enter_ok: "pcs s t = Idle \<Longrightarrow> loop_of s t \<notin> closed (aio s) \<Longrightarrow>
     lim_acquire (loop_of s t) (prim s) (aio s) = (Inr Acquired, m, a) \<Longrightarrow>
     lim_step s (s\<lparr>prim := m, aio := a, pcs := (pcs s)(t := Holding)\<rparr>)"
| lim_enter_wait: "pcs s t = Idle \<Longrightarrow> loop_of s t \<notin> closed (aio s) \<Longrightarrow>
     lim_acquire (loop_of s t) (prim s) (aio s) = (Inr (Suspended e), m, a) \<Longrightarrow>
     lim_step s (s\<lparr>prim := m, aio := a, pcs := (pcs s)(t := Waiting e)\<rparr>)"
| lim_resume: "pcs s t = Waiting e \<Longrightarrow> loop_of s t \<notin> closed (aio s) \<Longrightarrow> e \<in> evset (aio s) \<Longrightarrow>
     lim_step s (s\<lparr>pcs := (pcs s)(t := Holding)\<rparr>)"
| lim_cancelled: "pcs s t = Waiting e \<Longrightarrow> loop_of s t \<notin> closed (aio s) \<Longrightarrow>
     lim_cancel_waiter e (prim s) (aio s) = (r, m, a) \<Longrightarrow>
     lim_step s (s\<lparr>prim := m, aio := a, pcs := (pcs s)(t := Idle)\<rparr>)"
| lim_leave: "pcs s t = Holding \<Longrightarrow> lim_release (prim s) (aio s) = (r, m, a) \<Longrightarrow>
     lim_step s (s\<lparr>prim := m, aio := a, pcs := (pcs s)(t := Idle)\<rparr>)"
| lim_resize: "lim_set_total_tokens (Fin x) (prim s) (aio s) = (r, m, a) \<Longrightarrow>
     lim_step s (s\<lparr>prim := m, aio := a\<rparr>)"
| lim_loops: "env_step (pcs s) (aio s) a \<Longrightarrow> lim_step s (s\<lparr>aio := a\<rparr>)"

definition lim_start :: "lim sys \<Rightarrow> bool" where
  "lim_start s \<longleftrightarrow> (\<exists>x m lp. lim_new (Fin x) = Inr m \<and> s = fresh_sys m lp)"

text \<open>The integer capacity of a finite budget.\<close>

definition lim_capacity :: "lim \<Rightarrow> int" where
  "lim_capacity m = (case l_total_tokens m of Fin x \<Rightarrow> \<lfloor>x\<rfloor> | _ \<Rightarrow> 0)"

definition lim_inv :: "lim sys \<Rightarrow> bool" where
  "lim_inv s \<longleftrightarrow>
     waiters_ok id (l_waiters (prim s)) (aio s) (pcs s) (loop_of s) \<and>
     l_borrowed (prim s) = int (card (users s)) \<and>
     (\<exists>x>0. l_total_tokens (prim s) = Fin x) \<and>
     (l_waiters (prim s) \<noteq> [] \<longrightarrow> lim_capacity (prim s) \<le> l_borrowed (prim s))"

lemma float_int_capacity:
  "\<exists>x>0. l_total_tokens m = Fin x \<Longrightarrow> float_int (l_total_tokens m) = Inr (lim_capacity m)"
  by (auto simp: lim_capacity_def)

lemma lim_inv_start: "lim_start s \<Longrightarrow> lim_inv s"
  by (auto simp: lim_start_def lim_inv_def lim_new_def waiters_ok_init split: if_splits)

text \<open>What the setter's loop does: it fills the budget or empties the queue.\<close>

lemma lim_grant_ok:
  assumes "waiters_ok id q a p lp" and "lim_grant c q b a = (q', b', a')"
  shows "waiters_ok id q' a' p lp \<and>
    b' - b = int (card (tusers a' p)) - int (card (tusers a p)) \<and> b \<le> b' \<and>
    (b' = b \<or> b' \<le> c) \<and> (q' = [] \<or> c \<le> b')"
  using assms
proof (induction c q b a arbitrary: q' b' a' rule: lim_grant.induct)
  case (1 c b a)
  then show ?case by simp
next
  case (2 c e l q b a)
  show ?case
  proof (cases "b < c")
    case False
    with 2 show ?thesis by auto
  next
    case True
    show ?thesis
    proof (cases "call_soon_set l e a")
      case None
      have "waiters_ok id ([(e, l)] @ q) a p lp" using 2(3) by (simp only: append_Cons append_Nil)
      then have ok: "waiters_ok id q a p lp"
        by (rule waiters_ok_drop) (use None in \<open>simp add: call_soon_set_None\<close>)
      have "lim_grant c q b a = (q', b', a')" using 2(4) True None by simp
      then show ?thesis by (rule 2(1) [OF True None ok])
    next
      case (Some a1)
      then have "wake_first id ((e, l) # q) a = (q, a1, True)" by simp
      note w = waiters_ok_wake_first [OF 2(3) this]
      have "lim_grant c q (b + 1) a1 = (q', b', a')" using 2(4) True Some by simp
      from 2(2) [OF True Some w(1) this] w(2) True show ?thesis by auto
    qed
  qed
qed

lemma lim_inv_step:
  assumes "lim_inv s" and "lim_step s s'"
  shows "lim_inv s' \<and> (card (users s) < card (users s') \<longrightarrow>
    int (card (users s')) \<le> lim_capacity (prim s'))"
proof -
  define q b c where "q = l_waiters (prim s)" and "b = l_borrowed (prim s)"
    and "c = lim_capacity (prim s)"
  have ok: "waiters_ok id q (aio s) (pcs s) (loop_of s)"
    and b: "b = int (card (tusers (aio s) (pcs s)))"
    and fx: "\<exists>x>0. l_total_tokens (prim s) = Fin x" and wc: "q \<noteq> [] \<Longrightarrow> c \<le> b"
    using assms(1) by (simp_all add: lim_inv_def users_def q_def b_def c_def)
  have fi: "float_int (l_total_tokens (prim s)) = Inr c"
    using float_int_capacity [OF fx] by (simp add: c_def)
  have cap: "lim_capacity m = c" if "l_total_tokens m = l_total_tokens (prim s)" for m
    using that by (simp add: lim_capacity_def c_def)
  note fin = tusers_finite [OF ok] and D = waiters_okD [OF ok]
  from assms(2) show ?thesis
  proof cases
    case (lim_enter_ok t m a)
    then have m: "m = (prim s)\<lparr>l_borrowed := b + 1\<rparr>" "b < c"
      and e: "new_event (aio s) = (next_evt (aio s), a)"
      using fi by (auto simp: lim_acquire_def new_event_def Let_def b_def split: if_splits)
    note ok' = waiters_ok_new_event [OF ok e]
    have "q = []" using wc m by linarith
    with lim_enter_ok m b fx ok' tusers_enter [of "pcs s" t a] fin cap show ?thesis
      by (auto simp: lim_inv_def users_def q_def intro!: waiters_ok_phase)
  next
    case (lim_enter_wait t e m a)
    then have m: "m = (prim s)\<lparr>l_waiters := od_set e (loop_of s t) q\<rparr>" "\<not> b < c"
      and e: "new_event (aio s) = (e, a)"
      using fi by (auto simp: lim_acquire_def new_event_def Let_def q_def b_def split: if_splits)
    note ok' = waiters_ok_enqueue [OF ok lim_enter_wait(2) e, of "loop_of s t"]
    from lim_enter_wait m b fx ok' cap show ?thesis
      by (simp add: lim_inv_def users_def b_def)
  next
    case (lim_resume t e)
    then have "e \<in> scheduled (aio s)" using D(9) by blast
    moreover from this have "\<not> od_has e q" using D(2) by (auto simp: od_has_def)
    ultimately show ?thesis using lim_resume b fx wc ok D(1)
      by (auto simp: lim_inv_def users_def b_def q_def [symmetric] c_def [symmetric] tusers_resume
          intro!: waiters_ok_phase)
  next
    case (lim_loops a)
    from lim_loops b fx wc waiters_ok_env [OF ok lim_loops(2)] show ?thesis
      by (simp add: lim_inv_def users_def q_def b_def c_def)
  next
    case (lim_resize x r m a)
    show ?thesis
    proof (cases "x \<le> 0")
      case True
      with lim_resize b fx wc ok show ?thesis
        by (simp add: lim_set_total_tokens_def lim_inv_def users_def q_def b_def c_def)
    next
      case False
      let ?m = "(prim s)\<lparr>l_total_tokens := Fin x\<rparr>"
      obtain q' b' a' where g: "lim_grant \<lfloor>x\<rfloor> q b (aio s) = (q', b', a')" by (metis prod_cases3)
      with False lim_resize have m: "m = ?m\<lparr>l_waiters := q', l_borrowed := b'\<rparr>" "a = a'"
        by (auto simp: lim_set_total_tokens_def q_def b_def)
      then have "lim_capacity m = \<lfloor>x\<rfloor>" by (simp add: lim_capacity_def)
      with lim_grant_ok [OF ok g] m False b lim_resize show ?thesis
        by (auto simp: lim_inv_def users_def)
    qed
  next
    case (lim_cancelled t e r m a)
    show ?thesis
    proof (cases "od_has e q")
      case True
      with lim_cancelled have "m = (prim s)\<lparr>l_waiters := od_del e q\<rparr>" "a = aio s"
        by (simp_all add: lim_cancel_waiter_def q_def)
      moreover have "e \<notin> scheduled (aio s)" using True D(2) by (auto simp: od_has_def)
      moreover have "waiters_ok id (od_del e q) (aio s) ((pcs s)(t := Idle)) (loop_of s)"
        using ok lim_cancelled(2) by (rule waiters_ok_discard) simp
      moreover have "q \<noteq> []" using True by auto
      ultimately show ?thesis using lim_cancelled b fx wc cap
        by (simp add: lim_inv_def users_def tusers_quit b_def)
    next
      case False
      then have sch: "e \<in> scheduled (aio s)" using D(6) lim_cancelled by blast
      have ok': "waiters_ok id q (aio s) ((pcs s)(t := Idle)) (loop_of s)"
        using ok D(1) False lim_cancelled(2) by (intro waiters_ok_phase) auto
      have less: "Suc (card (tusers (aio s) ((pcs s)(t := Idle)))) = card (tusers (aio s) (pcs s))"
        using lim_cancelled(2) sch fin by (intro tusers_leave) auto
      show ?thesis
      proof (cases "b \<le> c")
        case True
        obtain q' a' w where w: "wake_first id q (aio s) = (q', a', w)" by (metis prod_cases3)
        with True False lim_cancelled fi have m: "a = a'"
          "m = (prim s)\<lparr>l_waiters := q', l_borrowed := b - (if w then 0 else 1)\<rparr>"
          by (auto simp: lim_cancel_waiter_def lim_forward_eq q_def b_def od_del_absent Let_def
              split: if_splits)
        have "q' \<noteq> [] \<Longrightarrow> c \<le> b" using wake_first_shrinks [OF w] wc by blast
        with waiters_ok_wake_first [OF ok' w] m b less lim_cancelled fx cap show ?thesis
          by (cases w) (auto simp: lim_inv_def users_def)
      next
        case gt: False
        with False lim_cancelled fi have m: "a = aio s" "m = (prim s)\<lparr>l_borrowed := b - 1\<rparr>"
          by (auto simp: lim_cancel_waiter_def lim_forward_eq q_def b_def od_del_absent Let_def)
        from m ok' b less lim_cancelled gt fx cap show ?thesis
          by (auto simp: lim_inv_def users_def q_def)
      qed
    qed
  next
    case (lim_leave t r m a)
    have ok': "waiters_ok id q (aio s) ((pcs s)(t := Idle)) (loop_of s)"
      using ok D(1) lim_leave(2) by (intro waiters_ok_phase) auto
    have less: "Suc (card (tusers (aio s) ((pcs s)(t := Idle)))) = card (tusers (aio s) (pcs s))"
      using lim_leave(2) fin by (intro tusers_leave) auto
    with b have pos: "0 < b" by linarith
    show ?thesis
    proof (cases "b - 1 < c")
      case True
      obtain q' a' w where w: "wake_first id q (aio s) = (q', a', w)" by (metis prod_cases3)
      with True pos lim_leave fi have m: "a = a'"
        "m = (prim s)\<lparr>l_waiters := q', l_borrowed := b - (if w then 0 else 1)\<rparr>"
        by (auto simp: lim_release_def q_def b_def Let_def split: if_splits)
      have "q' \<noteq> [] \<Longrightarrow> c \<le> b" using wake_first_shrinks [OF w] wc by blast
      with waiters_ok_wake_first [OF ok' w] m b less lim_leave fx cap show ?thesis
        by (cases w) (auto simp: lim_inv_def users_def)
    next
      case False
      with pos lim_leave fi have m: "a = aio s" "m = (prim s)\<lparr>l_borrowed := b - 1\<rparr>"
        by (auto simp: lim_release_def q_def b_def Let_def)
      from m ok' b less lim_leave False fx cap show ?thesis
        by (auto simp: lim_inv_def users_def q_def)
    qed
  qed
qed

interpretation lim_sys: invariant_system lim_start lim_step lim_inv
proof (unfold_locales, goal_cases)
  case (1 s)
  then show ?case by (rule lim_inv_start)
next
  case (2 s s')
  then show ?case using lim_inv_step by blast
qed

section \<open>Properties\<close>

text \<open>A run: task 0 borrows the only token and the budget is raised to two.\<close>

definition lim_demo :: "lim sys" where
  "lim_demo = fresh_sys \<lparr>l_total_tokens = Fin 1, l_borrowed = 0, l_waiters = []\<rparr> (\<lambda>t. t)"

definition lim_demo2 :: "lim sys" where
  "lim_demo2 = \<lparr>prim = \<lparr>l_total_tokens = Fin 1, l_borrowed = 1, l_waiters = []\<rparr>,
     aio = aio_init\<lparr>next_evt := 1\<rparr>, pcs = (\<lambda>t. Idle)(0 := Holding), loop_of = (\<lambda>t. t)\<rparr>"

lemma lim_demo_start: "lim_start lim_demo"
  unfolding lim_start_def lim_demo_def by (rule exI [of _ 1]) (auto simp: lim_new_def)

lemma lim_demo_step: "lim_step lim_demo lim_demo2"
proof -
  have "lim_step lim_demo (lim_demo\<lparr>prim := (prim lim_demo)\<lparr>l_borrowed := 1\<rparr>,
      aio := aio_init\<lparr>next_evt := 1\<rparr>, pcs := (pcs lim_demo)(0 := Holding)\<rparr>)"
    by (rule lim_step.lim_enter_ok)
      (simp_all add: lim_demo_def lim_acquire_def new_event_def aio_init_def)
  then show ?thesis by (simp add: lim_demo_def lim_demo2_def fresh_sys_def)
qed



text \<open>
  No step admits a task beyond the capacity in force after it: when the budget is lowered
  below the tokens in use, nobody is admitted until enough of them have been returned.
\<close>

theorem lim_admission:
  assumes "lim_start s0" and "reach lim_step s0 s" and "lim_step s s'"
    and "card (users s) < card (users s')"
  shows "int (card (users s')) \<le> lim_capacity (prim s')"
  using lim_inv_step [OF lim_sys.inv_reach [OF assms(2,1)] assms(3)] assms(4) by blast

theorem lim_admission_witness: "int (card (users lim_demo2)) \<le> 1"
proof -
  have u: "users lim_demo2 = {0}"
    by (auto simp: users_def tusers_def lim_demo2_def aio_init_def split: if_splits)
  have "card (users lim_demo) < card (users lim_demo2)"
    unfolding u by (simp add: lim_demo_def)
  from lim_admission [OF lim_demo_start reach.reach_refl lim_demo_step this] show ?thesis
    by (simp add: lim_demo2_def lim_capacity_def)
qed

text \<open>
  The constructor accepts an infinite budget, and a limiter built with it raises
  \<open>OverflowError\<close> from every \<open>acquire\<close>, without lending a token; assigning infinity to a
  working limiter stores it before the same error, and a \<open>release\<close> after that takes the
  token back but raises too.
\<close>

theorem lim_infinite_budget:
  "(\<exists>m. lim_new PosInf = Inr m \<and>
      (\<forall>loop a. fst (lim_acquire loop m a) = Inl OverflowError \<and> fst (snd (lim_acquire loop m a)) = m)) \<and>
   lim_set_total_tokens PosInf m a = (Some OverflowError, m\<lparr>l_total_tokens := PosInf\<rparr>, a) \<and>
   (l_total_tokens m = PosInf \<and> 0 < l_borrowed m \<longrightarrow>
      lim_release m a = (Some OverflowError, m\<lparr>l_borrowed := l_borrowed m - 1\<rparr>, a))"
  by (auto simp: lim_new_def lim_acquire_def lim_set_total_tokens_def lim_release_def new_event_def Let_def)

theorem lim_infinite_budget_witness:
  "lim_release \<lparr>l_total_tokens = PosInf, l_borrowed = 1, l_waiters = []\<rparr> aio_init =
     (Some OverflowError, \<lparr>l_total_tokens = PosInf, l_borrowed = 0, l_waiters = []\<rparr>, aio_init)"
  using lim_infinite_budget [of "\<lparr>l_total_tokens = PosInf, l_borrowed = 1, l_waiters = []\<rparr>" aio_init]
  by simp

end
