(* ===== verification/Oneshot.thy ===== *)
theory Oneshot
  imports Asyncio
begin

text \<open>
  \<open>multiloop._sync.Event\<close>: \<open>is_set\<close>, \<open>wait\<close> up to its \<open>await\<close> and its cancellation path,
  and \<open>set\<close>, whose wake-up loop runs outside the mutex and is therefore interleaved with
  the other tasks one call at a time.  Proved: a \<open>wait\<close> returns only after \<open>set\<close>, no waiter
  is forgotten, and the flag is never cleared.
\<close>

section \<open>The code\<close>

record oneshot =
  o_flag :: bool
  o_waiters :: "(evt, loop) odict"

definition event_new :: oneshot where
  "event_new = \<lparr>o_flag = False, o_waiters = []\<rparr>"

definition event_is_set :: "oneshot \<Rightarrow> bool" where
  "event_is_set o1 = o_flag o1"

text \<open>\<open>set\<close>: the critical section copies and clears the waiters, the loop after it wakes the
  copies, ignoring closed loops.\<close>

definition event_set_locked :: "oneshot \<Rightarrow> (evt, loop) odict \<times> oneshot" where
  "event_set_locked o1 = (o_waiters o1, \<lparr>o_flag = True, o_waiters = []\<rparr>)"

definition wake_ignoring :: "evt \<times> loop \<Rightarrow> aio \<Rightarrow> aio" where
  "wake_ignoring w a = (case call_soon_set (snd w) (fst w) a of Some a' \<Rightarrow> a' | None \<Rightarrow> a)"

definition event_set :: "oneshot \<Rightarrow> aio \<Rightarrow> oneshot \<times> aio" where
  "event_set o1 a = (let (ws, o1) = event_set_locked o1 in (o1, fold wake_ignoring ws a))"

definition event_wait :: "loop \<Rightarrow> oneshot \<Rightarrow> aio \<Rightarrow> entered \<times> oneshot \<times> aio" where
  "event_wait loop o1 a =
     (if o_flag o1 then (Acquired, o1, a)
      else (let (event, a) = new_event a
            in (Suspended event, o1\<lparr>o_waiters := od_set event loop (o_waiters o1)\<rparr>, a)))"

definition event_wait_cancelled :: "evt \<Rightarrow> oneshot \<Rightarrow> oneshot" where
  "event_wait_cancelled event o1 = o1\<lparr>o_waiters := od_del event (o_waiters o1)\<rparr>"

section \<open>Tasks that wait for an event\<close>

text \<open>
  The second component of the state holds what running \<open>set\<close> calls have copied and not yet
  woken.  \<open>Holding\<close> is the phase after \<open>wait\<close> has returned.
\<close>

type_synonym ev_sys = "(oneshot \<times> (evt \<times> loop) list) sys"

inductive ev_step :: "ev_sys \<Rightarrow> ev_sys \<Rightarrow> bool" where
  ev_enter_ok: "pcs s t = Idle \<Longrightarrow> loop_of s t \<notin> closed (aio s) \<Longrightarrow> prim s = (o1, ws) \<Longrightarrow>
     event_wait (loop_of s t) o1 (aio s) = (Acquired, o2, a) \<Longrightarrow>
     ev_step s (s\<lparr>prim := (o2, ws), aio := a, pcs := (pcs s)(t := Holding)\<rparr>)"
| ev_enter_wait: "pcs s t = Idle \<Longrightarrow> loop_of s t \<notin> closed (aio s) \<Longrightarrow> prim s = (o1, ws) \<Longrightarrow>
     event_wait (loop_of s t) o1 (aio s) = (Suspended e, o2, a) \<Longrightarrow>
     ev_step s (s\<lparr>prim := (o2, ws), aio := a, pcs := (pcs s)(t := Waiting e)\<rparr>)"
| ev_resume: "pcs s t = Waiting e \<Longrightarrow> loop_of s t \<notin> closed (aio s) \<Longrightarrow> e \<in> evset (aio s) \<Longrightarrow>
     ev_step s (s\<lparr>pcs := (pcs s)(t := Holding)\<rparr>)"
| ev_cancelled: "pcs s t = Waiting e \<Longrightarrow> loop_of s t \<notin> closed (aio s) \<Longrightarrow> prim s = (o1, ws) \<Longrightarrow>
     ev_step s (s\<lparr>prim := (event_wait_cancelled e o1, ws), pcs := (pcs s)(t := Idle)\<rparr>)"
| ev_set: "prim s = (o1, ws) \<Longrightarrow> event_set_locked o1 = (ws', o2) \<Longrightarrow>
     ev_step s (s\<lparr>prim := (o2, ws @ ws')\<rparr>)"
| ev_wake: "prim s = (o1, ws1 @ w # ws2) \<Longrightarrow>
     ev_step s (s\<lparr>prim := (o1, ws1 @ ws2), aio := wake_ignoring w (aio s)\<rparr>)"
| ev_env: "env_step (pcs s) (aio s) a \<Longrightarrow> ev_step s (s\<lparr>aio := a\<rparr>)"

definition ev_start :: "ev_sys \<Rightarrow> bool" where
  "ev_start s \<longleftrightarrow> (\<exists>lp. s = fresh_sys (event_new, []) lp)"

text \<open>
  The invariant.  A suspended task of an open loop is queued, about to be woken, or woken;
  an entry carries the loop of the task that waits on it; after \<open>set\<close> nobody is queued;
  whoever is being woken, was woken or has returned, owes it to \<open>set\<close>.
\<close>

definition ev_inv :: "ev_sys \<Rightarrow> bool" where
  "ev_inv s \<longleftrightarrow> (let (o1, ws) = prim s; a = aio s; q = o_waiters o1 @ ws in
     (\<forall>t e. pcs s t = Waiting e \<longrightarrow> loop_of s t \<notin> closed a \<longrightarrow> od_has e q \<or> e \<in> scheduled a) \<and>
     (\<forall>t e l. (e, l) \<in> set q \<longrightarrow> pcs s t = Waiting e \<longrightarrow> loop_of s t = l) \<and>
     (o_flag o1 \<longrightarrow> o_waiters o1 = []) \<and>
     (ws \<noteq> [] \<longrightarrow> o_flag o1) \<and>
     (\<forall>t e. pcs s t = Waiting e \<longrightarrow> e \<in> scheduled a \<longrightarrow> o_flag o1) \<and>
     (\<forall>t. pcs s t = Holding \<longrightarrow> o_flag o1) \<and>
     (\<forall>t e. pcs s t = Waiting e \<longrightarrow> e < next_evt a) \<and>
     (\<forall>e. od_has e q \<longrightarrow> e < next_evt a) \<and> scheduled a \<subseteq> {..< next_evt a} \<and>
     snd ` set (callbacks a) \<subseteq> scheduled a \<and> evset a \<subseteq> scheduled a \<and>
     (\<forall>t e. pcs s t = Waiting e \<longrightarrow> loop_of s t \<notin> closed a \<longrightarrow> e \<in> scheduled a \<longrightarrow>
       e \<in> evset a \<or> (loop_of s t, e) \<in> set (callbacks a)) \<and>
     (\<forall>t u e. pcs s t = Waiting e \<longrightarrow> pcs s u = Waiting e \<longrightarrow> t = u))"

lemma ev_inv_start: "ev_start s \<Longrightarrow> ev_inv s"
  by (auto simp: ev_start_def ev_inv_def event_new_def aio_init_def)

lemma ev_invI:
  assumes "prim s = (o1, ws)"
    and "\<And>t e. pcs s t = Waiting e \<Longrightarrow> loop_of s t \<notin> closed (aio s) \<Longrightarrow>
      od_has e (o_waiters o1) \<or> od_has e ws \<or> e \<in> scheduled (aio s)"
    and "\<And>t e l. (e, l) \<in> set (o_waiters o1) \<union> set ws \<Longrightarrow> pcs s t = Waiting e \<Longrightarrow> loop_of s t = l"
    and "o_flag o1 \<Longrightarrow> o_waiters o1 = []" and "ws \<noteq> [] \<Longrightarrow> o_flag o1"
    and "\<And>t e. pcs s t = Waiting e \<Longrightarrow> e \<in> scheduled (aio s) \<Longrightarrow> o_flag o1"
    and "\<And>t. pcs s t = Holding \<Longrightarrow> o_flag o1"
    and "\<And>t e. pcs s t = Waiting e \<Longrightarrow> e < next_evt (aio s)"
    and "\<And>e. od_has e (o_waiters o1) \<or> od_has e ws \<Longrightarrow> e < next_evt (aio s)"
    and "\<And>e. e \<in> scheduled (aio s) \<Longrightarrow> e < next_evt (aio s)"
    and "\<And>l e. (l, e) \<in> set (callbacks (aio s)) \<Longrightarrow> e \<in> scheduled (aio s)"
    and "\<And>e. e \<in> evset (aio s) \<Longrightarrow> e \<in> scheduled (aio s)"
    and "\<And>t e. pcs s t = Waiting e \<Longrightarrow> loop_of s t \<notin> closed (aio s) \<Longrightarrow> e \<in> scheduled (aio s) \<Longrightarrow>
      e \<in> evset (aio s) \<or> (loop_of s t, e) \<in> set (callbacks (aio s))"
    and "\<And>t u e. pcs s t = Waiting e \<Longrightarrow> pcs s u = Waiting e \<Longrightarrow> t = u"
  shows "ev_inv s"
  unfolding ev_inv_def assms(1) Let_def prod.case od_has_simps set_append
  using assms(2-)
  by (intro conjI allI impI subsetI; (elim imageE)?; blast?) (auto)

lemma ev_invD:
  assumes "ev_inv s" and "prim s = (o1, ws)"
  shows "pcs s t = Waiting e \<Longrightarrow> loop_of s t \<notin> closed (aio s) \<Longrightarrow>
      od_has e (o_waiters o1) \<or> od_has e ws \<or> e \<in> scheduled (aio s)"
    and "(e, l) \<in> set (o_waiters o1) \<union> set ws \<Longrightarrow> pcs s t = Waiting e \<Longrightarrow> loop_of s t = l"
    and "o_flag o1 \<Longrightarrow> o_waiters o1 = []" and "ws \<noteq> [] \<Longrightarrow> o_flag o1"
    and "pcs s t = Waiting e \<Longrightarrow> e \<in> scheduled (aio s) \<Longrightarrow> o_flag o1"
    and "pcs s t = Holding \<Longrightarrow> o_flag o1"
    and "pcs s t = Waiting e \<Longrightarrow> e < next_evt (aio s)"
    and "od_has e (o_waiters o1) \<or> od_has e ws \<Longrightarrow> e < next_evt (aio s)"
    and "e \<in> scheduled (aio s) \<Longrightarrow> e < next_evt (aio s)"
    and "(l', e) \<in> set (callbacks (aio s)) \<Longrightarrow> e \<in> scheduled (aio s)"
    and "e \<in> evset (aio s) \<Longrightarrow> e \<in> scheduled (aio s)"
    and "pcs s t = Waiting e \<Longrightarrow> loop_of s t \<notin> closed (aio s) \<Longrightarrow> e \<in> scheduled (aio s) \<Longrightarrow>
      e \<in> evset (aio s) \<or> (loop_of s t, e) \<in> set (callbacks (aio s))"
    and "pcs s t = Waiting e \<Longrightarrow> pcs s u = Waiting e \<Longrightarrow> t = u"
  using assms unfolding ev_inv_def Let_def
  by (auto simp del: o_flag_def)

lemma wake_ignoring_eq:
  "wake_ignoring (e, l) a = (if l \<in> closed a then a
     else a\<lparr>callbacks := callbacks a @ [(l, e)], scheduled := insert e (scheduled a)\<rparr>)"
  by (simp add: wake_ignoring_def call_soon_set_def)

lemma aio_step_pending:
  assumes "aio_step a a'" and "(l, e) \<in> set (callbacks a) \<or> e \<in> evset a" and "l \<notin> closed a'"
  shows "e \<in> evset a' \<or> (l, e) \<in> set (callbacks a')"
  using assms
  by cases (auto simp: run_callback_def close_loop_def in_set_remove1)

lemma aio_step_mono:
  assumes "aio_step a a'"
  shows "scheduled a' = scheduled a" "next_evt a' = next_evt a" "closed a \<subseteq> closed a'"
    "set (callbacks a') \<subseteq> set (callbacks a)" "evset a' \<subseteq> evset a \<union> snd ` set (callbacks a)"
  using assms by (auto simp: aio_step.simps run_callback_def close_loop_def
      dest: set_remove1_subset [THEN subsetD] intro: rev_image_eqI)

lemma ev_inv_env:
  assumes inv: "ev_inv s" and st: "env_step (pcs s) (aio s) a"
  shows "ev_inv (s\<lparr>aio := a\<rparr>)"
proof -
  obtain o1 ws where p: "prim s = (o1, ws)" by fastforce
  note D = ev_invD [OF inv p]
  from st show ?thesis
  proof cases
    case env_aio
    note m = aio_step_mono [OF env_aio]
    show ?thesis
    proof (rule ev_invI)
      show "prim (s\<lparr>aio := a\<rparr>) = (o1, ws)" by (simp add: p)
    next
      fix e assume "e \<in> evset (aio (s\<lparr>aio := a\<rparr>))"
      then show "e \<in> scheduled (aio (s\<lparr>aio := a\<rparr>))" using m D(10,11) by force
    next
      fix t e assume t: "pcs (s\<lparr>aio := a\<rparr>) t = Waiting e" "loop_of (s\<lparr>aio := a\<rparr>) t \<notin> closed (aio (s\<lparr>aio := a\<rparr>))"
      then have t': "pcs s t = Waiting e" "loop_of s t \<notin> closed (aio s)" using m(3) by auto
      from D(1) [OF t'] show "od_has e (o_waiters o1) \<or> od_has e ws \<or> e \<in> scheduled (aio (s\<lparr>aio := a\<rparr>))"
        by (simp add: m)
      assume "e \<in> scheduled (aio (s\<lparr>aio := a\<rparr>))"
      then have "e \<in> scheduled (aio s)" by (simp add: m)
      with D(12) [OF t'] aio_step_pending [OF env_aio] t(2)
      show "e \<in> evset (aio (s\<lparr>aio := a\<rparr>)) \<or>
          (loop_of (s\<lparr>aio := a\<rparr>) t, e) \<in> set (callbacks (aio (s\<lparr>aio := a\<rparr>)))" by auto
    next
      fix t u e assume "pcs (s\<lparr>aio := a\<rparr>) t = Waiting e" "pcs (s\<lparr>aio := a\<rparr>) u = Waiting e"
      then show "t = u" using D(13) by simp
    qed (use D(2-10) m in \<open>auto 0 3\<close>)
  next
    case (env_new e)
    then have x: "a = (aio s)\<lparr>next_evt := Suc (next_evt (aio s))\<rparr>" by (simp add: new_event_eq)
    show ?thesis
    proof (rule ev_invI [of _ o1 ws], goal_cases)
      case (3 u f l)
      then show ?case using x D(2) [of f l u] by (auto split: if_splits)
    next
      case (14 u v f)
      then show ?case using x D(13) by (auto split: if_splits)
    qed (use x p D(1,3-12) in \<open>auto intro: less_SucI\<close>)
  next
    case (env_set l e)
    then have x: "a = (aio s)\<lparr>callbacks := callbacks (aio s) @ [(l, e)],
        scheduled := insert e (scheduled (aio s))\<rparr>"
      by (simp add: call_soon_set_Some)
    show ?thesis
    proof (rule ev_invI [of _ o1 ws], goal_cases)
      case (3 u f l)
      then show ?case using x D(2) [of f l u] by (auto split: if_splits)
    next
      case (14 u v f)
      then show ?case using x D(13) by (auto split: if_splits)
    next
      case (13 u f)
      then show ?case using x D(12) [of u f] env_set(3) by (auto split: if_splits)
    qed (use x p D(1,3-11) env_set(2,3) in \<open>auto\<close>)
  qed
qed

lemma ev_inv_step:
  assumes inv: "ev_inv s" and st: "ev_step s s'"
  shows "ev_inv s'"
  using st
proof cases
  case (ev_enter_ok t o1 ws o2 a)
  note D = ev_invD [OF inv ev_enter_ok(4)]
  have x: "o2 = o1" "a = aio s" "o_flag o1"
    using ev_enter_ok(5) by (auto simp: event_wait_def new_event_def split: if_splits)
  show ?thesis unfolding ev_enter_ok(1)
  proof (rule ev_invI [of _ o1 ws], goal_cases)
    case (3 u f l)
    then show ?case using x D(2) [of f l u] by (auto split: if_splits)
  next
    case (14 u v f)
    then show ?case using x D(13) by (auto split: if_splits)
  qed (use x D(1,3-12) in \<open>auto split: if_splits\<close>)
next
  case (ev_enter_wait t o1 ws e o2 a)
  note D = ev_invD [OF inv ev_enter_wait(4)]
  have e: "e = next_evt (aio s)" "\<not> o_flag o1" "a = (aio s)\<lparr>next_evt := Suc e\<rparr>"
    and o2: "o2 = o1\<lparr>o_waiters := od_set e (loop_of s t) (o_waiters o1)\<rparr>"
    using ev_enter_wait(5) by (auto simp: event_wait_def new_event_def split: if_splits)
  have "\<not> od_has e (o_waiters o1)" and sch: "e \<notin> scheduled (aio s)"
    and fr: "\<And>u. pcs s u \<noteq> Waiting e"
    using D(7,8,9) e(1) by blast+
  then have new: "od_set e (loop_of s t) (o_waiters o1) = o_waiters o1 @ [(e, loop_of s t)]"
    and fl: "\<And>l. (e, l) \<notin> set (o_waiters o1)"
    by (force simp: od_set_fresh od_has_def)+
  have "ws = []" using D(4) e(2) by blast
  show ?thesis unfolding ev_enter_wait(1) o2 new
  proof (rule ev_invI [of _ "o1\<lparr>o_waiters := o_waiters o1 @ [(e, loop_of s t)]\<rparr>" "[]"], goal_cases)
    case (2 u f)
    then show ?case using D(1) [of u f] e \<open>ws = []\<close> by (auto split: if_splits)
  next
    case (3 u f l)
    then show ?case using D(2) [of f l u] fl fr \<open>ws = []\<close> by (auto split: if_splits)
  next
    case (13 u f)
    then show ?case using D(12) [of u f] e sch by (auto split: if_splits)
  next
    case (14 u v f)
    then show ?case using D(13) fr by (auto split: if_splits)
  qed (use D(3-11) e sch \<open>ws = []\<close> ev_enter_wait in \<open>auto split: if_splits intro: less_SucI\<close>)
next
  case (ev_resume t e)
  obtain o1 ws where p: "prim s = (o1, ws)" by fastforce
  note D = ev_invD [OF inv p]
  have x: "o_flag o1" using D(5,11) ev_resume by blast
  show ?thesis unfolding ev_resume(1)
  proof (rule ev_invI [of _ o1 ws], goal_cases)
    case (3 u f l)
    then show ?case using x D(2) [of f l u] by (auto split: if_splits)
  next
    case (14 u v f)
    then show ?case using x D(13) by (auto split: if_splits)
  qed (use x p D(1,3-12) in \<open>auto split: if_splits\<close>)
next
  case (ev_cancelled t e o1 ws)
  note D = ev_invD [OF inv ev_cancelled(4)]
  have other: "u \<noteq> t \<Longrightarrow> pcs s u \<noteq> Waiting e" for u using D(13) ev_cancelled(2) by blast
  show ?thesis unfolding ev_cancelled(1) event_wait_cancelled_def
  proof (rule ev_invI [of _ "o1\<lparr>o_waiters := od_del e (o_waiters o1)\<rparr>" ws], goal_cases)
    case (2 u f)
    then show ?case using D(1) [of u f] other by (auto split: if_splits)
  next
    case (3 u f l)
    then show ?case using D(2) [of f l u] by (auto simp: set_od_del split: if_splits)
  next
    case (14 u v f)
    then show ?case using D(13) by (auto split: if_splits)
  next
    case (13 u f)
    then show ?case using D(12) by (auto split: if_splits)
  qed (use D(3-11) in \<open>auto simp: set_od_del split: if_splits\<close>)
next
  case (ev_set o1 ws ws' o2)
  note D = ev_invD [OF inv ev_set(2)]
  have x: "ws' = o_waiters o1" "o2 = \<lparr>o_flag = True, o_waiters = []\<rparr>"
    using ev_set(3) by (auto simp: event_set_locked_def)
  show ?thesis unfolding ev_set(1)
  proof (rule ev_invI [of _ o2 "ws @ ws'"], goal_cases)
    case (3 u f l)
    then show ?case using x D(2) [of f l u] by (auto split: if_splits)
  next
    case (14 u v f)
    then show ?case using x D(13) by (auto split: if_splits)
  qed (use x D(1,3-12) in \<open>auto\<close>)
next
  case (ev_wake o1 ws1 w ws2)
  obtain e l where w: "w = (e, l)" by fastforce
  note D = ev_invD [OF inv ev_wake(2)]
  have l: "pcs s t = Waiting e \<Longrightarrow> loop_of s t = l" for t
    using D(2) [of e l] by (simp add: w)
  have sub: "set ws1 \<union> set ws2 \<subseteq> set (ws1 @ w # ws2)" and f: "o_flag o1" using D(4) by auto
  have e: "e < next_evt (aio s)" using D(8) [of e] by (simp add: w)
  show ?thesis unfolding ev_wake(1) w wake_ignoring_eq
  proof (rule ev_invI [of _ o1 "ws1 @ ws2"], goal_cases)
    case (2 u f)
    then show ?case using D(1) [of u f] l [of u] by (auto simp: w split: if_splits)
  next
    case (3 u f k)
    then show ?case using D(2) [of f k u] by auto
  next
    case (10 f)
    then show ?case using D(9) [of f] e by (auto split: if_splits)
  next
    case (11 k f)
    then show ?case using D(10) [of k f] by (auto split: if_splits)
  next
    case (13 u f)
    then show ?case using D(12) [of u f] l [of u] by (auto split: if_splits)
  next
    case (14 u v f)
    then show ?case using D(13) by auto
  qed (use D(3,7,8,11) f in \<open>auto simp: w\<close>)
next
  case (ev_env a)
  from ev_inv_env [OF inv ev_env(2)] show ?thesis by (simp add: ev_env(1))
qed

interpretation ev_sys: invariant_system ev_start ev_step ev_inv
  by unfold_locales (auto intro: ev_inv_start ev_inv_step)

section \<open>Properties\<close>

lemma ev_deliver:
  assumes "ev_inv s" and "pcs s t = Waiting e" and "loop_of s t \<notin> closed (aio s)"
    and "e \<in> scheduled (aio s)"
  shows "\<exists>s'. reach ev_step s s' \<and> pcs s' t = Holding"
proof -
  obtain o1 ws where p: "prim s = (o1, ws)" by fastforce
  have run: "\<exists>s'. reach ev_step s1 s' \<and> pcs s' t = Holding"
    if "pcs s1 t = Waiting e" "loop_of s1 t \<notin> closed (aio s1)" "e \<in> evset (aio s1)" for s1
    using ev_resume [OF that] by (intro exI conjI, rule reach_one) auto
  from ev_invD(12) [OF assms(1) p assms(2,3,4)] show ?thesis
  proof
    assume "e \<in> evset (aio s)"
    with run assms(2,3) show ?thesis by blast
  next
    assume cb: "(loop_of s t, e) \<in> set (callbacks (aio s))"
    let ?s = "s\<lparr>aio := run_callback (loop_of s t) e (aio s)\<rparr>"
    have st: "ev_step s ?s" using aio_run [OF cb assms(3)] by (intro ev_env env_aio)
    have "\<exists>s'. reach ev_step ?s s' \<and> pcs s' t = Holding"
      using assms(2,3) by (intro run) (auto simp: run_callback_def)
    then show ?thesis using reach_trans [OF _ reach_one [where step = ev_step, OF st]] by blast
  qed
qed


text \<open>A run: task 0 waits, then \<open>set\<close> copies its entry.\<close>

definition ev_demo :: ev_sys where
  "ev_demo = fresh_sys (event_new, []) (\<lambda>t. t)"

definition ev_demo2 :: ev_sys where
  "ev_demo2 = \<lparr>prim = (\<lparr>o_flag = True, o_waiters = []\<rparr>, [(0, 0)]),
     aio = aio_init\<lparr>next_evt := 1\<rparr>, pcs = (\<lambda>t. Idle)(0 := Waiting 0), loop_of = (\<lambda>t. t)\<rparr>"

lemma ev_demo_run: "reach ev_step ev_demo ev_demo2"
proof -
  let ?o = "\<lparr>o_flag = False, o_waiters = [(0, 0)]\<rparr>"
  let ?s = "ev_demo\<lparr>prim := (?o, []), aio := aio_init\<lparr>next_evt := 1\<rparr>,
      pcs := (pcs ev_demo)(0 := Waiting 0)\<rparr>"
  have a: "ev_step ev_demo ?s"
    by (rule ev_step.ev_enter_wait [of ev_demo 0 event_new "[]"])
      (simp_all add: ev_demo_def event_wait_def event_new_def new_event_def aio_init_def)
  have "ev_step ?s (?s\<lparr>prim := (\<lparr>o_flag = True, o_waiters = []\<rparr>, [] @ [(0, 0)])\<rparr>)"
    by (rule ev_step.ev_set [of ?s ?o "[]"]) (simp_all add: event_set_locked_def)
  moreover have "?s\<lparr>prim := (\<lparr>o_flag = True, o_waiters = []\<rparr>, [] @ [(0, 0)])\<rparr> = ev_demo2"
    by (simp add: ev_demo_def ev_demo2_def fresh_sys_def fun_eq_iff)
  ultimately have b: "ev_step ?s ev_demo2" by simp
  from a have "reach ev_step ev_demo ?s" by (rule reach_one)
  then show ?thesis using b by (rule reach_step)
qed


end
