(* ===== verification/Bytes.thy ===== *)
theory Bytes
  imports "HOL-Library.Word" Prelude
begin

text \<open>
  Bytes and the conversions the source takes from the standard library: \<open>struct.pack\<close> and
  \<open>struct.unpack\<close> with a big-endian unsigned field, the strict UTF-8 codec of \<open>str\<close>, ASCII
  literals, \<open>base64.b64encode\<close>.  A Python \<open>str\<close> is the list of its code points.
\<close>

type_synonym byte = "8 word"
type_synonym pystr = "nat list"

definition ascii :: "string \<Rightarrow> byte list" where
  "ascii s = map of_char s"

definition crlf :: "byte list" where
  "crlf = [13, 10]"

section \<open>Big-endian fields\<close>

fun be_bytes :: "nat \<Rightarrow> nat \<Rightarrow> byte list" where
  "be_bytes 0 n = []"
| "be_bytes (Suc k) n = be_bytes k (n div 256) @ [word_of_nat n]"

definition be_nat :: "byte list \<Rightarrow> nat" where
  "be_nat bs = foldl (\<lambda>a b. a * 256 + unat b) 0 bs"

lemma be_nat_snoc [simp]: "be_nat (bs @ [b]) = be_nat bs * 256 + unat b"
  by (simp add: be_nat_def)

lemma be_nat_Nil [simp]: "be_nat [] = 0"
  by (simp add: be_nat_def)

lemma length_be_bytes [simp]: "length (be_bytes k n) = k"
  by (induction k arbitrary: n) simp_all

lemma unat_byte: "unat (word_of_nat n :: byte) = n mod 256"
  by (simp add: unat_of_nat)

lemma be_nat_be_bytes: "be_nat (be_bytes k n) = n mod 256 ^ k"
proof (induction k arbitrary: n)
  case (Suc k)
  have "n mod (256 * 256 ^ k) = 256 * (n div 256 mod 256 ^ k) + n mod 256"
    by (simp add: mod_mult2_eq)
  with Suc show ?case by (simp add: unat_byte)
qed simp

lemma unat_byte_less: "unat (b :: byte) < 256"
  using unsigned_less [of b, where ?'a = nat] by simp

lemma be_bytes_be_nat: "be_bytes (length bs) (be_nat bs) = bs"
proof (induction bs rule: rev_induct)
  case (snoc b bs)
  have "unat b < 256" by (rule unat_byte_less)
  moreover have "(word_of_nat (be_nat bs * 256 + unat b) :: byte) = b"
    by (metis \<open>unat b < 256\<close> mod_less mod_mult_self3 unat_byte word_unat_eq_iff)
  ultimately show ?case using snoc by simp
qed simp

lemma be_nat_less: "be_nat bs < 256 ^ length bs"
  by (metis be_bytes_be_nat be_nat_be_bytes mod_less_divisor zero_less_numeral zero_less_power)

section \<open>UTF-8\<close>

definition surrogate :: "nat \<Rightarrow> bool" where
  "surrogate c \<longleftrightarrow> 0xD800 \<le> c \<and> c \<le> 0xDFFF"

definition utf8_char :: "nat \<Rightarrow> nat list" where
  "utf8_char c =
     (if c < 0x80 then [c]
      else if c < 0x800 then [0xC0 + c div 64, 0x80 + c mod 64]
      else if c < 0x10000 then [0xE0 + c div 4096, 0x80 + c div 64 mod 64, 0x80 + c mod 64]
      else [0xF0 + c div 262144, 0x80 + c div 4096 mod 64, 0x80 + c div 64 mod 64, 0x80 + c mod 64])"

text \<open>\<open>s.encode("utf-8")\<close>: a surrogate raises \<open>UnicodeEncodeError\<close>.\<close>

definition utf8_encode :: "pystr \<Rightarrow> byte list option" where
  "utf8_encode s =
     (if list_ex surrogate s then None else Some (map word_of_nat (concat (map utf8_char s))))"

definition cont :: "nat \<Rightarrow> bool" where
  "cont n \<longleftrightarrow> 0x80 \<le> n \<and> n < 0xC0"

text \<open>The strict decoder on byte values: no overlong form, no surrogate, nothing above U+10FFFF.\<close>

fun utf8_dec :: "nat list \<Rightarrow> nat list option" where
  "utf8_dec [] = Some []"
| "utf8_dec (n # bs) =
     (if n < 0x80 then map_option (Cons n) (utf8_dec bs)
      else if n < 0xC2 then None
      else if n < 0xE0 then
        (case bs of
           c1 # bs' \<Rightarrow>
             if cont c1 then map_option (Cons ((n - 0xC0) * 64 + (c1 - 0x80))) (utf8_dec bs')
             else None
         | _ \<Rightarrow> None)
      else if n < 0xF0 then
        (case bs of
           c1 # c2 # bs' \<Rightarrow>
             let c = (n - 0xE0) * 4096 + (c1 - 0x80) * 64 + (c2 - 0x80)
             in if cont c1 \<and> cont c2 \<and> 0x800 \<le> c \<and> \<not> surrogate c
                then map_option (Cons c) (utf8_dec bs') else None
         | _ \<Rightarrow> None)
      else if n < 0xF5 then
        (case bs of
           c1 # c2 # c3 # bs' \<Rightarrow>
             let c = (n - 0xF0) * 262144 + (c1 - 0x80) * 4096 + (c2 - 0x80) * 64 + (c3 - 0x80)
             in if cont c1 \<and> cont c2 \<and> cont c3 \<and> 0x10000 \<le> c \<and> c < 0x110000
                then map_option (Cons c) (utf8_dec bs') else None
         | _ \<Rightarrow> None)
      else None)"

definition utf8_decode :: "byte list \<Rightarrow> pystr option" where
  "utf8_decode bs = utf8_dec (map unat bs)"

definition scalar :: "nat \<Rightarrow> bool" where
  "scalar c \<longleftrightarrow> c < 0x110000 \<and> \<not> surrogate c"

lemma utf8_char_bytes: "c < 0x110000 \<Longrightarrow> b \<in> set (utf8_char c) \<Longrightarrow> b < 256"
  by (auto simp: utf8_char_def split: if_splits)

lemma base64_digits:
  fixes c :: nat
  shows "c div 4096 * 4096 + c div 64 mod 64 * 64 + c mod 64 = c"
    and "c div 262144 * 262144 + c div 4096 mod 64 * 4096 + c div 64 mod 64 * 64 + c mod 64 = c"
proof -
  have d: "c div 4096 = c div 64 div 64" "c div 262144 = c div 64 div 64 div 64"
    by (simp_all add: div_mult2_eq [symmetric])
  have "c div 64 = c div 64 div 64 * 64 + c div 64 mod 64"
    "c div 64 div 64 = c div 64 div 64 div 64 * 64 + c div 64 div 64 mod 64"
    "c = c div 64 * 64 + c mod 64" by simp_all
  then show "c div 4096 * 4096 + c div 64 mod 64 * 64 + c mod 64 = c"
    and "c div 262144 * 262144 + c div 4096 mod 64 * 4096 + c div 64 mod 64 * 64 + c mod 64 = c"
    unfolding d by linarith+
qed

lemma utf8_dec_char:
  assumes "scalar c"
  shows "utf8_dec (utf8_char c @ bs) = map_option (Cons c) (utf8_dec bs)"
proof -
  have c: "c < 0x110000" "\<not> surrogate c" using assms by (simp_all add: scalar_def)
  consider "c < 0x80" | "0x80 \<le> c" "c < 0x800" | "0x800 \<le> c" "c < 0x10000" | "0x10000 \<le> c"
    by linarith
  then show ?thesis
  proof cases
    case 2
    have "c div 64 * 64 + c mod 64 = c" by simp
    moreover have "2 \<le> c div 64" "c div 64 < 32" using 2 by linarith+
    ultimately show ?thesis using 2 by (simp add: utf8_char_def cont_def)
  next
    case 3
    have "c div 4096 * 4096 + c div 64 mod 64 * 64 + c mod 64 = c"
      by (rule base64_digits(1))
    moreover have "c div 4096 < 16" using 3 by linarith
    ultimately show ?thesis using 3 c by (simp add: utf8_char_def cont_def Let_def)
  next
    case 4
    have "c div 262144 * 262144 + c div 4096 mod 64 * 4096 + c div 64 mod 64 * 64 + c mod 64 = c"
      by (rule base64_digits(2))
    moreover have "c div 262144 < 5" using c by linarith
    ultimately show ?thesis using 4 c by (simp add: utf8_char_def cont_def Let_def)
  qed (simp add: utf8_char_def)
qed

lemma utf8_dec_chars:
  "list_all scalar s \<Longrightarrow> utf8_dec (concat (map utf8_char s)) = Some s"
  by (induction s) (simp_all add: utf8_dec_char)

text \<open>Encoding then decoding is the identity on what can be encoded.\<close>

lemma utf8_decode_encode:
  assumes "list_all scalar s" and "utf8_encode s = Some bs"
  shows "utf8_decode bs = Some s"
proof -
  have "map (unat \<circ> (word_of_nat :: nat \<Rightarrow> byte)) (concat (map utf8_char s)) = concat (map utf8_char s)"
    using assms(1) by (intro map_idI) (fastforce simp: list_all_iff scalar_def unat_byte dest: utf8_char_bytes)
  with assms show ?thesis
    by (auto simp: utf8_decode_def utf8_encode_def utf8_dec_chars split: if_splits)
qed

lemma utf8_encode_scalar: "list_all scalar s \<Longrightarrow> \<exists>bs. utf8_encode s = Some bs"
  by (auto simp: utf8_encode_def list_ex_iff list_all_iff scalar_def)

text \<open>The decoder accepts only the encoding of its result, so it is injective.\<close>

lemma cont_split: "cont n \<Longrightarrow> \<exists>b. n = 0x80 + b \<and> b < 64"
  by (rule exI [of _ "n - 0x80"]) (auto simp: cont_def)

lemma digits64:
  fixes a b c d :: nat
  assumes "b < 64" "c < 64" "d < 64"
  shows "(a * 64 + d) div 64 = a" "(a * 64 + d) mod 64 = d"
    "(a * 4096 + c * 64 + d) div 64 = a * 64 + c" "(a * 4096 + c * 64 + d) div 4096 = a"
    "(a * 4096 + c * 64 + d) mod 64 = d"
    "(a * 262144 + b * 4096 + c * 64 + d) div 64 = a * 4096 + b * 64 + c"
    "(a * 262144 + b * 4096 + c * 64 + d) div 4096 = a * 64 + b"
    "(a * 262144 + b * 4096 + c * 64 + d) div 262144 = a"
    "(a * 262144 + b * 4096 + c * 64 + d) mod 64 = d"
proof -
  have one: "(x * 64 + y) div 64 = x" "(x * 64 + y) mod 64 = y" if "y < 64" for x y :: nat
    using that by simp_all
  have r: "a * 4096 + c * 64 + d = (a * 64 + c) * 64 + d"
    "a * 262144 + b * 4096 + c * 64 + d = ((a * 64 + b) * 64 + c) * 64 + d" by simp_all
  have q: "n div 4096 = n div 64 div 64" "n div 262144 = n div 64 div 64 div 64" for n :: nat
    by (simp_all add: div_mult2_eq [symmetric])
  show "(a * 64 + d) div 64 = a" "(a * 64 + d) mod 64 = d" using assms by (simp_all add: one)
  show "(a * 4096 + c * 64 + d) div 64 = a * 64 + c" "(a * 4096 + c * 64 + d) div 4096 = a"
    "(a * 4096 + c * 64 + d) mod 64 = d"
    unfolding q r one(1) [OF assms(3)] one(1) [OF assms(2)] one(2) [OF assms(3)] by (rule refl)+
  have "(a * 64 + b) * 64 + c = a * 4096 + b * 64 + c" by simp
  then show "(a * 262144 + b * 4096 + c * 64 + d) div 64 = a * 4096 + b * 64 + c"
    unfolding r one(1) [OF assms(3)] by simp
  show "(a * 262144 + b * 4096 + c * 64 + d) div 4096 = a * 64 + b"
    "(a * 262144 + b * 4096 + c * 64 + d) div 262144 = a"
    "(a * 262144 + b * 4096 + c * 64 + d) mod 64 = d"
    unfolding q r one(1) [OF assms(3)] one(1) [OF assms(2)] one(1) [OF assms(1)]
      one(2) [OF assms(3)] by (rule refl)+
qed

lemma utf8_char_parts:
  "b < 64 \<Longrightarrow> 2 \<le> a \<Longrightarrow> a < 32 \<Longrightarrow> utf8_char (a * 64 + b) = [0xC0 + a, 0x80 + b]"
  "b < 64 \<Longrightarrow> c < 64 \<Longrightarrow> a < 16 \<Longrightarrow> 0x800 \<le> a * 4096 + b * 64 + c \<Longrightarrow>
    utf8_char (a * 4096 + b * 64 + c) = [0xE0 + a, 0x80 + b, 0x80 + c]"
  "b < 64 \<Longrightarrow> c < 64 \<Longrightarrow> d < 64 \<Longrightarrow> 0x10000 \<le> a * 262144 + b * 4096 + c * 64 + d \<Longrightarrow>
    utf8_char (a * 262144 + b * 4096 + c * 64 + d) = [0xF0 + a, 0x80 + b, 0x80 + c, 0x80 + d]"
  by (simp_all add: utf8_char_def digits64)

lemma utf8_dec_sound:
  assumes "utf8_dec bs = Some s"
  shows "concat (map utf8_char s) = bs \<and> list_all scalar s"
  using assms
proof (induction bs arbitrary: s rule: utf8_dec.induct)
  case (2 n bs)
  consider "n < 0x80" | a where "n = 0xC0 + a" "2 \<le> a" "a < 32" | a where "n = 0xE0 + a" "a < 16"
    | a where "n = 0xF0 + a" "a < 5"
  proof -
    have "n < 0x80 \<or> 0xC2 \<le> n \<and> n < 0xF5" using "2.prems" by (auto split: if_splits)
    moreover have "n = 0xC0 + (n - 0xC0)" if "0xC2 \<le> n" using that by simp
    moreover have "n = 0xE0 + (n - 0xE0)" if "0xE0 \<le> n" using that by simp
    moreover have "n = 0xF0 + (n - 0xF0)" if "0xF0 \<le> n" using that by simp
    ultimately show thesis using that(1) that(2) [of "n - 0xC0"] that(3) [of "n - 0xE0"] that(4) [of "n - 0xF0"]
      by linarith
  qed
  then show ?case
  proof cases
    case 1
    with "2.prems" obtain t where "utf8_dec bs = Some t" "s = n # t" by auto
    with "2.IH"(1) 1 show ?thesis by (simp add: utf8_char_def scalar_def surrogate_def)
  next
    case (2 a)
    with "2.prems" obtain c1 bs' t where t: "bs = c1 # bs'" "cont c1" "utf8_dec bs' = Some t"
      "s = ((n - 0xC0) * 64 + (c1 - 0x80)) # t" by (auto split: list.splits if_splits)
    from cont_split [OF t(2)] obtain b where "c1 = 0x80 + b" "b < 64" by blast
    with "2.IH"(2) 2 t utf8_char_parts(1) [of b a] show ?thesis
      by (simp add: scalar_def surrogate_def)
  next
    case (3 a)
    with "2.prems" obtain c1 c2 bs' t where t: "bs = c1 # c2 # bs'" "cont c1" "cont c2"
      "0x800 \<le> (n - 0xE0) * 4096 + (c1 - 0x80) * 64 + (c2 - 0x80)"
      "\<not> surrogate ((n - 0xE0) * 4096 + (c1 - 0x80) * 64 + (c2 - 0x80))" "utf8_dec bs' = Some t"
      "s = ((n - 0xE0) * 4096 + (c1 - 0x80) * 64 + (c2 - 0x80)) # t"
      by (auto simp: Let_def split: list.splits if_splits)
    have ih: "concat (map utf8_char t) = bs' \<and> list_all scalar t"
      by (rule "2.IH"(3) [OF _ _ _ _ t(1) refl refl]) (use 3 t in simp_all)
    from cont_split [OF t(2)] cont_split [OF t(3)] obtain b c where
      "c1 = 0x80 + b" "b < 64" "c2 = 0x80 + c" "c < 64" by blast
    with ih 3 t utf8_char_parts(2) [of b c a] show ?thesis
      by (simp add: scalar_def [of "a * 4096 + b * 64 + c"])
  next
    case (4 a)
    with "2.prems" obtain c1 c2 c3 bs' t where t: "bs = c1 # c2 # c3 # bs'" "cont c1" "cont c2" "cont c3"
      "0x10000 \<le> (n - 0xF0) * 262144 + (c1 - 0x80) * 4096 + (c2 - 0x80) * 64 + (c3 - 0x80)"
      "(n - 0xF0) * 262144 + (c1 - 0x80) * 4096 + (c2 - 0x80) * 64 + (c3 - 0x80) < 0x110000"
      "utf8_dec bs' = Some t"
      "s = ((n - 0xF0) * 262144 + (c1 - 0x80) * 4096 + (c2 - 0x80) * 64 + (c3 - 0x80)) # t"
      by (auto simp: Let_def split: list.splits if_splits)
    have ih: "concat (map utf8_char t) = bs' \<and> list_all scalar t"
      by (rule "2.IH"(4) [OF _ _ _ _ _ t(1) refl refl refl]) (use 4 t in simp_all)
    from cont_split [OF t(2)] cont_split [OF t(3)] cont_split [OF t(4)] obtain b c d where
      "c1 = 0x80 + b" "b < 64" "c2 = 0x80 + c" "c < 64" "c3 = 0x80 + d" "d < 64" by blast
    with ih 4 t utf8_char_parts(3) [of b c d a] show ?thesis
      by (simp add: scalar_def [of "a * 262144 + b * 4096 + c * 64 + d"]
          surrogate_def [of "a * 262144 + b * 4096 + c * 64 + d"])
  qed
qed simp

lemma utf8_encode_decode:
  assumes "utf8_decode bs = Some s"
  shows "utf8_encode s = Some bs"
proof -
  have s: "concat (map utf8_char s) = map unat bs" "list_all scalar s"
    using utf8_dec_sound assms by (auto simp: utf8_decode_def)
  then have "\<not> list_ex surrogate s" by (auto simp: list_ex_iff list_all_iff scalar_def)
  moreover have "map (word_of_nat \<circ> unat) bs = bs" by (simp add: comp_def)
  ultimately show ?thesis by (simp add: utf8_encode_def s(1))
qed

section \<open>base64\<close>

definition b64_digit :: "nat \<Rightarrow> byte" where
  "b64_digit n = word_of_nat (if n < 26 then 65 + n else if n < 52 then 71 + n
     else if n < 62 then n - 4 else if n = 62 then 43 else 47)"

fun b64encode :: "byte list \<Rightarrow> byte list" where
  "b64encode (a # b # c # r) =
     (let n = unat a * 65536 + unat b * 256 + unat c
      in [b64_digit (n div 262144), b64_digit (n div 4096 mod 64), b64_digit (n div 64 mod 64),
          b64_digit (n mod 64)] @ b64encode r)"
| "b64encode [a, b] =
     (let n = unat a * 65536 + unat b * 256
      in [b64_digit (n div 262144), b64_digit (n div 4096 mod 64), b64_digit (n div 64 mod 64), 61])"
| "b64encode [a] =
     (let n = unat a * 65536 in [b64_digit (n div 262144), b64_digit (n div 4096 mod 64), 61, 61])"
| "b64encode [] = []"

lemma b64encode_ascii: "b64encode (ascii ''Man'') = ascii ''TWFu''" "b64encode (ascii ''Ma'') = ascii ''TWE=''"
  by (simp_all add: ascii_def b64_digit_def)

end
