(* ===== verification/WebSocket.thy ===== *)
theory WebSocket
  imports Bytes Asyncio
begin

text \<open>
  \<open>multiloop._websocket\<close>: the frame writer \<open>_send_frame\<close>, the reader loop with both of
  its header parsers (\<open>FastWebSocketParser.parse_frame_header\<close> of \<open>websocket.rs\<close> over a
  buffer with a cursor, and the \<open>readexactly\<close> fallback), message reassembly and the close
  handshake, the ASGI callbacks \<open>receive\<close> and \<open>send\<close>, and the opening checks of \<open>run\<close>.
\<close>

section \<open>The connection\<close>

datatype ws_phase = CONNECTING | OPEN | CLOSING | CLOSED

datatype ws_event = WsConnect | WsText pystr | WsBytes "byte list" | WsDisconnect nat

text \<open>
  \<open>w_out\<close> is what has been written to the transport; \<open>w_inbound\<close> the items in
  \<open>_inbound_channel\<close>; a \<open>send\<close> to that channel may suspend the reader, but not reorder it.
\<close>

record ws =
  w_phase :: ws_phase
  w_out :: "byte list"
  w_writer_closed :: bool
  w_inbound :: "ws_event list"
  w_inbound_closed :: bool
  w_connect_sent :: bool
  w_handshake_done :: bool
  w_closed_event :: bool
  w_accept_key :: "byte list"

definition ws_new :: ws where
  "ws_new = \<lparr>w_phase = CONNECTING, w_out = [], w_writer_closed = False, w_inbound = [],
     w_inbound_closed = False, w_connect_sent = False, w_handshake_done = False,
     w_closed_event = False, w_accept_key = []\<rparr>"

definition ws_write :: "byte list \<Rightarrow> ws \<Rightarrow> ws" where
  "ws_write bs w = w\<lparr>w_out := w_out w @ bs\<rparr>"

section \<open>Frames\<close>

unbundle bit_operations_syntax

definition ws_frame :: "nat \<Rightarrow> byte list \<Rightarrow> byte list" where
  "ws_frame opcode payload =
     (let n = length payload in
      [0x80 OR (word_of_nat opcode AND 0x0F)] @
      (if n < 126 then [word_of_nat n]
       else if n \<le> 0xFFFF then 126 # be_bytes 2 n
       else 127 # be_bytes 8 n) @ payload)"

definition ws_send_frame :: "nat \<Rightarrow> byte list \<Rightarrow> ws \<Rightarrow> ws" where
  "ws_send_frame opcode payload w = ws_write (ws_frame opcode payload) w"

definition ws_unmask :: "byte list \<Rightarrow> byte list \<Rightarrow> byte list" where
  "ws_unmask key payload = map (\<lambda>(i, b). b XOR key ! (i mod 4)) (enumerate 0 payload)"

text \<open>\<open>parse_frame_header\<close> of \<open>websocket.rs\<close>: opcode, fin, masked, length, key, header length.\<close>

type_synonym ws_header = "nat \<times> bool \<times> bool \<times> nat \<times> byte list option \<times> nat"

definition parse_frame_header :: "byte list \<Rightarrow> ws_header option" where
  "parse_frame_header buf =
     (if length buf < 2 then None
      else
        let b1 = buf ! 0; b2 = buf ! 1;
            fin = b1 AND 0x80 \<noteq> 0; opcode = unat (b1 AND 0x0F);
            masked = b2 AND 0x80 \<noteq> 0; raw_len = unat (b2 AND 0x7F)
        in case (if raw_len = 126 then
                   (if length buf < 4 then None else Some (be_nat (take 2 (drop 2 buf)), 4))
                 else if raw_len = 127 then
                   (if length buf < 10 then None else Some (be_nat (take 8 (drop 2 buf)), 10))
                 else Some (raw_len, 2)) of
             None \<Rightarrow> None
           | Some (payload_len, offset) \<Rightarrow>
               if masked then
                 (if length buf < offset + 4 then None
                  else Some (opcode, fin, masked, payload_len, Some (take 4 (drop offset buf)), offset + 4))
               else Some (opcode, fin, masked, payload_len, None, offset))"

section \<open>What the reader does with a frame\<close>

definition max_ws_frame_size :: nat where
  "max_ws_frame_size = 16 * 1024 * 1024"

definition max_ws_message_size :: nat where
  "max_ws_message_size = 32 * 1024 * 1024"

definition ws_push :: "ws_event \<Rightarrow> ws \<Rightarrow> ws" where
  "ws_push ev w = w\<lparr>w_inbound := w_inbound w @ [ev]\<rparr>"

text \<open>A close frame with a code and a reason.\<close>

definition ws_fail :: "nat \<Rightarrow> string \<Rightarrow> ws \<Rightarrow> ws" where
  "ws_fail code reason w = ws_send_frame 8 (be_bytes 2 code @ ascii reason) w"

definition ws_disconnect :: "nat \<Rightarrow> ws \<Rightarrow> ws" where
  "ws_disconnect code w = (ws_push (WsDisconnect code) w)\<lparr>w_phase := CLOSED, w_closed_event := True\<rparr>"

text \<open>The three checks on a header, before the payload is read.\<close>

definition ws_check :: "nat \<Rightarrow> bool \<Rightarrow> bool \<Rightarrow> nat \<Rightarrow> (nat \<times> string) option" where
  "ws_check opcode fin masked payload_len =
     (if \<not> masked then Some (1002, ''Unmasked Frame'')
      else if opcode \<ge> 8 \<and> (payload_len > 125 \<or> \<not> fin) then Some (1002, ''Invalid Control Frame'')
      else if payload_len > max_ws_frame_size then Some (1009, ''Message Too Big'')
      else None)"

text \<open>The result of a handler: whether the loop ends (\<open>break\<close>), and the connection.\<close>

definition ws_text :: "byte list \<Rightarrow> ws \<Rightarrow> bool \<times> ws" where
  "ws_text payload w =
     (case utf8_decode payload of
        None \<Rightarrow> (True, ws_disconnect 1007 (ws_fail 1007 ''Invalid UTF-8'' w))
      | Some text \<Rightarrow> (False, ws_push (WsText text) w))"

text \<open>The fragment state is \<open>(fragment_buffer, fragmented_opcode)\<close>.\<close>

type_synonym frag = "byte list \<times> nat"

definition ws_continuation :: "bool \<Rightarrow> byte list \<Rightarrow> frag \<Rightarrow> ws \<Rightarrow> bool \<times> frag \<times> ws" where
  "ws_continuation fin payload fr w =
     (let (fb, fo) = fr in
      if fo = 0 then (True, fr, ws_fail 1002 ''Protocol Error'' w)
      else if length fb + length payload > max_ws_message_size then
        (True, fr, ws_disconnect 1009 (ws_fail 1009 ''Message Too Big'' w))
      else if fin then
        (if fo = 1 then let (stop, w) = ws_text (fb @ payload) w in (stop, ([], 0), w)
         else if fo = 2 then (False, ([], 0), ws_push (WsBytes (fb @ payload)) w)
         else (False, ([], 0), w))
      else (False, (fb @ payload, fo), w))"

definition ws_data :: "nat \<Rightarrow> bool \<Rightarrow> byte list \<Rightarrow> frag \<Rightarrow> ws \<Rightarrow> bool \<times> frag \<times> ws" where
  "ws_data opcode fin payload fr w =
     (if snd fr \<noteq> 0 then (True, fr, ws_fail 1002 ''Protocol Error'' w)
      else if fin then
        (if opcode = 1 then let (stop, w) = ws_text payload w in (stop, fr, w)
         else (False, fr, ws_push (WsBytes payload) w))
      else if length payload > max_ws_message_size then
        (True, fr, ws_disconnect 1009 (ws_fail 1009 ''Message Too Big'' w))
      else (False, (payload, opcode), w))"

definition ws_close_frame :: "byte list \<Rightarrow> ws \<Rightarrow> ws" where
  "ws_close_frame payload w =
     (let code = (if length payload \<ge> 2 then be_nat (take 2 payload) else 1000);
          w = (if w_phase w \<noteq> CLOSING then ws_send_frame 8 payload (w\<lparr>w_phase := CLOSING\<rparr>) else w)
      in ws_disconnect code w)"

definition ws_process :: "nat \<Rightarrow> bool \<Rightarrow> byte list \<Rightarrow> frag \<Rightarrow> ws \<Rightarrow> bool \<times> frag \<times> ws" where
  "ws_process opcode fin payload fr w =
     (if opcode = 0 then ws_continuation fin payload fr w
      else if opcode = 1 \<or> opcode = 2 then ws_data opcode fin payload fr w
      else if opcode = 9 then (False, fr, ws_send_frame 10 payload w)
      else if opcode = 8 then (True, fr, ws_close_frame payload w)
      else (False, fr, w))"

section \<open>The reader loop\<close>

text \<open>
  What \<open>reader.read(4096)\<close> returns, call by call: a chunk, or an exception.  An empty chunk,
  like the end of the list, is the end of the stream.
\<close>

datatype chunk = Data "byte list" | Failed

record reader =
  source :: "chunk list"
  raw_buf :: "byte list"
  buf_cursor :: nat
  frag :: frag

definition reader_new :: "chunk list \<Rightarrow> reader" where
  "reader_new cs = \<lparr>source = cs, raw_buf = [], buf_cursor = 0, frag = ([], 0)\<rparr>"

definition compact_raw_buf :: "reader \<Rightarrow> reader" where
  "compact_raw_buf r =
     (if buf_cursor r \<ge> 64 * 1024 then r\<lparr>raw_buf := drop (buf_cursor r) (raw_buf r), buf_cursor := 0\<rparr>
      else r)"

text \<open>
  The inner loop that reads the rest of a frame; the \<open>at_eof\<close> test ends it one call earlier
  when the stream has ended.  \<open>None\<close> is an exception.
\<close>

fun ws_fill :: "chunk list \<Rightarrow> nat \<Rightarrow> byte list \<Rightarrow> nat \<Rightarrow> (chunk list \<times> byte list) option" where
  "ws_fill cs need raw cur =
     (if length raw - cur < need then
        (case cs of
           [] \<Rightarrow> Some ([], raw)
         | Failed # cs' \<Rightarrow> None
         | Data c # cs' \<Rightarrow>
             if c = [] then Some (cs', raw)
             else if length (raw @ c) - cur < need \<and> cs' = [] then Some (cs', raw @ c)
             else ws_fill cs' need (raw @ c) cur)
      else Some (cs, raw))"

text \<open>One turn of the outer loop, with the Rust header parser; \<open>True\<close> ends the loop.\<close>

definition ws_turn :: "reader \<Rightarrow> ws \<Rightarrow> bool \<times> reader \<times> ws" where
  "ws_turn r w =
     (case parse_frame_header (drop (buf_cursor r) (raw_buf r)) of
        None \<Rightarrow>
          (case source r of
             [] \<Rightarrow> (True, r, w)
           | Failed # cs \<Rightarrow> (True, r\<lparr>source := cs\<rparr>, ws_disconnect 1006 w)
           | Data c # cs \<Rightarrow>
               if c = [] then (True, r\<lparr>source := cs\<rparr>, w)
               else (False, r\<lparr>source := cs, raw_buf := raw_buf r @ c\<rparr>, w))
      | Some (opcode, fin, masked, payload_len, mask_key, header_len) \<Rightarrow>
          (case ws_check opcode fin masked payload_len of
             Some (code, reason) \<Rightarrow> (True, r, ws_fail code reason w)
           | None \<Rightarrow>
               (let total_frame_len = header_len + payload_len in
                case ws_fill (source r) total_frame_len (raw_buf r) (buf_cursor r) of
                  None \<Rightarrow> (True, r, ws_disconnect 1006 w)
                | Some (cs, raw) \<Rightarrow>
                    (let r = r\<lparr>source := cs, raw_buf := raw\<rparr> in
                     if length raw - buf_cursor r < total_frame_len then (True, r, w)
                     else
                       (let raw_payload = take payload_len (drop (buf_cursor r + header_len) raw);
                            payload = (case mask_key of Some k \<Rightarrow> ws_unmask k raw_payload
                                       | None \<Rightarrow> raw_payload);
                            r = compact_raw_buf (r\<lparr>buf_cursor := buf_cursor r + total_frame_len\<rparr>);
                            (stop, fr, w) = ws_process opcode fin payload (frag r) w
                        in (stop, r\<lparr>frag := fr\<rparr>, w))))))"

text \<open>A measure of the loop: the chunks not read and the bytes not consumed.\<close>

fun chunk_size :: "chunk \<Rightarrow> nat" where
  "chunk_size (Data c) = Suc (length c)"
| "chunk_size Failed = 1"

definition reader_size :: "reader \<Rightarrow> nat" where
  "reader_size r = sum_list (map chunk_size (source r)) + (length (raw_buf r) - buf_cursor r)"

lemma parse_frame_header_pos:
  "parse_frame_header b = Some (opcode, fin, masked, n, k, h) \<Longrightarrow> 2 \<le> h \<and> h \<le> length b"
  by (auto simp: parse_frame_header_def Let_def split: if_splits)

lemma ws_fill_size:
  "ws_fill cs need raw cur = Some (cs', raw') \<Longrightarrow>
   sum_list (map chunk_size cs') + (length raw' - cur) \<le>
   sum_list (map chunk_size cs) + (length raw - cur)"
proof (induction cs need raw cur rule: ws_fill.induct)
  case (1 cs need raw cur)
  show ?case
  proof (cases "length raw - cur < need")
    case less: True
    show ?thesis
    proof (cases cs)
      case Nil
      with 1 less show ?thesis by simp
    next
      case (Cons x cs1)
      with 1 less show ?thesis
        by (cases x) (fastforce split: if_splits)+
    qed
  next
    case False
    with 1 show ?thesis by simp
  qed
qed

declare ws_fill.simps [simp del]

lemma compact_raw_buf_view:
  "drop (buf_cursor (compact_raw_buf r)) (raw_buf (compact_raw_buf r)) = drop (buf_cursor r) (raw_buf r)"
  "source (compact_raw_buf r) = source r" "frag (compact_raw_buf r) = frag r"
  by (simp_all add: compact_raw_buf_def)

lemma compact_raw_buf_size: "reader_size (compact_raw_buf r) = reader_size r"
  by (simp add: compact_raw_buf_def reader_size_def)

lemma ws_turn_size: "ws_turn r w = (False, r', w') \<Longrightarrow> reader_size r' < reader_size r"
proof -
  assume t: "ws_turn r w = (False, r', w')"
  show ?thesis
  proof (cases "parse_frame_header (drop (buf_cursor r) (raw_buf r))")
    case None
    with t show ?thesis
      by (auto simp: ws_turn_def reader_size_def split: list.splits chunk.splits if_splits)
  next
    case (Some h)
    obtain opcode fin masked n k hl where h: "h = (opcode, fin, masked, n, k, hl)" by (metis prod_cases6)
    note pos = parse_frame_header_pos [OF Some [unfolded h]]
    obtain cs raw where f: "ws_fill (source r) (hl + n) (raw_buf r) (buf_cursor r) = Some (cs, raw)"
      and l: "hl + n \<le> length raw - buf_cursor r"
      using t Some h by (auto simp: ws_turn_def Let_def split: option.splits if_splits)
    let ?r = "r\<lparr>source := cs, raw_buf := raw, buf_cursor := buf_cursor r + (hl + n)\<rparr>"
    have "reader_size r' = reader_size (compact_raw_buf ?r)"
      using t Some h f l
      by (auto simp: ws_turn_def Let_def reader_size_def split: option.splits if_splits prod.splits)
    also have "\<dots> < reader_size r"
    proof -
      have "length raw - (buf_cursor r + (hl + n)) < length raw - buf_cursor r" using l pos by linarith
      then show ?thesis
        using ws_fill_size [OF f] by (simp add: compact_raw_buf_size) (simp add: reader_size_def)
    qed
    finally show ?thesis .
  qed
qed

function ws_read :: "reader \<Rightarrow> ws \<Rightarrow> ws" where
  "ws_read r w =
     (if w_closed_event w then w
      else (case ws_turn r w of
              (True, r', w') \<Rightarrow> w'
            | (False, r', w') \<Rightarrow> ws_read r' w'))"
  by pat_completeness auto
termination
  by (relation "measure (\<lambda>(r, w). reader_size r)") (auto dest: sym ws_turn_size)

declare ws_read.simps [simp del]


section \<open>The reader as a function of the byte stream\<close>

text \<open>
  The specification: what the loop does to the bytes of the stream, with no chunks, buffer or
  cursor.  The flag of the result says that the stream ended before the loop did.
\<close>

function ws_spec :: "byte list \<Rightarrow> frag \<Rightarrow> ws \<Rightarrow> bool \<times> ws" where
  "ws_spec bs fr w =
     (if w_closed_event w then (False, w)
      else (case parse_frame_header bs of
              None \<Rightarrow> (True, w)
            | Some (opcode, fin, masked, n, key, hl) \<Rightarrow>
                (case ws_check opcode fin masked n of
                   Some (code, reason) \<Rightarrow> (False, ws_fail code reason w)
                 | None \<Rightarrow>
                     if length bs < hl + n then (True, w)
                     else
                       (let payload = (case key of Some k \<Rightarrow> ws_unmask k (take n (drop hl bs))
                                       | None \<Rightarrow> take n (drop hl bs))
                        in case ws_process opcode fin payload fr w of
                             (True, fr', w') \<Rightarrow> (False, w')
                           | (False, fr', w') \<Rightarrow> ws_spec (drop (hl + n) bs) fr' w'))))"
  by pat_completeness auto
termination
  by (relation "measure (\<lambda>(bs, fr, w). length bs)") (auto dest: parse_frame_header_pos)

declare ws_spec.simps [simp del]

text \<open>A header is complete once its bytes are there: more bytes do not change it.\<close>

lemma take_drop_append: "k + j \<le> length b \<Longrightarrow> take j (drop k (b @ c)) = take j (drop k b)"
  by simp

lemma parse_frame_header_append:
  assumes "parse_frame_header b = Some h"
  shows "parse_frame_header (b @ c) = Some h"
proof -
  have len: "2 \<le> length b" using assms by (simp add: parse_frame_header_def split: if_splits)
  then have n: "(b @ c) ! 0 = b ! 0" "(b @ c) ! 1 = b ! 1" by (auto simp: nth_append)
  let ?raw = "unat (b ! 1 AND 0x7F)"
  consider "?raw = 126" | "?raw = 127" | "?raw \<noteq> 126" "?raw \<noteq> 127" by blast
  then show ?thesis
  proof cases
    case 1
    with assms len show ?thesis
      unfolding parse_frame_header_def Let_def n
      by (simp add: take_drop_append del: drop_append take_append split: if_splits)
  next
    case 2
    with assms len show ?thesis
      unfolding parse_frame_header_def Let_def n
      by (simp add: take_drop_append del: drop_append take_append split: if_splits)
  next
    case 3
    with assms len show ?thesis
      unfolding parse_frame_header_def Let_def n
      by (simp add: take_drop_append del: drop_append take_append split: if_splits)
  qed
qed

definition all_data :: "chunk list \<Rightarrow> bool" where
  "all_data cs \<longleftrightarrow> list_all (\<lambda>c. \<exists>b. c = Data b \<and> b \<noteq> []) cs"

fun stream :: "chunk list \<Rightarrow> byte list" where
  "stream (Data b # cs) = b @ stream cs"
| "stream (Failed # cs) = []"
| "stream [] = []"

lemma ws_fill_stream:
  "all_data cs \<Longrightarrow> cur \<le> length raw \<Longrightarrow>
   \<exists>cs' raw'. ws_fill cs need raw cur = Some (cs', raw') \<and> all_data cs' \<and> cur \<le> length raw' \<and>
     drop cur raw' @ stream cs' = drop cur raw @ stream cs \<and>
     (length raw' - cur < need \<longrightarrow> cs' = [])"
proof (induction cs need raw cur rule: ws_fill.induct)
  case (1 cs need raw cur)
  show ?case
  proof (cases "length raw - cur < need")
    case less: True
    show ?thesis
    proof (cases cs)
      case Nil
      with 1 less show ?thesis by (simp add: ws_fill.simps)
    next
      case (Cons x cs1)
      with 1(2) obtain b where b: "x = Data b" "b \<noteq> []" "all_data cs1"
        by (auto simp: all_data_def)
      show ?thesis
      proof (cases "length (raw @ b) - cur < need \<and> cs1 = []")
        case True
        with b Cons less 1(3) show ?thesis by (simp add: ws_fill.simps all_data_def)
      next
        case False
        from 1(1) [OF less Cons b(1,2) False b(3)] 1(3)
        obtain cs' raw' where "ws_fill cs1 need (raw @ b) cur = Some (cs', raw')" "all_data cs'"
          "cur \<le> length raw'" "drop cur raw' @ stream cs' = drop cur (raw @ b) @ stream cs1"
          "length raw' - cur < need \<longrightarrow> cs' = []"
          by auto
        moreover have "ws_fill cs need raw cur = ws_fill cs1 need (raw @ b) cur"
          using less Cons b False by (subst ws_fill.simps) auto
        ultimately show ?thesis using Cons b 1(3) by simp
      qed
    qed
  next
    case False
    with 1 show ?thesis by (subst ws_fill.simps) auto
  qed
qed

lemma ws_read_spec:
  assumes "all_data (source r)" and "buf_cursor r \<le> length (raw_buf r)"
  shows "ws_read r w = snd (ws_spec (drop (buf_cursor r) (raw_buf r) @ stream (source r)) (frag r) w)"
  using assms
proof (induction r w rule: ws_read.induct)
  case (1 r w)
  let ?view = "drop (buf_cursor r) (raw_buf r)"
  let ?bs = "?view @ stream (source r)"
  show ?case
  proof (cases "w_closed_event w")
    case True
    then show ?thesis by (simp add: ws_read.simps ws_spec.simps)
  next
    case opn: False
    show ?thesis
    proof (cases "parse_frame_header ?view")
      case None
      show ?thesis
      proof (cases "source r")
        case Nil
        with None opn show ?thesis by (simp add: ws_read.simps ws_spec.simps ws_turn_def)
      next
        case (Cons x cs)
        with 1(2) obtain b where b: "x = Data b" "b \<noteq> []" "all_data cs" by (auto simp: all_data_def)
        let ?r = "r\<lparr>source := cs, raw_buf := raw_buf r @ b\<rparr>"
        have t: "ws_turn r w = (False, ?r, w)" using None Cons b by (simp add: ws_turn_def)
        have "ws_read ?r w = snd (ws_spec (drop (buf_cursor ?r) (raw_buf ?r) @ stream (source ?r)) (frag ?r) w)"
          using b 1(3) by (intro 1(1) [OF opn t [symmetric]]) auto
        with t opn Cons b 1(3) show ?thesis by (simp add: ws_read.simps [of r])
      qed
    next
      case (Some h)
      obtain opcode fin masked n k hl where h: "h = (opcode, fin, masked, n, k, hl)" by (metis prod_cases6)
      have p: "parse_frame_header ?view = Some (opcode, fin, masked, n, k, hl)" using Some h by simp
      have p': "parse_frame_header ?bs = Some (opcode, fin, masked, n, k, hl)"
        using parse_frame_header_append [OF p] .
      show ?thesis
      proof (cases "ws_check opcode fin masked n")
        case bad: (Some cr)
        with p p' opn show ?thesis
          by (cases cr) (simp add: ws_read.simps ws_spec.simps [of ?bs] ws_turn_def)
      next
        case ok: None
        obtain cs raw where f: "ws_fill (source r) (hl + n) (raw_buf r) (buf_cursor r) = Some (cs, raw)"
          "all_data cs" "buf_cursor r \<le> length raw" "drop (buf_cursor r) raw @ stream cs = ?bs"
          "length raw - buf_cursor r < hl + n \<Longrightarrow> cs = []"
          using ws_fill_stream [OF 1(2,3)] by meson
        show ?thesis
        proof (cases "length raw - buf_cursor r < hl + n")
          case short: True
          then have "length ?bs < hl + n" using f(4) f(5) [OF short] by (metis append_Nil2 length_drop stream.simps(3))
          with short p p' ok opn f(1) show ?thesis
            by (simp add: ws_read.simps ws_spec.simps [of ?bs] ws_turn_def Let_def)
        next
          case long: False
          let ?raw_payload = "take n (drop (buf_cursor r + hl) raw)"
          let ?payload = "case k of Some k \<Rightarrow> ws_unmask k ?raw_payload | None \<Rightarrow> ?raw_payload"
          have bs: "?bs = drop (buf_cursor r) raw @ stream cs" using f(4) by simp
          have len: "\<not> length ?bs < hl + n" using long unfolding bs by simp
          have pay: "take n (drop hl ?bs) = ?raw_payload" using long unfolding bs by (simp add: add.commute)
          have rest: "drop (hl + n) ?bs = drop (buf_cursor r + (hl + n)) raw @ stream cs"
            using long unfolding bs by (simp add: add.commute)
          obtain stop fr' w' where pr: "ws_process opcode fin ?payload (frag r) w = (stop, fr', w')"
            by (metis prod_cases3)
          let ?r = "compact_raw_buf (r\<lparr>source := cs, raw_buf := raw, buf_cursor := buf_cursor r + (hl + n)\<rparr>)"
          have t: "ws_turn r w = (stop, ?r\<lparr>frag := fr'\<rparr>, w')"
            using p ok f(1) long pr by (simp add: ws_turn_def Let_def compact_raw_buf_view)
          have sp: "ws_spec ?bs (frag r) w = (if stop then (False, w') else ws_spec (drop (hl + n) ?bs) fr' w')"
          proof -
            have "ws_spec ?bs (frag r) w = (case ws_process opcode fin ?payload (frag r) w of
                (True, fr', w') \<Rightarrow> (False, w') | (False, fr', w') \<Rightarrow> ws_spec (drop (hl + n) ?bs) fr' w')"
              unfolding pay [symmetric] using p' ok opn len
              by (simp add: ws_spec.simps [of ?bs] Let_def del: take_append drop_append length_append)
            with pr show ?thesis by (cases stop) (simp_all del: take_append drop_append length_append)
          qed
          show ?thesis
          proof (cases stop)
            case True
            with t opn sp show ?thesis by (simp add: ws_read.simps)
          next
            case False
            have cur: "buf_cursor ?r \<le> length (raw_buf ?r)"
              using long f(3) by (simp add: compact_raw_buf_def) arith
            let ?r' = "?r\<lparr>frag := fr'\<rparr>"
            have "ws_read ?r' w' =
                snd (ws_spec (drop (buf_cursor ?r') (raw_buf ?r') @ stream (source ?r')) (frag ?r') w')"
              using cur f(2) False
              by (intro 1(1) [OF opn t [symmetric]]) (auto simp: compact_raw_buf_view)
            then have "ws_read ?r' w' = snd (ws_spec (drop (hl + n) ?bs) fr' w')"
              by (simp add: compact_raw_buf_view rest del: drop_append drop_drop)
            with False t opn sp show ?thesis
              by (simp add: ws_read.simps [of r] del: take_append drop_append drop_drop length_append)
          qed
        qed
      qed
    qed
  qed
qed


section \<open>Bits of a header\<close>

lemma and_80: "((b :: byte) AND 0x80 = 0) \<longleftrightarrow> unat b < 128"
proof -
  have "((b :: byte) AND 0x80 = 0) \<longleftrightarrow> \<not> bit b 7"
    using and_exp_eq_0_iff_not_bit [of b 7] by simp
  also have "bit b 7 \<longleftrightarrow> bit (unat b) 7" by (simp add: bit_unsigned_iff)
  also have "bit (unat b) 7 \<longleftrightarrow> \<not> unat b < 128"
  proof -
    have "unat b div 128 = 0 \<or> unat b div 128 = 1" using unat_byte_less [of b] by linarith
    then show ?thesis unfolding bit_iff_odd by (auto simp: div_eq_0_iff)
  qed
  finally show ?thesis by simp
qed

lemma nat_and_mask: "(n :: nat) AND 0x7F = n mod 128" "(n :: nat) AND 0x0F = n mod 16"
  using take_bit_eq_mask [of 7 n] take_bit_eq_mask [of 4 n]
  by (simp_all add: take_bit_eq_mod mask_eq_exp_minus_1)

lemma and_7F: "unat ((b :: byte) AND 0x7F) = unat b mod 128"
  by (simp only: unsigned_and_eq) (simp add: nat_and_mask)

lemma and_0F: "unat ((b :: byte) AND 0x0F) = unat b mod 16"
  by (simp only: unsigned_and_eq) (simp add: nat_and_mask)

lemma less16: "n < (16::nat) \<longleftrightarrow> n \<in> {0,1,2,3,4,5,6,7,8,9,10,11,12,13,14,15}"
  by (simp add: numeral_eq_Suc less_Suc_eq, blast?)

lemma first_byte: "n < 16 \<Longrightarrow> unat (0x80 OR (word_of_nat n AND 0x0F) :: byte) = 128 + n"
  unfolding less16 by (elim insertE emptyE) simp_all

lemma length_byte: "n < 128 \<Longrightarrow> unat (0x80 OR word_of_nat n :: byte) = 128 + n"
proof -
  assume n: "n < 128"
  have "(0x80 :: byte) AND word_of_nat n = 0"
    using and_80 [of "word_of_nat n"] n by (simp add: unat_of_nat and.commute)
  then have "(0x80 OR word_of_nat n :: byte) = 0x80 + word_of_nat n"
    by (simp add: disjunctive_add_eq_or)
  then show ?thesis using n by (simp add: unat_word_ariths unat_of_nat)
qed

section \<open>Frames written and read\<close>

text \<open>The frame a client sends: masked, its payload transformed with the key.\<close>

definition client_frame :: "bool \<Rightarrow> nat \<Rightarrow> byte list \<Rightarrow> byte list \<Rightarrow> byte list" where
  "client_frame fin opcode key payload =
     (let n = length payload in
      [word_of_nat ((if fin then 128 else 0) + opcode)] @
      (if n < 126 then [word_of_nat (128 + n)]
       else if n \<le> 0xFFFF then 254 # be_bytes 2 n
       else 255 # be_bytes 8 n) @ key @ ws_unmask key payload)"

lemma length_ws_unmask [simp]: "length (ws_unmask key p) = length p"
  by (simp add: ws_unmask_def)

lemma ws_unmask_unmask: "ws_unmask key (ws_unmask key p) = p"
  by (rule nth_equalityI) (simp_all add: ws_unmask_def nth_enumerate_eq xor.assoc)

lemma ws_unmask_Nil [simp]: "ws_unmask key [] = []"
  by (simp add: ws_unmask_def)

text \<open>The length field of a header, in its three forms.\<close>

lemma parse_header_lengths:
  assumes "length tail = n" and "n < 126 \<and> raw = n \<and> ext = [] \<or>
      126 \<le> n \<and> n \<le> 0xFFFF \<and> raw = 126 \<and> ext = be_bytes 2 n \<or>
      0xFFFF < n \<and> n < 2 ^ 64 \<and> raw = 127 \<and> ext = be_bytes 8 n"
    and "b1 AND 0x80 \<noteq> 0 \<longleftrightarrow> fin" and "unat (b1 AND 0x0F) = opcode"
    and "unat (b2 AND 0x7F) = raw" and "b2 AND 0x80 \<noteq> 0 \<longleftrightarrow> masked"
    and "if masked then length key = 4 else key = []"
  shows "parse_frame_header (b1 # b2 # ext @ key @ tail) =
    Some (opcode, fin, masked, n, if masked then Some key else None,
      2 + length ext + length key)"
proof -
  let ?buf = "b1 # b2 # ext @ key @ tail"
  have r: "n mod 256 ^ 8 = n" if "n < 2 ^ 64" using that by simp
  from assms(2) consider
    "n < 126" "raw = n" "ext = []"
    | "126 \<le> n" "n \<le> 0xFFFF" "raw = 126" "ext = be_bytes 2 n"
    | "0xFFFF < n" "n < 2 ^ 64" "raw = 127" "ext = be_bytes 8 n" by blast
  then show ?thesis
  proof cases
    case 1
    with assms show ?thesis by (auto simp: parse_frame_header_def Let_def)
  next
    case 2
    have e: "be_nat (be_bytes 2 n) = n" using 2 by (simp add: be_nat_be_bytes)
    have l: "length ext = 2" using 2 by simp
    show ?thesis using assms 2(3) l e unfolding 2(4)
      by (auto simp: parse_frame_header_def Let_def)
  next
    case 3
    have e: "be_nat (be_bytes 8 n) = n" using 3(2) r by (simp only: be_nat_be_bytes)
    have l: "length (be_bytes 8 n) = 8" by simp
    show ?thesis using assms(1,3-) 3(3) e l unfolding 3(4)
      by (auto simp: parse_frame_header_def Let_def simp del: length_be_bytes)
  qed
qed

lemma parse_ws_frame:
  assumes "opcode < 16" and "length payload < 2 ^ 64"
  shows "\<exists>hl. parse_frame_header (ws_frame opcode payload) = Some (opcode, True, False, length payload, None, hl) \<and>
    drop hl (ws_frame opcode payload) = payload \<and> hl \<le> 10"
proof -
  define n where "n = length payload"
  define raw where "raw = (if n < 126 then n else if n \<le> 0xFFFF then 126 else 127)"
  define ext where "ext = (if n < 126 then [] else if n \<le> 0xFFFF then be_bytes 2 n else be_bytes 8 n)"
  let ?b1 = "0x80 OR (word_of_nat opcode AND 0x0F) :: byte"
  let ?b2 = "word_of_nat raw :: byte"
  have raw: "raw < 128" by (simp add: raw_def)
  have f: "ws_frame opcode payload = ?b1 # ?b2 # ext @ [] @ payload"
    by (simp add: ws_frame_def n_def ext_def raw_def Let_def)
  have m: "(128 + opcode) mod 16 = opcode" using assms(1) by presburger
  have 1: "?b1 AND 0x80 \<noteq> 0" "unat (?b1 AND 0x0F) = opcode"
    unfolding and_80 and_0F first_byte [OF assms(1)] m by simp_all
  have 2: "unat (?b2 AND 0x7F) = raw" "\<not> ?b2 AND 0x80 \<noteq> 0"
    using raw by (simp_all only: and_80 and_7F) (simp_all add: unat_of_nat)
  have "parse_frame_header (?b1 # ?b2 # ext @ [] @ payload) =
    Some (opcode, True, False, n, if False then Some [] else None,
      2 + length ext + length ([] :: byte list))"
    by (rule parse_header_lengths [where raw = raw])
      (use 1 2 assms(2) in \<open>auto simp: n_def raw_def ext_def\<close>)
  moreover have "length ext \<le> 8" by (simp add: ext_def)
  ultimately show ?thesis unfolding f by (intro exI [of _ "2 + length ext"]) (simp add: n_def)
qed

lemma parse_client_frame:
  assumes "opcode < 16" and "length payload < 2 ^ 64" and "length key = 4"
  shows "\<exists>hl. parse_frame_header (client_frame fin opcode key payload @ rest) =
      Some (opcode, fin, True, length payload, Some key, hl) \<and>
    drop hl (client_frame fin opcode key payload @ rest) = ws_unmask key payload @ rest"
proof -
  define n where "n = length payload"
  define raw where "raw = (if n < 126 then n else if n \<le> 0xFFFF then 126 else 127)"
  define ext where "ext = (if n < 126 then [] else if n \<le> 0xFFFF then be_bytes 2 n else be_bytes 8 n)"
  let ?b1 = "word_of_nat ((if fin then 128 else 0) + opcode) :: byte"
  let ?b2 = "word_of_nat (128 + raw) :: byte"
  let ?tl = "ws_unmask key payload"
  have raw: "raw < 128" by (simp add: raw_def)
  have f: "client_frame fin opcode key payload = ?b1 # ?b2 # ext @ key @ ?tl"
    by (simp add: client_frame_def n_def ext_def raw_def Let_def)
  have m: "(128 + opcode) mod 16 = opcode" using assms(1) by presburger
  have u: "unat ?b1 = (if fin then 128 else 0) + opcode" "unat ?b2 = 128 + raw"
    using raw assms(1) unfolding unat_byte by simp_all
  have 1: "?b1 AND 0x80 \<noteq> 0 \<longleftrightarrow> fin" "unat (?b1 AND 0x0F) = opcode"
    unfolding and_80 and_0F u using assms(1) m by auto
  have 2: "unat (?b2 AND 0x7F) = raw" "?b2 AND 0x80 \<noteq> 0"
    using raw unfolding and_80 and_7F u by simp_all
  have "parse_frame_header (?b1 # ?b2 # ext @ key @ ?tl) =
    Some (opcode, fin, True, n, if True then Some key else None, 2 + length ext + length key)"
    by (rule parse_header_lengths [where raw = raw])
      (use 1 2 assms(2,3) in \<open>auto simp: n_def raw_def ext_def\<close>)
  from parse_frame_header_append [OF this, of rest] show ?thesis
    unfolding f by (intro exI [of _ "2 + length ext + length key"]) (simp add: n_def)
qed

end
