(* ===== verification/WsSession.thy ===== *)
theory WsSession
  imports WebSocket
begin

text \<open>
  The rest of \<open>multiloop._websocket\<close>: the \<open>readexactly\<close> branch of the reader loop and its
  agreement with the buffered one, delivery of fragmented messages, the ASGI callbacks, the
  opening checks of \<open>run\<close>, and the order of events an application sees.
\<close>

unbundle bit_operations_syntax

section \<open>The fallback reader\<close>

text \<open>\<open>reader.readexactly(n)\<close> on what is left of the stream; \<open>None\<close> is \<open>IncompleteReadError\<close>.\<close>

definition readexactly :: "nat \<Rightarrow> byte list \<Rightarrow> (byte list \<times> byte list) option" where
  "readexactly n bs = (if length bs < n then None else Some (take n bs, drop n bs))"

datatype exact = Incomplete | Refused nat string | Frame nat bool "byte list" "byte list"

definition exact_length :: "nat \<Rightarrow> byte list \<Rightarrow> (nat \<times> byte list) option" where
  "exact_length len bs =
     (if len = 126 then map_option (\<lambda>(l, bs). (be_nat l, bs)) (readexactly 2 bs)
      else if len = 127 then map_option (\<lambda>(l, bs). (be_nat l, bs)) (readexactly 8 bs)
      else Some (len, bs))"

definition exact_frame :: "byte list \<Rightarrow> exact" where
  "exact_frame bs =
     (case readexactly 2 bs of
        None \<Rightarrow> Incomplete
      | Some (head, bs) \<Rightarrow>
          (let b1 = head ! 0; b2 = head ! 1;
               fin = b1 AND 0x80 \<noteq> 0; opcode = unat (b1 AND 0x0F); masked = b2 AND 0x80 \<noteq> 0
           in if \<not> masked then Refused 1002 ''Unmasked Frame''
              else
                (case exact_length (unat (b2 AND 0x7F)) bs of
                   None \<Rightarrow> Incomplete
                 | Some (payload_len, bs) \<Rightarrow>
                     if opcode \<ge> 8 \<and> (payload_len > 125 \<or> \<not> fin) then
                       Refused 1002 ''Invalid Control Frame''
                     else if payload_len > max_ws_frame_size then Refused 1009 ''Message Too Big''
                     else
                       (case readexactly 4 bs of
                          None \<Rightarrow> Incomplete
                        | Some (mask_key, bs) \<Rightarrow>
                            (case (if payload_len > 0 then readexactly payload_len bs else Some ([], bs)) of
                               None \<Rightarrow> Incomplete
                             | Some (raw_payload, bs) \<Rightarrow>
                                 Frame opcode fin (ws_unmask mask_key raw_payload) bs)))))"

lemma exact_frame_shorter: "exact_frame bs = Frame opcode fin p bs' \<Longrightarrow> length bs' < length bs"
  by (auto simp: exact_frame_def exact_length_def readexactly_def Let_def
      split: option.splits if_splits prod.splits)

function ws_read_exact :: "byte list \<Rightarrow> frag \<Rightarrow> ws \<Rightarrow> ws" where
  "ws_read_exact bs fr w =
     (if w_closed_event w then w
      else (case exact_frame bs of
              Incomplete \<Rightarrow> ws_disconnect 1006 w
            | Refused code reason \<Rightarrow> ws_fail code reason w
            | Frame opcode fin payload bs' \<Rightarrow>
                (case ws_process opcode fin payload fr w of
                   (True, fr', w') \<Rightarrow> w'
                 | (False, fr', w') \<Rightarrow> ws_read_exact bs' fr' w')))"
  by pat_completeness auto
termination
  by (relation "measure (\<lambda>(bs, fr, w). length bs)") (auto dest: exact_frame_shorter)

declare ws_read_exact.simps [simp del]

lemma exact_frame_parse:
  assumes "parse_frame_header bs = Some (opcode, fin, masked, n, key, hl)"
  shows "exact_frame bs =
    (case ws_check opcode fin masked n of
       Some (code, reason) \<Rightarrow> Refused code reason
     | None \<Rightarrow> if length bs < hl + n then Incomplete
               else Frame opcode fin (ws_unmask (the key) (take n (drop hl bs))) (drop (hl + n) bs))"
    and "masked \<Longrightarrow> \<exists>k. key = Some k"
proof -
  have len: "2 \<le> length bs" using assms by (simp add: parse_frame_header_def split: if_splits)
  then have n: "take 2 bs ! 0 = bs ! 0" "take 2 bs ! 1 = bs ! 1" by simp_all
  have r: "readexactly 2 bs = Some (take 2 bs, drop 2 bs)" using len by (simp add: readexactly_def)
  let ?raw = "unat (bs ! 1 AND 0x7F)"
  consider "?raw = 126" | "?raw = 127" | "?raw \<noteq> 126" "?raw \<noteq> 127" by blast
  then show "exact_frame bs =
    (case ws_check opcode fin masked n of
       Some (code, reason) \<Rightarrow> Refused code reason
     | None \<Rightarrow> if length bs < hl + n then Incomplete
               else Frame opcode fin (ws_unmask (the key) (take n (drop hl bs))) (drop (hl + n) bs))"
  proof cases
    case 1
    with assms len show ?thesis
      unfolding exact_frame_def r option.case prod.case n Let_def
      by (auto simp: parse_frame_header_def exact_length_def readexactly_def ws_check_def Let_def
          add.commute split: if_splits)
  next
    case 2
    with assms len show ?thesis
      unfolding exact_frame_def r option.case prod.case n Let_def
      by (auto simp: parse_frame_header_def exact_length_def readexactly_def ws_check_def Let_def
          add.commute split: if_splits)
  next
    case 3
    with assms len show ?thesis
      unfolding exact_frame_def r option.case prod.case n Let_def
      by (auto simp: parse_frame_header_def exact_length_def readexactly_def ws_check_def Let_def
          add.commute split: if_splits)
  qed
  show "masked \<Longrightarrow> \<exists>k. key = Some k"
    using assms by (auto simp: parse_frame_header_def Let_def split: if_splits)
qed

lemma exact_frame_no_header:
  assumes "parse_frame_header bs = None"
  shows "exact_frame bs = Incomplete \<or> (\<exists>c r. exact_frame bs = Refused c r)"
proof (cases "length bs < 2")
  case True
  then show ?thesis by (simp add: exact_frame_def readexactly_def)
next
  case False
  then have n: "take 2 bs ! 0 = bs ! 0" "take 2 bs ! 1 = bs ! 1"
    and r: "readexactly 2 bs = Some (take 2 bs, drop 2 bs)"
    by (simp_all add: readexactly_def)
  have m: "\<not> bs ! 1 AND 0x80 \<noteq> 0 \<Longrightarrow> ?thesis"
    unfolding exact_frame_def r option.case prod.case n Let_def by simp
  have short: "?thesis" if "\<And>l bs'. exact_length (unat (bs ! 1 AND 0x7F)) (drop 2 bs) = Some (l, bs') \<Longrightarrow>
      length bs' < 4"
    unfolding exact_frame_def r option.case prod.case n Let_def
    using that by (auto simp: readexactly_def split: option.splits)
  let ?raw = "unat (bs ! 1 AND 0x7F)"
  consider "?raw = 126" | "?raw = 127" | "?raw \<noteq> 126" "?raw \<noteq> 127" by blast
  then show ?thesis
  proof cases
    case 1
    with assms False m show ?thesis
      by (cases "bs ! 1 AND 0x80 = 0")
        (auto intro!: short simp: parse_frame_header_def exact_length_def readexactly_def Let_def split: if_splits)
  next
    case 2
    with assms False m show ?thesis
      by (cases "bs ! 1 AND 0x80 = 0")
        (auto intro!: short simp: parse_frame_header_def exact_length_def readexactly_def Let_def split: if_splits)
  next
    case 3
    with assms False m show ?thesis
      by (cases "bs ! 1 AND 0x80 = 0")
        (auto intro!: short simp: parse_frame_header_def exact_length_def readexactly_def Let_def split: if_splits)
  qed
qed

text \<open>The two readers agree, but for the end of the stream.\<close>

lemma ws_read_exact_spec:
  "ws_spec bs fr w = (eof, w') \<Longrightarrow>
   (if eof then ws_read_exact bs fr w = ws_disconnect 1006 w' \<or>
        (\<exists>code reason. ws_read_exact bs fr w = ws_fail code reason w')
    else ws_read_exact bs fr w = w')"
proof (induction bs fr w arbitrary: w' rule: ws_spec.induct)
  case (1 bs fr w)
  show ?case
  proof (cases "w_closed_event w")
    case True
    with 1(2) show ?thesis by (simp add: ws_spec.simps ws_read_exact.simps)
  next
    case opn: False
    show ?thesis
    proof (cases "parse_frame_header bs")
      case None
      then have w: "eof" "w' = w" using 1(2) opn by (simp_all add: ws_spec.simps)
      from exact_frame_no_header [OF None] show ?thesis
      proof (elim disjE exE)
        assume "exact_frame bs = Incomplete"
        with opn w show ?thesis by (simp add: ws_read_exact.simps)
      next
        fix c r assume "exact_frame bs = Refused c r"
        with opn have "ws_read_exact bs fr w = ws_fail c r w" by (simp add: ws_read_exact.simps)
        with w show ?thesis by auto
      qed
    next
      case (Some h)
      obtain opcode fin masked n k hl where h: "h = (opcode, fin, masked, n, k, hl)" by (metis prod_cases6)
      note p = Some [unfolded h]
      note ef = exact_frame_parse [OF p]
      show ?thesis
      proof (cases "ws_check opcode fin masked n")
        case (Some cr)
        with p ef 1(2) opn show ?thesis
          by (cases cr) (auto simp: ws_spec.simps [of bs] ws_read_exact.simps [of bs])
      next
        case ok: None
        then have masked by (simp add: ws_check_def split: if_splits)
        with ef(2) obtain key where k: "k = Some key" by blast
        show ?thesis
        proof (cases "length bs < hl + n")
          case True
          with p ef ok 1(2) opn show ?thesis
            by (auto simp: ws_spec.simps [of bs] ws_read_exact.simps [of bs])
        next
          case False
          obtain stop fr' w1 where pr:
            "ws_process opcode fin (ws_unmask key (take n (drop hl bs))) fr w = (stop, fr', w1)"
            by (metis prod_cases3)
          show ?thesis
          proof (cases stop)
            case True
            with p ef ok False k pr 1(2) opn show ?thesis
              by (auto simp: ws_spec.simps [of bs] ws_read_exact.simps [of bs] Let_def)
          next
            case go: False
            have sp: "ws_spec bs fr w = ws_spec (drop (hl + n) bs) fr' w1"
              using p ok False k pr opn go by (simp add: ws_spec.simps [of bs] Let_def)
            have ex: "ws_read_exact bs fr w = ws_read_exact (drop (hl + n) bs) fr' w1"
              using ef ok False k pr opn go by (simp add: ws_read_exact.simps [of bs] Let_def)
            have ih: "if eof then ws_read_exact (drop (hl + n) bs) fr' w1 = ws_disconnect 1006 w' \<or>
                (\<exists>code reason. ws_read_exact (drop (hl + n) bs) fr' w1 = ws_fail code reason w')
              else ws_read_exact (drop (hl + n) bs) fr' w1 = w'"
              using p ok False k pr go 1(2) by (intro 1(1) [OF opn p]) (auto simp: sp)
            then show ?thesis unfolding ex .
          qed
        qed
      qed
    qed
  qed
qed

section \<open>Delivery of messages\<close>

text \<open>
  A client sends a message as one or more frames, with pings between them: each piece is the
  pings before its frame, the masking key and the data.
\<close>

type_synonym piece = "(byte list \<times> byte list) list \<times> byte list \<times> byte list"

definition ping_frames :: "(byte list \<times> byte list) list \<Rightarrow> byte list" where
  "ping_frames ps = concat (map (\<lambda>(k, p). client_frame True 9 k p) ps)"

definition pong_frames :: "(byte list \<times> byte list) list \<Rightarrow> byte list" where
  "pong_frames ps = concat (map (\<lambda>(k, p). ws_frame 10 p) ps)"

fun message_frames :: "nat \<Rightarrow> bool \<Rightarrow> piece list \<Rightarrow> byte list" where
  "message_frames opcode first [] = []"
| "message_frames opcode first ((pings, key, d) # ps) =
     ping_frames pings @ client_frame (ps = []) (if first then opcode else 0) key d @
     message_frames opcode False ps"

fun piece_ok :: "piece \<Rightarrow> bool" where
  "piece_ok (pings, key, d) \<longleftrightarrow>
     list_all (\<lambda>(k, p). length k = 4 \<and> length p \<le> 125) pings \<and> length key = 4 \<and>
     length d \<le> max_ws_frame_size"

definition piece_data :: "piece list \<Rightarrow> byte list" where
  "piece_data ps = concat (map (snd \<circ> snd) ps)"

definition piece_pongs :: "piece list \<Rightarrow> byte list" where
  "piece_pongs ps = concat (map (pong_frames \<circ> fst) ps)"

definition message_event :: "nat \<Rightarrow> byte list \<Rightarrow> ws_event" where
  "message_event opcode data = (if opcode = 1 then WsText (the (utf8_decode data)) else WsBytes data)"

definition message_ok :: "nat \<times> piece list \<Rightarrow> bool" where
  "message_ok m \<longleftrightarrow>
     (let (opcode, ps) = m in
      ps \<noteq> [] \<and> list_all piece_ok ps \<and> length (piece_data ps) \<le> max_ws_message_size \<and>
      (opcode = 1 \<and> utf8_decode (piece_data ps) \<noteq> None \<or> opcode = 2))"

lemma ws_write_simps [simp]:
  "w_closed_event (ws_write bs w) = w_closed_event w"
  "w_closed_event (ws_push ev w) = w_closed_event w"
  "ws_write bs (ws_write cs w) = ws_write (cs @ bs) w"
  "ws_write [] w = w"
  "ws_push ev (ws_write bs w) = ws_write bs (ws_push ev w)"
  by (simp_all add: ws_write_def ws_push_def)

lemma ws_spec_frame:
  assumes "\<not> w_closed_event w" and "opcode < 16" and "length key = 4"
    and "length p \<le> max_ws_frame_size" and "opcode \<ge> 8 \<Longrightarrow> fin \<and> length p \<le> 125"
  shows "ws_spec (client_frame fin opcode key p @ rest) fr w =
    (case ws_process opcode fin p fr w of
       (True, fr', w') \<Rightarrow> (False, w') | (False, fr', w') \<Rightarrow> ws_spec rest fr' w')"
proof -
  let ?bs = "client_frame fin opcode key p @ rest"
  have "length p < 2 ^ 64" using assms(4) by (simp add: max_ws_frame_size_def)
  from parse_client_frame [OF assms(2) this assms(3)] obtain hl where
    h: "parse_frame_header ?bs = Some (opcode, fin, True, length p, Some key, hl)"
      "drop hl ?bs = ws_unmask key p @ rest" by blast
  have ck: "ws_check opcode fin True (length p) = None" using assms(4,5) by (auto simp: ws_check_def)
  have len: "\<not> length ?bs < hl + length p"
  proof -
    have "length (drop hl ?bs) = length p + length rest" unfolding h(2) by simp
    moreover have "hl \<le> length ?bs" using parse_frame_header_pos [OF h(1)] by simp
    ultimately show ?thesis by (simp del: length_append drop_append)
  qed
  have t: "take (length p) (drop hl ?bs) = ws_unmask key p" unfolding h(2) by simp
  have d: "drop (hl + length p) ?bs = rest"
    using h(2) by (metis append_eq_conv_conj drop_drop add.commute length_ws_unmask)
  obtain stop fr' w' where pr: "ws_process opcode fin p fr w = (stop, fr', w')" by (metis prod_cases3)
  show ?thesis
    using h(1) ck len assms(1) pr
    by (cases stop) (simp_all add: ws_spec.simps [of ?bs] Let_def t d ws_unmask_unmask
        del: take_append drop_append length_append)
qed

lemma ws_spec_pings:
  assumes "\<not> w_closed_event w" and "list_all (\<lambda>(k, p). length k = 4 \<and> length p \<le> 125) ps"
  shows "ws_spec (ping_frames ps @ rest) fr w = ws_spec rest fr (ws_write (pong_frames ps) w)"
  using assms
proof (induction ps arbitrary: w)
  case (Cons x ps)
  obtain k p where x: "x = (k, p)" by fastforce
  have "ws_spec (client_frame True 9 k p @ (ping_frames ps @ rest)) fr w =
      ws_spec (ping_frames ps @ rest) fr (ws_write (ws_frame 10 p) w)"
    using Cons.prems x
    by (subst ws_spec_frame) (auto simp: ws_process_def ws_send_frame_def max_ws_frame_size_def)
  with Cons x show ?case by (simp add: ping_frames_def pong_frames_def)
qed (simp add: ping_frames_def pong_frames_def)

lemma ws_spec_rest:
  assumes "\<not> w_closed_event w" and "list_all piece_ok ps" and "ps \<noteq> []"
    and "opcode = 1 \<and> utf8_decode (fb @ piece_data ps) \<noteq> None \<or> opcode = 2"
    and "length (fb @ piece_data ps) \<le> max_ws_message_size"
  shows "ws_spec (message_frames opcode False ps @ rest) (fb, opcode) w =
    ws_spec rest ([], 0) (ws_write (piece_pongs ps) (ws_push (message_event opcode (fb @ piece_data ps)) w))"
  using assms
proof (induction ps arbitrary: fb w)
  case (Cons x ps)
  obtain pings key d where x: "x = (pings, key, d)" by (metis prod_cases3)
  let ?w = "ws_write (pong_frames pings) w"
  have ok: "list_all (\<lambda>(k, p). length k = 4 \<and> length p \<le> 125) pings" "length key = 4"
    "length d \<le> max_ws_frame_size" "list_all piece_ok ps"
    using Cons.prems(2) x by auto
  have op: "opcode \<noteq> 0" using Cons.prems(4) by auto
  have len: "\<not> length fb + length d > max_ws_message_size"
    using Cons.prems(5) x by (simp add: piece_data_def)
  have step: "ws_spec (message_frames opcode False (x # ps) @ rest) (fb, opcode) w =
    (case ws_process 0 (ps = []) d (fb, opcode) ?w of
       (True, fr', w') \<Rightarrow> (False, w')
     | (False, fr', w') \<Rightarrow> ws_spec (message_frames opcode False ps @ rest) fr' w')"
    using ok(2,3) Cons.prems(1) ws_spec_pings [OF Cons.prems(1) ok(1)]
    by (simp add: x ws_spec_frame)
  show ?case
  proof (cases "ps = []")
    case True
    with Cons.prems(4) len op show ?thesis unfolding step
      by (auto simp: x ws_process_def ws_continuation_def ws_text_def piece_data_def piece_pongs_def
          message_event_def)
  next
    case False
    then have "ws_spec (message_frames opcode False (x # ps) @ rest) (fb, opcode) w =
      ws_spec (message_frames opcode False ps @ rest) (fb @ d, opcode) ?w"
      unfolding step using len op by (simp add: ws_process_def ws_continuation_def)
    with Cons.IH [of ?w "fb @ d"] Cons.prems False ok(4) show ?thesis
      by (simp add: x piece_data_def piece_pongs_def)
  qed
qed simp

lemma ws_spec_message:
  assumes "\<not> w_closed_event w" and "message_ok (opcode, ps)"
  shows "ws_spec (message_frames opcode True ps @ rest) ([], 0) w =
    ws_spec rest ([], 0) (ws_write (piece_pongs ps) (ws_push (message_event opcode (piece_data ps)) w))"
proof -
  from assms(2) obtain x qs where ps: "ps = x # qs" by (cases ps) (auto simp: message_ok_def)
  obtain pings key d where x: "x = (pings, key, d)" by (metis prod_cases3)
  let ?w = "ws_write (pong_frames pings) w"
  have ok: "list_all (\<lambda>(k, p). length k = 4 \<and> length p \<le> 125) pings" "length key = 4"
    "length d \<le> max_ws_frame_size" "list_all piece_ok qs"
    and op: "opcode = 1 \<and> utf8_decode (d @ piece_data qs) \<noteq> None \<or> opcode = 2"
    and len: "length (d @ piece_data qs) \<le> max_ws_message_size"
    using assms(2) ps x by (auto simp: message_ok_def piece_data_def)
  have step: "ws_spec (message_frames opcode True ps @ rest) ([], 0) w =
    (case ws_process opcode (qs = []) d ([], 0) ?w of
       (True, fr', w') \<Rightarrow> (False, w')
     | (False, fr', w') \<Rightarrow> ws_spec (message_frames opcode False qs @ rest) fr' w')"
    using ok(2,3) op assms(1) ws_spec_pings [OF assms(1) ok(1)]
    by (auto simp: ps x ws_spec_frame)
  show ?thesis
  proof (cases "qs = []")
    case True
    with op show ?thesis unfolding step
      by (auto simp: ps x ws_process_def ws_data_def ws_text_def piece_data_def piece_pongs_def
          message_event_def)
  next
    case False
    then have "ws_spec (message_frames opcode True ps @ rest) ([], 0) w =
      ws_spec (message_frames opcode False qs @ rest) (d, opcode) ?w"
      unfolding step using len op by (auto simp: ws_process_def ws_data_def)
    with ws_spec_rest [of ?w qs opcode d rest] assms(1) ok(4) False op len show ?thesis
      by (simp add: ps x piece_data_def piece_pongs_def)
  qed
qed

definition stream_of :: "(nat \<times> piece list) list \<Rightarrow> byte list" where
  "stream_of ms = concat (map (\<lambda>(opcode, ps). message_frames opcode True ps) ms)"

lemma ws_spec_messages:
  assumes "\<not> w_closed_event w" and "list_all message_ok ms"
  shows "ws_spec (stream_of ms) ([], 0) w =
    (True, w\<lparr>w_out := w_out w @ concat (map (piece_pongs \<circ> snd) ms),
       w_inbound := w_inbound w @ map (\<lambda>(opcode, ps). message_event opcode (piece_data ps)) ms\<rparr>)"
  using assms
proof (induction ms arbitrary: w)
  case Nil
  then show ?case by (simp add: stream_of_def ws_spec.simps parse_frame_header_def)
next
  case (Cons m ms)
  obtain opcode ps where m: "m = (opcode, ps)" by fastforce
  let ?w = "ws_write (piece_pongs ps) (ws_push (message_event opcode (piece_data ps)) w)"
  have "ws_spec (stream_of (m # ms)) ([], 0) w = ws_spec (stream_of ms) ([], 0) ?w"
    using ws_spec_message [of w opcode ps "stream_of ms"] Cons.prems m by (simp add: stream_of_def)
  with Cons.IH [of ?w] Cons.prems show ?case
    by (simp add: m) (simp add: ws_write_def ws_push_def)
qed

section \<open>The ASGI callbacks\<close>

text \<open>\<open>receive\<close>: \<open>None\<close> when it suspends on the empty channel.\<close>

definition ws_receive :: "ws \<Rightarrow> (ws_event \<times> ws) option" where
  "ws_receive w =
     (if \<not> w_connect_sent w then Some (WsConnect, w\<lparr>w_connect_sent := True\<rparr>)
      else if w_closed_event w \<and> w_inbound w = [] then Some (WsDisconnect 1000, w)
      else
        (case w_inbound w of
           item # rest \<Rightarrow> Some (item, w\<lparr>w_inbound := rest\<rparr>)
         | [] \<Rightarrow> if w_inbound_closed w then Some (WsDisconnect 1006, w) else None))"

text \<open>The messages of \<open>send\<close>; an absent field is \<open>None\<close>.\<close>

datatype ws_message =
    WsAccept "byte list option"
  | WsSend "pystr option" "byte list option"
  | WsClose int pystr
  | WsUnknown

definition ws_accept :: "byte list option \<Rightarrow> ws \<Rightarrow> ws" where
  "ws_accept subproto w =
     (let res_lines =
        [ascii ''HTTP/1.1 101 Switching Protocols'', ascii ''Upgrade: websocket'',
         ascii ''Connection: Upgrade'', ascii ''Sec-WebSocket-Accept: '' @ w_accept_key w] @
        (case subproto of
           Some p \<Rightarrow> if p \<noteq> [] then [ascii ''Sec-WebSocket-Protocol: '' @ p] else []
         | None \<Rightarrow> [])
      in (ws_write (concat (map (\<lambda>l. l @ crlf) res_lines) @ crlf) w)
           \<lparr>w_phase := OPEN, w_handshake_done := True\<rparr>)"

definition ws_reject :: "ws \<Rightarrow> ws" where
  "ws_reject w =
     (let w = w\<lparr>w_phase := CLOSED, w_closed_event := True\<rparr>
      in (ws_write (ascii ''HTTP/1.1 403 Forbidden'' @ crlf @ ascii ''content-length: 0'' @ crlf @
            ascii ''connection: close'' @ crlf @ crlf) w)\<lparr>w_writer_closed := True\<rparr>)"

text \<open>\<open>struct.pack("!H", code)\<close> raises outside 0..65535.\<close>

definition ws_close :: "int \<Rightarrow> pystr \<Rightarrow> ws \<Rightarrow> error option \<times> ws" where
  "ws_close code reason w =
     (let w = w\<lparr>w_phase := CLOSING\<rparr> in
      if code < 0 \<or> code > 65535 then (Some StructError, w)
      else
        (case utf8_encode reason of
           None \<Rightarrow> (Some UnicodeEncodeError, w)
         | Some r \<Rightarrow>
             (None, (ws_send_frame 8 (be_bytes 2 (nat code) @ r) w)
                      \<lparr>w_phase := CLOSED, w_closed_event := True, w_writer_closed := True\<rparr>)))"

definition ws_send :: "ws_message \<Rightarrow> ws \<Rightarrow> error option \<times> ws" where
  "ws_send message w =
     (case message of
        WsAccept subproto \<Rightarrow> (None, ws_accept subproto w)
      | WsSend (Some t) bs \<Rightarrow>
          (case utf8_encode t of
             None \<Rightarrow> (Some UnicodeEncodeError, w)
           | Some payload \<Rightarrow> (None, ws_send_frame 1 payload w))
      | WsSend None (Some payload) \<Rightarrow> (None, ws_send_frame 2 payload w)
      | WsSend None None \<Rightarrow> (None, w)
      | WsClose code reason \<Rightarrow>
          if \<not> w_handshake_done w then (None, ws_reject w) else ws_close code reason w
      | WsUnknown \<Rightarrow> (None, w))"

text \<open>
  The checks at the start of \<open>run\<close>; \<open>sha1\<close> is \<open>hashlib.sha1(...).digest()\<close>.  \<open>Inl\<close> is a
  connection refused before the application is called.
\<close>

definition ws_magic :: "byte list" where
  "ws_magic = ascii ''258EAFA5-E914-47DA-95CA-C5AB0DC85B11''"

definition ws_open :: "(byte list \<Rightarrow> byte list) \<Rightarrow> (string \<Rightarrow> byte list option) \<Rightarrow> ws \<Rightarrow> ws + ws" where
  "ws_open sha1 headers_dict w =
     (let ws_key = (case headers_dict ''sec-websocket-key'' of Some v \<Rightarrow> v | None \<Rightarrow> []);
          ws_version = (case headers_dict ''sec-websocket-version'' of Some v \<Rightarrow> v | None \<Rightarrow> [])
      in if ws_key = [] then
           Inl ((ws_write (ascii ''HTTP/1.1 400 Bad Request'' @ crlf @ ascii ''Content-Length: 0'' @
                   crlf @ crlf) w)\<lparr>w_phase := CLOSED\<rparr>)
         else if ws_version \<noteq> ascii ''13'' then
           Inl ((ws_write (ascii ''HTTP/1.1 426 Upgrade Required'' @ crlf @
                   ascii ''Sec-WebSocket-Version: 13'' @ crlf @ ascii ''Content-Length: 0'' @
                   crlf @ crlf) w)\<lparr>w_phase := CLOSED\<rparr>)
         else Inr (w\<lparr>w_accept_key := b64encode (sha1 (ws_key @ ws_magic))\<rparr>))"

text \<open>The \<open>finally\<close> of \<open>run\<close>, when the application has returned or raised.\<close>

definition ws_shutdown :: "ws \<Rightarrow> ws" where
  "ws_shutdown w = w\<lparr>w_phase := CLOSED, w_closed_event := True, w_inbound_closed := True\<rparr>"

section \<open>A session: the reader task and the application\<close>

text \<open>
  The state is the connection, the reader with a flag that its task has ended, and the events
  \<open>receive\<close> has returned.  The reader takes a turn, or the application calls a callback.
\<close>

type_synonym session = "ws \<times> (bool \<times> reader) \<times> ws_event list"

inductive session_step :: "session \<Rightarrow> session \<Rightarrow> bool" where
  session_read: "w_handshake_done w \<Longrightarrow> \<not> w_closed_event w \<Longrightarrow> ws_turn r w = (stop, r', w') \<Longrightarrow>
     session_step (w, (False, r), got) (w', (stop, r'), got)"
| session_end: "w_closed_event w \<Longrightarrow> session_step (w, (False, r), got) (w, (True, r), got)"
| session_receive: "ws_receive w = Some (ev, w') \<Longrightarrow>
     session_step (w, rd, got) (w', rd, got @ [ev])"
| session_send: "ws_send m w = (e, w') \<Longrightarrow> session_step (w, rd, got) (w', rd, got)"
| session_shutdown: "session_step (w, (b, r), got) (ws_shutdown w, (True, r), got)"

definition session_start :: "session \<Rightarrow> bool" where
  "session_start s \<longleftrightarrow> (\<exists>key cs. s = (ws_new\<lparr>w_accept_key := key\<rparr>, (False, reader_new cs), []))"

fun is_disconnect :: "ws_event \<Rightarrow> bool" where
  "is_disconnect (WsDisconnect c) = True"
| "is_disconnect ev = False"

fun is_data :: "ws_event \<Rightarrow> bool" where
  "is_data (WsText t) = True"
| "is_data (WsBytes b) = True"
| "is_data ev = False"

text \<open>Data, then disconnects: no data follows a disconnect.\<close>

definition orderly :: "ws_event list \<Rightarrow> bool" where
  "orderly evs \<longleftrightarrow> list_all is_disconnect (dropWhile is_data evs)"

text \<open>
  The invariant: what \<open>receive\<close> returned starts with the connect event, and together with
  the channel it is orderly; once a disconnect is under way the reader pushes nothing more.
\<close>

definition session_inv :: "session \<Rightarrow> bool" where
  "session_inv s \<longleftrightarrow> (let (w, rd, got) = s in
     (if w_connect_sent w then got \<noteq> [] \<and> hd got = WsConnect \<and> orderly (tl got @ w_inbound w)
      else got = [] \<and> orderly (w_inbound w)) \<and>
     (list_ex is_disconnect (got @ w_inbound w) \<or> w_inbound_closed w \<longrightarrow> w_closed_event w))"

lemma orderly_disconnect: "orderly evs \<Longrightarrow> is_disconnect ev \<Longrightarrow> orderly (evs @ [ev])"
  by (cases "\<forall>x \<in> set evs. is_data x")
    (auto simp: orderly_def dropWhile_append3 simp del: dropWhile_eq_Nil_conv)

lemma orderly_data:
  assumes "orderly evs" and "\<not> list_ex is_disconnect evs" and "is_data ev"
  shows "orderly (evs @ [ev])"
proof -
  have "dropWhile is_data evs = []"
  proof (rule ccontr)
    assume "dropWhile is_data evs \<noteq> []"
    then have h: "hd (dropWhile is_data evs) \<in> set (dropWhile is_data evs)" by simp
    with assms(1) have "is_disconnect (hd (dropWhile is_data evs))"
      by (simp add: orderly_def list_all_iff)
    with h assms(2) show False by (auto simp: list_ex_iff dest: set_dropWhileD)
  qed
  with assms(3) have "dropWhile is_data (evs @ [ev]) = []" by auto
  then show ?thesis by (simp only: orderly_def list.pred_inject)
qed

text \<open>What a turn of the reader may do to the fields the application sees.\<close>

definition turn_ok :: "ws \<Rightarrow> ws \<Rightarrow> bool" where
  "turn_ok w w' \<longleftrightarrow>
     (w_inbound w' = w_inbound w \<and> w_closed_event w' = w_closed_event w \<or>
      (\<exists>ev. w_inbound w' = w_inbound w @ [ev] \<and>
        (is_data ev \<and> w_closed_event w' = w_closed_event w \<or> is_disconnect ev \<and> w_closed_event w'))) \<and>
     w_connect_sent w' = w_connect_sent w \<and> w_inbound_closed w' = w_inbound_closed w \<and>
     w_handshake_done w' = w_handshake_done w"

lemmas ws_fields = ws_push_def ws_write_def ws_send_frame_def ws_fail_def ws_disconnect_def

lemma turn_ok_simps [simp]:
  "turn_ok w w" "turn_ok w (ws_fail code reason w)" "turn_ok w (ws_send_frame opcode p w)"
  "turn_ok w (ws_disconnect code w)" "turn_ok w (ws_disconnect code (ws_fail code' reason w))"
  "turn_ok w (ws_push (WsText t) w)" "turn_ok w (ws_push (WsBytes b) w)"
  "turn_ok w (ws_close_frame p w)"
  by (simp_all add: turn_ok_def ws_fields ws_close_frame_def)

lemma ws_process_ok: "ws_process opcode fin p fr w = (stop, fr', w') \<Longrightarrow> turn_ok w w'"
  by (auto simp: ws_process_def ws_continuation_def ws_data_def ws_text_def
      split: if_splits option.splits prod.splits)

lemma ws_turn_ok: "ws_turn r w = (stop, r', w') \<Longrightarrow> turn_ok w w'"
  by (auto simp: ws_turn_def Let_def split: option.splits list.splits chunk.splits if_splits prod.splits
      intro: ws_process_ok)

lemma ws_send_ok:
  "ws_send m w = (e, w') \<Longrightarrow> w_inbound w' = w_inbound w \<and> w_connect_sent w' = w_connect_sent w \<and>
   w_inbound_closed w' = w_inbound_closed w \<and> (w_closed_event w \<longrightarrow> w_closed_event w')"
  by (auto simp: ws_send_def ws_accept_def ws_reject_def ws_close_def ws_fields Let_def
      split: ws_message.splits option.splits if_splits)

lemma session_inv_step:
  assumes "session_inv s" and "session_step s s'"
  shows "session_inv s'"
  using assms(2,1)
proof cases
  case (session_read w r stop r' w' got)
  have ok: "turn_ok w w'" by (rule ws_turn_ok [OF session_read(5)])
  have nd: "\<not> list_ex is_disconnect (got @ w_inbound w)" "\<not> w_inbound_closed w"
    using assms(1) session_read by (auto simp: session_inv_def)
  from ok consider
      "w_inbound w' = w_inbound w" "w_closed_event w' = w_closed_event w"
    | ev where "w_inbound w' = w_inbound w @ [ev]" "is_data ev"
    | ev where "w_inbound w' = w_inbound w @ [ev]" "is_disconnect ev" "w_closed_event w'"
    by (auto simp: turn_ok_def)
  then show ?thesis
  proof cases
    case 1
    with assms(1) ok session_read show ?thesis by (simp add: session_inv_def turn_ok_def)
  next
    case (2 ev)
    have "\<not> list_ex is_disconnect (tl got @ w_inbound w)" using nd(1) by (cases got) auto
    then have "orderly (tl got @ w_inbound w) \<Longrightarrow> orderly ((tl got @ w_inbound w) @ [ev])"
      "orderly (w_inbound w) \<Longrightarrow> orderly (w_inbound w @ [ev])"
      using nd(1) 2(2) by (auto intro!: orderly_data simp del: append_assoc)
    moreover have "\<not> is_disconnect ev" using 2(2) by (cases ev) auto
    ultimately show ?thesis using assms(1) ok session_read 2 nd
      by (auto simp: session_inv_def turn_ok_def split: if_splits)
  next
    case (3 ev)
    have "orderly (tl got @ w_inbound w) \<Longrightarrow> orderly ((tl got @ w_inbound w) @ [ev])"
      "orderly (w_inbound w) \<Longrightarrow> orderly (w_inbound w @ [ev])"
      using 3(2) by (auto intro!: orderly_disconnect simp del: append_assoc)
    with assms(1) ok session_read 3 show ?thesis
      by (auto simp: session_inv_def turn_ok_def split: if_splits)
  qed
next
  case (session_receive w ev w' rd got)
  consider "\<not> w_connect_sent w" "ev = WsConnect" "w' = w\<lparr>w_connect_sent := True\<rparr>"
    | "w_connect_sent w" "w_closed_event w \<or> w_inbound_closed w" "w_inbound w = []" "is_disconnect ev" "w' = w"
    | rest where "w_connect_sent w" "w_inbound w = ev # rest" "w' = w\<lparr>w_inbound := rest\<rparr>"
    using session_receive(3) by (auto simp: ws_receive_def split: if_splits list.splits)
  then show ?thesis
  proof cases
    case 1
    with assms(1) session_receive show ?thesis by (simp add: session_inv_def)
  next
    case 2
    have "orderly (tl got) \<Longrightarrow> orderly (tl got @ [ev])" using 2(4) by (intro orderly_disconnect)
    with assms(1) session_receive 2 show ?thesis by (auto simp: session_inv_def)
  next
    case (3 rest)
    with assms(1) session_receive show ?thesis by (auto simp: session_inv_def)
  qed
next
  case (session_send m w e w' rd got)
  with assms(1) ws_send_ok [OF session_send(3)] show ?thesis
    by (auto simp: session_inv_def split: if_splits)
qed (auto simp: session_inv_def ws_shutdown_def split: if_splits)

lemma session_inv_start: "session_start s \<Longrightarrow> session_inv s"
  by (auto simp: session_start_def session_inv_def ws_new_def orderly_def)

interpretation ws_sessions: invariant_system session_start session_step session_inv
  by unfold_locales (auto intro: session_inv_start session_inv_step)

section \<open>Properties\<close>

lemma ws_read_new:
  "all_data cs \<Longrightarrow> ws_read (reader_new cs) w = snd (ws_spec (stream cs) ([], 0) w)"
  using ws_read_spec [of "reader_new cs" w] by (simp add: reader_new_def)

text \<open>A connection after the handshake, and one text message in two chunks.\<close>

definition ws_demo :: ws where
  "ws_demo = ws_new\<lparr>w_phase := OPEN, w_handshake_done := True, w_connect_sent := True\<rparr>"

definition ws_demo_message :: "(nat \<times> piece list) list" where
  "ws_demo_message = [(1, [([([1, 2, 3, 4], [7])], [9, 9, 9, 9], [72]), ([], [5, 6, 7, 8], [105])])]"

lemma ws_demo_ok: "list_all message_ok ws_demo_message"
  by (simp add: ws_demo_message_def message_ok_def piece_data_def max_ws_frame_size_def
      max_ws_message_size_def utf8_decode_def)

text \<open>
  C27: the reader loop with its buffer, cursor, compaction and inner read loop does to the
  connection what the specification does to the whole byte stream, however the transport
  cuts the stream into chunks.
\<close>

theorem ws_read_chunking:
  assumes "all_data cs"
  shows "ws_read (reader_new cs) w = snd (ws_spec (stream cs) ([], 0) w)"
  using assms by (rule ws_read_new)

theorem ws_read_chunking_witness:
  "ws_read (reader_new [Data [0x81], Data [0x80, 1, 2, 3, 4]]) ws_demo =
   snd (ws_spec [0x81, 0x80, 1, 2, 3, 4] ([], 0) ws_demo)"
  using ws_read_chunking [of "[Data [0x81], Data [0x80, 1, 2, 3, 4]]" ws_demo]
  by (simp add: all_data_def)

text \<open>
  Messages arrive intact and in order.  If a client sends text and binary messages,
  each split into any frames within the limits, masked with any keys, with pings between the
  frames, and the transport cuts the bytes anywhere, then the application's channel receives
  exactly these messages, reassembled and in order, and every ping is answered in order by a
  pong with its payload; nothing else is written.
\<close>

theorem ws_delivery:
  assumes "all_data cs" and "stream cs = stream_of ms" and "list_all message_ok ms"
    and "\<not> w_closed_event w"
  shows "ws_read (reader_new cs) w =
    w\<lparr>w_out := w_out w @ concat (map (piece_pongs \<circ> snd) ms),
      w_inbound := w_inbound w @ map (\<lambda>(opcode, ps). message_event opcode (piece_data ps)) ms\<rparr>"
  using ws_spec_messages [OF assms(4,3)] assms(1,2) by (simp add: ws_read_new)

theorem ws_delivery_witness:
  "w_inbound (ws_read (reader_new [Data (stream_of ws_demo_message)]) ws_demo) = [WsText [72, 105]]"
proof -
  have d: "all_data [Data (stream_of ws_demo_message)]"
    by (simp add: all_data_def ws_demo_message_def stream_of_def ping_frames_def client_frame_def)
  have "\<not> w_closed_event ws_demo" by (simp add: ws_demo_def ws_new_def)
  from ws_delivery [OF d _ ws_demo_ok this] show ?thesis
    by (simp add: ws_demo_message_def message_event_def piece_data_def utf8_decode_def)
      (simp add: ws_demo_def ws_new_def)
qed

text \<open>
  C28: what is written is what is read.  A frame of \<open>_send_frame\<close> is parsed back, in each of
  the three length encodings, to its opcode, final and unmasked, with its payload behind the
  header; and a masked frame of a client, followed by anything, to its fields, with the
  payload recovered by unmasking.
\<close>

theorem ws_frame_roundtrip:
  assumes "opcode < 16" and "length payload < 2 ^ 64" and "length key = 4"
  shows "(\<exists>hl. parse_frame_header (ws_frame opcode payload) =
        Some (opcode, True, False, length payload, None, hl) \<and> drop hl (ws_frame opcode payload) = payload) \<and>
    (\<exists>hl. parse_frame_header (client_frame fin opcode key payload @ rest) =
        Some (opcode, fin, True, length payload, Some key, hl) \<and>
      ws_unmask key (take (length payload) (drop hl (client_frame fin opcode key payload @ rest))) = payload)"
proof
  show "\<exists>hl. parse_frame_header (ws_frame opcode payload) =
      Some (opcode, True, False, length payload, None, hl) \<and> drop hl (ws_frame opcode payload) = payload"
    using parse_ws_frame [OF assms(1,2)] by blast
  obtain hl where "parse_frame_header (client_frame fin opcode key payload @ rest) =
      Some (opcode, fin, True, length payload, Some key, hl)"
    and d: "drop hl (client_frame fin opcode key payload @ rest) = ws_unmask key payload @ rest"
    using parse_client_frame [OF assms, of fin rest] by blast
  then show "\<exists>hl. parse_frame_header (client_frame fin opcode key payload @ rest) =
      Some (opcode, fin, True, length payload, Some key, hl) \<and>
    ws_unmask key (take (length payload) (drop hl (client_frame fin opcode key payload @ rest))) = payload"
    unfolding d by (intro exI [of _ hl]) (simp add: d ws_unmask_unmask del: drop_append)
qed

theorem ws_frame_roundtrip_witness:
  "\<exists>hl. parse_frame_header (ws_frame 2 (replicate 300 7)) = Some (2, True, False, 300, None, hl)"
  using ws_frame_roundtrip [of 2 "replicate 300 7" "[1, 2, 3, 4]"] by auto

text \<open>
  Text sent by the application reaches the client as the same text: the frame written by
  \<open>send\<close> is a final text frame whose payload decodes, strictly, to the string.
\<close>

theorem ws_send_text:
  assumes "list_all scalar t" and "utf8_encode t = Some bs" and "length bs < 2 ^ 64"
  shows "\<exists>f hl. ws_send (WsSend (Some t) b) w = (None, w\<lparr>w_out := w_out w @ f\<rparr>) \<and>
    parse_frame_header f = Some (1, True, False, length bs, None, hl) \<and> utf8_decode (drop hl f) = Some t"
proof -
  obtain hl where "parse_frame_header (ws_frame 1 bs) = Some (1, True, False, length bs, None, hl)"
    "drop hl (ws_frame 1 bs) = bs"
    using parse_ws_frame [of 1 bs] assms(3) by auto
  then show ?thesis using utf8_decode_encode [OF assms(1,2)] assms(2)
    by (intro exI [of _ "ws_frame 1 bs"] exI [of _ hl]) (simp add: ws_send_def ws_send_frame_def ws_write_def)
qed

theorem ws_send_text_witness:
  "\<exists>f hl. ws_send (WsSend (Some [0x48, 0x20AC]) None) ws_demo = (None, ws_demo\<lparr>w_out := w_out ws_demo @ f\<rparr>) \<and>
    parse_frame_header f = Some (1, True, False, 4, None, hl) \<and> utf8_decode (drop hl f) = Some [0x48, 0x20AC]"
proof -
  have l: "length [0x48, 0xE2, 0x82, 0xAC :: byte] = 4" by simp
  have "list_all scalar [0x48, 0x20AC]" by (simp add: scalar_def surrogate_def)
  moreover have "utf8_encode [0x48, 0x20AC] = Some [0x48, 0xE2, 0x82, 0xAC]"
    by (simp add: utf8_encode_def surrogate_def utf8_char_def)
  ultimately show ?thesis
    using ws_send_text [of "[0x48, 0x20AC]" "[0x48, 0xE2, 0x82, 0xAC]" None ws_demo] unfolding l by simp
qed

text \<open>
  C29: the two readers agree.  On any stream, if the buffered reader ends for another reason
  than the end of the stream, the \<open>readexactly\<close> reader leaves the same connection; at the
  end of the stream the \<open>readexactly\<close> reader reports 1006 to the application or refuses the
  incomplete frame, from the connection the buffered reader leaves.
\<close>

theorem ws_readers_agree:
  assumes "all_data cs" and "ws_spec (stream cs) ([], 0) w = (eof, w')"
  shows "ws_read (reader_new cs) w = w' \<and>
    (if eof then ws_read_exact (stream cs) ([], 0) w = ws_disconnect 1006 w' \<or>
         (\<exists>code reason. ws_read_exact (stream cs) ([], 0) w = ws_fail code reason w')
     else ws_read_exact (stream cs) ([], 0) w = w')"
  using ws_read_new [OF assms(1), of w] ws_read_exact_spec [OF assms(2)] assms(2) by simp

theorem ws_readers_agree_witness:
  "ws_read (reader_new [Data [0x81, 0x00]]) ws_demo = ws_fail 1002 ''Unmasked Frame'' ws_demo \<and>
   ws_read_exact [0x81, 0x00] ([], 0) ws_demo = ws_fail 1002 ''Unmasked Frame'' ws_demo"
proof -
  have "ws_spec (stream [Data [0x81, 0x00]]) ([], 0) ws_demo = (False, ws_fail 1002 ''Unmasked Frame'' ws_demo)"
    by (simp add: ws_spec.simps parse_frame_header_def ws_check_def ws_demo_def ws_new_def)
  from ws_readers_agree [OF _ this] show ?thesis by (simp add: all_data_def)
qed

text \<open>
  The order of events.  Whatever the peer sends and whenever the application calls
  \<open>receive\<close> and \<open>send\<close>, \<open>receive\<close> returns first the connect event, then data events, then
  only disconnects: no data after a disconnect.
\<close>

theorem ws_event_order:
  assumes "session_start s0" and "reach session_step s0 (w, rd, got)"
  shows "got = [] \<or> (\<exists>data discs. got = WsConnect # data @ discs \<and>
    list_all is_data data \<and> list_all is_disconnect discs)"
proof (cases "got = []")
  case False
  have inv: "session_inv (w, rd, got)" by (rule ws_sessions.inv_reach [OF assms(2,1)])
  with False have "hd got = WsConnect" and o: "orderly (tl got @ w_inbound w)"
    by (auto simp: session_inv_def split: if_splits)
  then have got: "got = WsConnect # tl got" using False by (cases got) auto
  have "orderly (tl got)"
  proof (cases "\<forall>x \<in> set (tl got). is_data x")
    case True
    then have "dropWhile is_data (tl got) = []" by simp
    then show ?thesis by (simp only: orderly_def list.pred_inject)
  next
    case False
    with o show ?thesis by (auto simp: orderly_def dropWhile_append1 simp del: dropWhile_eq_Nil_conv)
  qed
  then have "list_all is_data (takeWhile is_data (tl got)) \<and> list_all is_disconnect (dropWhile is_data (tl got))"
    by (auto simp: orderly_def list_all_iff dest: set_takeWhileD)
  with got show ?thesis
    by (intro disjI2 exI [of _ "takeWhile is_data (tl got)"] exI [of _ "dropWhile is_data (tl got)"]) simp
qed simp

theorem ws_event_order_witness:
  "\<exists>data discs. [WsConnect] = WsConnect # data @ discs \<and> list_all is_data data \<and> list_all is_disconnect discs"
proof -
  let ?s = "(ws_new\<lparr>w_accept_key := []\<rparr>, (False, reader_new []), [])"
  have start: "session_start ?s" by (auto simp: session_start_def)
  have "session_step ?s (ws_new\<lparr>w_accept_key := [], w_connect_sent := True\<rparr>, (False, reader_new []), [] @ [WsConnect])"
    by (rule session_step.session_receive) (simp add: ws_receive_def ws_new_def)
  from ws_event_order [OF start reach_one [where step = session_step, OF this]] show ?thesis by simp
qed

text \<open>
  With the Rust parser, a client that goes away between or inside frames, or breaks
  the protocol by not masking, is never reported: the reader task ends with the connection
  still open, and an application that has drained its channel waits in \<open>receive\<close> for ever
  (the \<open>readexactly\<close> reader reports 1006 for a lost client).
\<close>

theorem ws_lost_client_unreported:
  assumes "w_connect_sent w" and "\<not> w_closed_event w" and "\<not> w_inbound_closed w" and "w_inbound w = []"
    and "all_data cs" and "stream cs = stream_of [] \<or> (\<exists>p. stream cs = ws_frame 1 p \<and> length p < 2 ^ 64)"
  shows "ws_receive (ws_read (reader_new cs) w) = None"
  using assms(6)
proof
  assume "stream cs = stream_of []"
  then have "ws_read (reader_new cs) w = w"
    using assms(2,5) ws_spec_messages [of w "[]"] by (simp add: ws_read_new)
  with assms show ?thesis by (simp add: ws_receive_def)
next
  assume "\<exists>p. stream cs = ws_frame 1 p \<and> length p < 2 ^ 64"
  then obtain p where p: "stream cs = ws_frame 1 p" "length p < 2 ^ 64" by blast
  from parse_ws_frame [of 1 p] p(2) obtain hl where
    "parse_frame_header (ws_frame 1 p) = Some (1, True, False, length p, None, hl)" by auto
  then have "ws_read (reader_new cs) w = ws_fail 1002 ''Unmasked Frame'' w"
    using assms(2,5) p by (simp add: ws_read_new ws_spec.simps ws_check_def)
  with assms show ?thesis by (simp add: ws_receive_def ws_fields)
qed

theorem ws_lost_client_unreported_witness:
  "ws_receive (ws_read (reader_new []) ws_demo) = None"
  using ws_lost_client_unreported [of ws_demo "[]"]
  by (simp add: ws_demo_def ws_new_def all_data_def stream_of_def)

end
