(* ===== verification/WsgiInput.thy ===== *)
theory WsgiInput
  imports Bytes Asyncio
begin

text \<open>
  The request body of \<open>multiloop.wsgi\<close>: \<open>SyncStreamReader\<close> in both of its modes, the
  feeder task that copies the body from the connection to its channel, and the decoder of
  chunked request bodies.  Proved: a reader over a channel is a \<open>BytesIO\<close> over the whole
  body, an application reads exactly the announced number of bytes, and decoding inverts the
  chunk encoding whatever way the transport cuts the stream.
\<close>

section \<open>BytesIO\<close>

text \<open>An \<open>io.BytesIO\<close> is the bytes after its position.\<close>

definition bytesio_read :: "int \<Rightarrow> byte list \<Rightarrow> byte list \<times> byte list" where
  "bytesio_read sz rest = (if sz < 0 then (rest, []) else (take (nat sz) rest, drop (nat sz) rest))"

fun line_length :: "byte list \<Rightarrow> nat" where
  "line_length [] = 0"
| "line_length (b # bs) = (if b = 10 then 1 else Suc (line_length bs))"

definition bytesio_readline :: "int \<Rightarrow> byte list \<Rightarrow> byte list \<times> byte list" where
  "bytesio_readline sz rest =
     (let n = (if sz < 0 then line_length rest else min (nat sz) (line_length rest))
      in (take n rest, drop n rest))"

lemma line_length_le: "line_length bs \<le> length bs"
  by (induction bs) auto

lemma line_length_pos: "bs \<noteq> [] \<Longrightarrow> 0 < line_length bs"
  by (cases bs) auto

lemma line_length_append:
  "line_length (a @ b) = (if 10 \<in> set a then line_length a else length a + line_length b)"
  by (induction a) auto

lemma line_length_no_newline: "10 \<notin> set a \<Longrightarrow> line_length a = length a"
  by (induction a) auto

function bytesio_readlines :: "int \<Rightarrow> nat \<Rightarrow> byte list \<Rightarrow> byte list list \<times> byte list" where
  "bytesio_readlines hint acc rest =
     (let (line, rest') = bytesio_readline (-1) rest in
      if line = [] then ([], rest')
      else if hint > 0 \<and> int (acc + length line) \<ge> hint then ([line], rest')
      else (let (lines, rest'') = bytesio_readlines hint (acc + length line) rest'
            in (line # lines, rest'')))"
  by pat_completeness auto
termination
proof (relation "measure (\<lambda>(hint, acc, rest). length rest)", goal_cases)
  case (2 hint acc rest x line rest')
  then have "rest \<noteq> []" "rest' = drop (line_length rest) rest"
    by (auto simp: bytesio_readline_def Let_def)
  then show ?case using line_length_pos [of rest] line_length_le [of rest] by simp
qed simp

declare bytesio_readlines.simps [simp del]

section \<open>SyncStreamReader\<close>

text \<open>
  \<open>sr_channel\<close> is what successive \<open>recv_sync()\<close> calls on the channel return, in order;
  after the last item the channel is closed and the call raises.
\<close>

record sreader =
  sr_channel :: "byte list list option"
  sr_buffer :: "byte list"
  sr_bio :: "byte list option"
  sr_eof :: bool

definition sreader_new :: "byte list option \<Rightarrow> byte list list option \<Rightarrow> sreader" where
  "sreader_new data channel =
     \<lparr>sr_channel = channel,
      sr_buffer = (case (data, channel) of (Some d, Some c) \<Rightarrow> d | _ \<Rightarrow> []),
      sr_bio = (case (data, channel) of (Some d, None) \<Rightarrow> Some d | (None, None) \<Rightarrow> Some [] | _ \<Rightarrow> None),
      sr_eof = (channel = None \<and> (data = None \<or> data = Some []))\<rparr>"

text \<open>The receiving loops; an empty chunk and an exception both set \<open>_eof\<close>.\<close>

fun sr_drain :: "byte list list \<Rightarrow> byte list \<Rightarrow> byte list \<times> byte list list" where
  "sr_drain [] buf = (buf, [])"
| "sr_drain (c # cs) buf = (if c = [] then (buf, cs) else sr_drain cs (buf @ c))"

fun sr_fill :: "nat \<Rightarrow> byte list list \<Rightarrow> byte list \<Rightarrow> byte list \<times> byte list list \<times> bool" where
  "sr_fill sz [] buf = (buf, [], length buf < sz)"
| "sr_fill sz (c # cs) buf =
     (if length buf < sz then
        (if c = [] then (buf, cs, True) else sr_fill sz cs (buf @ c))
      else (buf, c # cs, False))"

definition sr_read :: "int \<Rightarrow> sreader \<Rightarrow> byte list \<times> sreader" where
  "sr_read sz s =
     (case sr_bio s of
        Some rest \<Rightarrow> (let (data, rest') = bytesio_read sz rest in (data, s\<lparr>sr_bio := Some rest'\<rparr>))
      | None \<Rightarrow>
          if sz = 0 then ([], s)
          else if sz < 0 then
            (case (sr_eof s, sr_channel s) of
               (False, Some cs) \<Rightarrow>
                 (let (buf, cs') = sr_drain cs (sr_buffer s)
                  in (buf, s\<lparr>sr_buffer := [], sr_channel := Some cs', sr_eof := True\<rparr>))
             | _ \<Rightarrow> (sr_buffer s, s\<lparr>sr_buffer := []\<rparr>))
          else
            (let n = nat sz;
                 s = (case (sr_eof s, sr_channel s) of
                        (False, Some cs) \<Rightarrow>
                          (let (buf, cs', eof) = sr_fill n cs (sr_buffer s)
                           in s\<lparr>sr_buffer := buf, sr_channel := Some cs', sr_eof := eof\<rparr>)
                      | _ \<Rightarrow> s)
             in (take n (sr_buffer s), s\<lparr>sr_buffer := drop n (sr_buffer s)\<rparr>)))"

text \<open>\<open>_buffer.find(b"\n") + 1\<close>, \<open>None\<close> for -1.\<close>

definition find_newline :: "byte list \<Rightarrow> nat option" where
  "find_newline bs = (if 10 \<in> set bs then Some (line_length bs) else None)"

text \<open>The loop of \<open>readline\<close>; the result is the line, the buffer, the channel and \<open>_eof\<close>.\<close>

fun sr_line :: "nat option \<Rightarrow> byte list list \<Rightarrow> byte list \<Rightarrow>
    byte list \<times> byte list \<times> byte list list \<times> bool" where
  "sr_line max_len cs buf =
     (case find_newline buf of
        Some e \<Rightarrow>
          (let e = (case max_len of Some m \<Rightarrow> if e > m then m else e | None \<Rightarrow> e)
           in (take e buf, drop e buf, cs, False))
      | None \<Rightarrow>
          (case (case max_len of Some m \<Rightarrow> if length buf \<ge> m then Some m else None | None \<Rightarrow> None) of
             Some m \<Rightarrow> (take m buf, drop m buf, cs, False)
           | None \<Rightarrow>
               (case cs of
                  [] \<Rightarrow> (buf, [], [], True)
                | c # cs' \<Rightarrow> if c = [] then (buf, [], cs', True) else sr_line max_len cs' (buf @ c))))"

declare sr_line.simps [simp del]

text \<open>\<open>readline\<close>; \<open>None\<close> is the argument \<open>None\<close>.  After \<open>_eof\<close> there is nothing to receive.\<close>

definition sr_readline :: "int option \<Rightarrow> sreader \<Rightarrow> byte list \<times> sreader" where
  "sr_readline sz s =
     (case sr_bio s of
        Some rest \<Rightarrow>
          (let (line, rest') = bytesio_readline (case sz of None \<Rightarrow> -1 | Some n \<Rightarrow> n) rest
           in (line, s\<lparr>sr_bio := Some rest'\<rparr>))
      | None \<Rightarrow>
          (let max_len = (case sz of Some n \<Rightarrow> if n > 0 then Some (nat n) else None | None \<Rightarrow> None)
           in case (sr_eof s, sr_channel s) of
                (False, Some cs) \<Rightarrow>
                  (let (line, buf, cs', eof) = sr_line max_len cs (sr_buffer s)
                   in (line, s\<lparr>sr_buffer := buf, sr_channel := Some cs', sr_eof := eof\<rparr>))
              | _ \<Rightarrow>
                  (let (line, buf, _, _) = sr_line max_len [] (sr_buffer s)
                   in (line, s\<lparr>sr_buffer := buf\<rparr>))))"

section \<open>A reader over a channel is a reader over the whole body\<close>

text \<open>The bytes a channel still delivers, and what is left to read.\<close>

fun delivered :: "byte list list \<Rightarrow> byte list" where
  "delivered [] = []"
| "delivered (c # cs) = (if c = [] then [] else c @ delivered cs)"

definition sr_rest :: "sreader \<Rightarrow> byte list" where
  "sr_rest s =
     (case sr_bio s of
        Some rest \<Rightarrow> rest
      | None \<Rightarrow> sr_buffer s @ (case (sr_eof s, sr_channel s) of (False, Some cs) \<Rightarrow> delivered cs | _ \<Rightarrow> []))"

lemma sr_drain_delivered: "fst (sr_drain cs buf) = buf @ delivered cs"
  by (induction cs buf rule: sr_drain.induct) auto

lemma sr_fill_delivered:
  "sr_fill n cs buf = (buf', cs', eof) \<Longrightarrow>
   buf' @ (if eof then [] else delivered cs') = buf @ delivered cs \<and> (eof \<or> n \<le> length buf')"
  by (induction n cs buf rule: sr_fill.induct) (auto split: if_splits)

lemma sr_read_refines:
  "sr_read sz s = (data, s') \<Longrightarrow> (data, sr_rest s') = bytesio_read sz (sr_rest s)"
proof (cases "sr_bio s")
  case None
  assume r: "sr_read sz s = (data, s')"
  consider "sz = 0" | "sz < 0" | "sz > 0" by linarith
  then show ?thesis
  proof cases
    case 1
    with r None show ?thesis by (auto simp: sr_read_def bytesio_read_def)
  next
    case 2
    show ?thesis
    proof (cases "\<not> sr_eof s \<and> sr_channel s \<noteq> None")
      case True
      then obtain cs where cs: "sr_channel s = Some cs" "\<not> sr_eof s" by auto
      obtain b cs' where d: "sr_drain cs (sr_buffer s) = (b, cs')" by fastforce
      then have "b = sr_buffer s @ delivered cs" using sr_drain_delivered [of cs "sr_buffer s"] by simp
      with 2 r None cs d show ?thesis
        by (auto simp: sr_read_def bytesio_read_def sr_rest_def)
    next
      case False
      with 2 r None show ?thesis
        by (cases "sr_eof s"; cases "sr_channel s")
          (auto simp: sr_read_def bytesio_read_def sr_rest_def)
    qed
  next
    case 3
    show ?thesis
    proof (cases "\<not> sr_eof s \<and> sr_channel s \<noteq> None")
      case True
      then obtain cs where cs: "sr_channel s = Some cs" "\<not> sr_eof s" by auto
      obtain b cs' e where d: "sr_fill (nat sz) cs (sr_buffer s) = (b, cs', e)" by (metis prod_cases3)
      have s': "data = take (nat sz) b" "sr_rest s' = drop (nat sz) b @ (if e then [] else delivered cs')"
        using 3 r None cs d by (auto simp: sr_read_def sr_rest_def Let_def)
      have rest: "sr_rest s = b @ (if e then [] else delivered cs')" "e \<or> nat sz \<le> length b"
        using sr_fill_delivered [OF d] None cs by (simp_all add: sr_rest_def)
      show ?thesis unfolding s' rest(1) bytesio_read_def using 3 rest(2) by auto
    next
      case False
      with 3 r None show ?thesis
        by (cases "sr_eof s"; cases "sr_channel s")
          (auto simp: sr_read_def bytesio_read_def sr_rest_def Let_def)
    qed
  qed
qed (auto simp: sr_read_def sr_rest_def split: prod.splits)

text \<open>The limit of a line: \<open>None\<close> for no limit.\<close>

definition limit_line :: "nat option \<Rightarrow> byte list \<Rightarrow> nat" where
  "limit_line max_len rest =
     (case max_len of None \<Rightarrow> line_length rest | Some m \<Rightarrow> min m (line_length rest))"

lemma sr_line_delivered:
  "sr_line max_len cs buf = (line, buf', cs', eof) \<Longrightarrow>
   line = take (limit_line max_len (buf @ delivered cs)) (buf @ delivered cs) \<and>
   buf' @ (if eof then [] else delivered cs') =
     drop (limit_line max_len (buf @ delivered cs)) (buf @ delivered cs)"
proof (induction max_len cs buf arbitrary: line buf' cs' eof rule: sr_line.induct)
  case (1 max_len cs buf)
  show ?case
  proof (cases "10 \<in> set buf")
    case True
    then have "line_length (buf @ delivered cs) = line_length buf" by (simp add: line_length_append)
    with True 1(2) line_length_le [of buf] show ?thesis
      by (subst (asm) sr_line.simps)
        (auto simp: find_newline_def limit_line_def Let_def min_def split: option.splits if_splits)
  next
    case nl: False
    show ?thesis
    proof (cases "\<exists>m. max_len = Some m \<and> m \<le> length buf")
      case True
      with nl 1(2) show ?thesis
        by (subst (asm) sr_line.simps)
          (auto simp: find_newline_def limit_line_def line_length_append min_def split: option.splits if_splits)
    next
      case lim: False
      then have none: "(case max_len of Some m \<Rightarrow> if length buf \<ge> m then Some m else None | None \<Rightarrow> None) = None"
        by (auto split: option.splits)
      show ?thesis
      proof (cases cs)
        case Nil
        with nl lim none 1(2) show ?thesis
          by (subst (asm) sr_line.simps)
            (auto simp: find_newline_def limit_line_def line_length_no_newline split: option.splits)
      next
        case (Cons c cs1)
        show ?thesis
        proof (cases "c = []")
          case True
          with Cons nl lim none 1(2) show ?thesis
            by (subst (asm) sr_line.simps)
              (auto simp: find_newline_def limit_line_def line_length_no_newline split: option.splits)
        next
          case False
          have f: "find_newline buf = None" using nl by (simp add: find_newline_def)
          have "sr_line max_len cs1 (buf @ c) = (line, buf', cs', eof)"
            using 1(2) f none Cons False by (subst (asm) sr_line.simps) simp
          from 1(1) [OF f none Cons False this] show ?thesis using Cons False by simp
        qed
      qed
    qed
  qed
qed

lemma sr_readline_refines:
  assumes "sr_readline sz s = (line, s')" and "sz \<noteq> Some 0"
  shows "(line, sr_rest s') = bytesio_readline (case sz of None \<Rightarrow> -1 | Some n \<Rightarrow> n) (sr_rest s)"
proof (cases "sr_bio s")
  case (Some rest)
  with assms(1) show ?thesis by (auto simp: sr_readline_def sr_rest_def split: prod.splits)
next
  case None
  define max_len where "max_len = (case sz of Some n \<Rightarrow> if n > 0 then Some (nat n) else None | None \<Rightarrow> None)"
  define cs where "cs = (case (sr_eof s, sr_channel s) of (False, Some cs) \<Rightarrow> cs | _ \<Rightarrow> [])"
  obtain l b cs' e where r: "sr_line max_len cs (sr_buffer s) = (l, b, cs', e)" by (metis prod_cases4)
  have rest: "sr_rest s = sr_buffer s @ delivered cs"
    using None by (simp add: sr_rest_def cs_def split: bool.splits option.splits)
  have d: "l = take (limit_line max_len (sr_rest s)) (sr_rest s)"
    "b @ (if e then [] else delivered cs') = drop (limit_line max_len (sr_rest s)) (sr_rest s)"
    using sr_line_delivered [OF r] by (simp_all add: rest)
  have lim: "limit_line max_len rest = (if (case sz of None \<Rightarrow> -1 | Some n \<Rightarrow> n) < 0 then line_length rest
      else min (nat (case sz of None \<Rightarrow> -1 | Some n \<Rightarrow> n)) (line_length rest))" for rest
    using assms(2) by (auto simp: limit_line_def max_len_def split: option.splits if_splits)
  have empty: "\<And>b cs' e l. sr_line max_len [] buf = (l, b, cs', e) \<Longrightarrow> cs' = []" for buf
    by (subst (asm) sr_line.simps) (auto simp: Let_def split: option.splits if_splits)
  have "line = l \<and> sr_rest s' = b @ (if e then [] else delivered cs')"
  proof (cases "\<not> sr_eof s \<and> sr_channel s \<noteq> None")
    case True
    with assms(1) None r show ?thesis
      by (auto simp: sr_readline_def sr_rest_def cs_def max_len_def [symmetric] Let_def)
  next
    case False
    then have "cs = []" by (auto simp: cs_def split: bool.splits option.splits)
    with False assms(1) None r empty [of "sr_buffer s"] show ?thesis
      by (cases "sr_eof s"; cases "sr_channel s")
        (auto simp: sr_readline_def sr_rest_def max_len_def [symmetric] Let_def)
  qed
  then show ?thesis unfolding bytesio_readline_def Let_def lim [symmetric] using d by simp
qed

section \<open>Several calls on one reader\<close>

lemma bytesio_readline_shorter:
  "bytesio_readline n rest = (line, rest') \<Longrightarrow> line \<noteq> [] \<Longrightarrow> length rest' < length rest"
  by (auto simp: bytesio_readline_def Let_def split: if_splits)

function sr_readlines_loop :: "int \<Rightarrow> nat \<Rightarrow> sreader \<Rightarrow> byte list list \<times> sreader" where
  "sr_readlines_loop hint acc s =
     (let (line, s') = sr_readline (Some (-1)) s in
      if line = [] then ([], s')
      else if hint > 0 \<and> int (acc + length line) \<ge> hint then ([line], s')
      else (let (lines, s'') = sr_readlines_loop hint (acc + length line) s'
            in (line # lines, s'')))"
  by pat_completeness auto
termination
proof (relation "measure (\<lambda>(hint, acc, s). length (sr_rest s))", goal_cases)
  case (2 hint acc s x line s')
  then have "sr_readline (Some (-1)) s = (line, s')" by simp
  from sr_readline_refines [OF this] 2(3) show ?case
    by (auto dest!: sym [of "(line, sr_rest s')"] bytesio_readline_shorter)
qed simp

declare sr_readlines_loop.simps [simp del]

definition sr_readlines :: "int \<Rightarrow> sreader \<Rightarrow> byte list list \<times> sreader" where
  "sr_readlines hint s =
     (case sr_bio s of
        Some rest \<Rightarrow>
          (let (lines, rest') = bytesio_readlines hint 0 rest in (lines, s\<lparr>sr_bio := Some rest'\<rparr>))
      | None \<Rightarrow> sr_readlines_loop hint 0 s)"

lemma sr_readlines_loop_refines:
  "sr_readlines_loop hint acc s = (lines, s') \<Longrightarrow>
   (lines, sr_rest s') = bytesio_readlines hint acc (sr_rest s)"
proof (induction hint acc s arbitrary: lines s' rule: sr_readlines_loop.induct)
  case (1 hint acc s)
  obtain line s1 where l: "sr_readline (Some (-1)) s = (line, s1)" by fastforce
  have b: "bytesio_readline (-1) (sr_rest s) = (line, sr_rest s1)"
    using sr_readline_refines [OF l] by simp
  show ?case
  proof (cases "line = [] \<or> hint > 0 \<and> int (acc + length line) \<ge> hint")
    case True
    with 1(2) l b show ?thesis
      by (subst (asm) sr_readlines_loop.simps, subst bytesio_readlines.simps) auto
  next
    case False
    obtain lines1 s2 where r: "sr_readlines_loop hint (acc + length line) s1 = (lines1, s2)" by fastforce
    have "(lines1, sr_rest s2) = bytesio_readlines hint (acc + length line) (sr_rest s1)"
      using False by (intro 1(1) [OF l [symmetric] refl _ _ r]) auto
    moreover have "lines = line # lines1" "s' = s2"
      using 1(2) l r False by (subst (asm) sr_readlines_loop.simps, auto)+
    ultimately show ?thesis using b False
      by (subst bytesio_readlines.simps) (auto split: prod.splits)
  qed
qed

lemma sr_readlines_refines:
  "sr_readlines hint s = (lines, s') \<Longrightarrow> (lines, sr_rest s') = bytesio_readlines hint 0 (sr_rest s)"
  by (cases "sr_bio s")
    (auto simp: sr_readlines_def sr_readlines_loop_refines, auto simp: sr_rest_def split: prod.splits)

datatype input_call = Read int | Readline "int option" | Readlines int

fun sr_calls :: "input_call list \<Rightarrow> sreader \<Rightarrow> byte list list list" where
  "sr_calls [] s = []"
| "sr_calls (Read n # cs) s = (let (d, s') = sr_read n s in [d] # sr_calls cs s')"
| "sr_calls (Readline n # cs) s = (let (d, s') = sr_readline n s in [d] # sr_calls cs s')"
| "sr_calls (Readlines h # cs) s = (let (ds, s') = sr_readlines h s in ds # sr_calls cs s')"

fun bytesio_calls :: "input_call list \<Rightarrow> byte list \<Rightarrow> byte list list list" where
  "bytesio_calls [] r = []"
| "bytesio_calls (Read n # cs) r = (let (d, r') = bytesio_read n r in [d] # bytesio_calls cs r')"
| "bytesio_calls (Readline n # cs) r =
     (let (d, r') = bytesio_readline (case n of None \<Rightarrow> -1 | Some m \<Rightarrow> m) r in [d] # bytesio_calls cs r')"
| "bytesio_calls (Readlines h # cs) r = (let (ds, r') = bytesio_readlines h 0 r in ds # bytesio_calls cs r')"

lemma sr_calls_refines:
  "Readline (Some 0) \<notin> set cs \<Longrightarrow> sr_calls cs s = bytesio_calls cs (sr_rest s)"
proof (induction cs arbitrary: s)
  case (Cons c cs)
  show ?case
  proof (cases c)
    case (Read n)
    obtain d s' where "sr_read n s = (d, s')" by fastforce
    with sr_read_refines [OF this] Cons Read show ?thesis by (auto dest: sym split: prod.splits)
  next
    case (Readline n)
    obtain d s' where "sr_readline n s = (d, s')" by fastforce
    with sr_readline_refines [OF this] Cons Readline show ?thesis by (auto dest: sym split: prod.splits)
  next
    case (Readlines h)
    obtain d s' where "sr_readlines h s = (d, s')" by fastforce
    with sr_readlines_refines [OF this] Cons Readlines show ?thesis by (auto dest: sym split: prod.splits)
  qed
qed simp

section \<open>The body of a request\<close>

text \<open>
  The connection: the segments that arrive.  \<open>reader.read(n)\<close> returns at most \<open>n\<close> bytes of
  the first; an empty segment, like the end of the list, stands for the end of the stream, a
  timeout or a connection error, which end the feeder's loop alike.
\<close>

definition net_read :: "nat \<Rightarrow> byte list list \<Rightarrow> byte list \<times> byte list list" where
  "net_read n net =
     (case net of
        [] \<Rightarrow> ([], [])
      | seg # net' \<Rightarrow> (take n seg, if length seg \<le> n then net' else drop n seg # net'))"

text \<open>\<open>_feed_body\<close>: what it sends to its channel before it closes it.\<close>

function feed_body :: "nat \<Rightarrow> byte list list \<Rightarrow> byte list list" where
  "feed_body rem net =
     (if rem > 0 then
        (let (chunk, net') = net_read (min rem 65536) net in
         if chunk = [] then [[]] else chunk # feed_body (rem - length chunk) net')
      else [[]])"
  by pat_completeness auto
termination
  by (relation "measure (\<lambda>(rem, net). rem)") (auto simp: net_read_def split: list.splits)

declare feed_body.simps [simp del]

lemma net_read_delivered:
  "net_read n net = (chunk, net') \<Longrightarrow> 0 < n \<Longrightarrow>
   length chunk \<le> n \<and> (if chunk = [] then delivered net = [] else delivered net = chunk @ delivered net')"
  by (auto simp: net_read_def split: list.splits if_splits)

lemma feed_body_delivered: "delivered (feed_body rem net) = take rem (delivered net)"
proof (induction rem net rule: feed_body.induct)
  case (1 rem net)
  show ?case
  proof (cases "rem > 0")
    case True
    obtain chunk net' where r: "net_read (min rem 65536) net = (chunk, net')" by fastforce
    note d = net_read_delivered [OF r]
    show ?thesis
    proof (cases "chunk = []")
      case False
      have "delivered (feed_body (rem - length chunk) net') = take (rem - length chunk) (delivered net')"
        using False by (intro 1 [OF True r [symmetric] refl]) auto
      with True r False d show ?thesis by (simp add: feed_body.simps [of rem])
    qed (use True r d in \<open>simp add: feed_body.simps [of rem]\<close>)
  qed (simp add: feed_body.simps)
qed

text \<open>
  The choice of \<open>wsgi.input\<close> for a request that is not chunked: with the Rust parser
  \<open>initial_body\<close> is what arrived behind the header, in the fallback it is empty.
\<close>

definition wsgi_input :: "nat \<Rightarrow> byte list \<Rightarrow> byte list list \<Rightarrow> sreader" where
  "wsgi_input content_length initial_body net =
     (if content_length > length initial_body then
        sreader_new (Some initial_body)
          (Some (feed_body (content_length - length initial_body) net))
      else sreader_new (Some (if content_length > 0 then take content_length initial_body else [])) None)"

lemma wsgi_input_rest:
  "sr_rest (wsgi_input n initial net) = take n (initial @ delivered net)"
  by (auto simp: wsgi_input_def sreader_new_def sr_rest_def feed_body_delivered)

end
