(* ===== verification/Chunked.thy ===== *)
theory Chunked
  imports WsgiInput
begin

text \<open>
  Chunked transfer coding in \<open>multiloop.wsgi\<close>: \<open>_read_chunked_body\<close>, the decoder of
  request bodies over a connection that delivers the stream in segments, and the encoding
  that \<open>_handle_connection\<close> uses for responses.
\<close>

section \<open>int(line, 16)\<close>

definition py_space :: "byte \<Rightarrow> bool" where
  "py_space b \<longleftrightarrow> b = 32 \<or> (9 \<le> b \<and> b \<le> 13)"

definition py_strip :: "byte list \<Rightarrow> byte list" where
  "py_strip bs = rev (dropWhile py_space (rev (dropWhile py_space bs)))"

definition hex_value :: "byte \<Rightarrow> nat option" where
  "hex_value b =
     (if 48 \<le> b \<and> b \<le> 57 then Some (unat b - 48)
      else if 65 \<le> b \<and> b \<le> 70 then Some (unat b - 55)
      else if 97 \<le> b \<and> b \<le> 102 then Some (unat b - 87)
      else None)"

text \<open>Digits with single underscores between them; the flag allows an underscore, or the end, next.\<close>

fun hex_digits :: "bool \<Rightarrow> byte list \<Rightarrow> nat \<Rightarrow> nat option" where
  "hex_digits u [] acc = (if u then Some acc else None)"
| "hex_digits u (b # bs) acc =
     (if b = 95 then (if u then hex_digits False bs acc else None)
      else (case hex_value b of Some d \<Rightarrow> hex_digits True bs (acc * 16 + d) | None \<Rightarrow> None))"

definition hex_prefix :: "byte list \<Rightarrow> bool" where
  "hex_prefix bs \<longleftrightarrow> length bs \<ge> 2 \<and> bs ! 0 = 48 \<and> (bs ! 1 = 120 \<or> bs ! 1 = 88)"

definition hex_nat :: "byte list \<Rightarrow> nat option" where
  "hex_nat bs =
     (if hex_prefix bs then (if length bs = 2 then None else hex_digits True (drop 2 bs) 0)
      else hex_digits False bs 0)"

definition py_int16 :: "byte list \<Rightarrow> int option" where
  "py_int16 line =
     (case py_strip line of
        [] \<Rightarrow> None
      | b # bs \<Rightarrow>
          if b = 45 then map_option (\<lambda>n. - int n) (hex_nat bs)
          else if b = 43 then map_option int (hex_nat bs)
          else map_option int (hex_nat (b # bs)))"

text \<open>\<open>bytes(buf[:idx]).strip().split(b";")[0]\<close>\<close>

definition size_line :: "byte list \<Rightarrow> byte list" where
  "size_line bs = takeWhile (\<lambda>b. b \<noteq> 59) (py_strip bs)"

section \<open>The decoder\<close>

text \<open>\<open>buf.find(b"\r\n")\<close>, \<open>buf[:n]\<close> and \<open>del buf[:n]\<close> with Python's negative indices.\<close>

fun find_crlf :: "byte list \<Rightarrow> nat option" where
  "find_crlf [] = None"
| "find_crlf (b # bs) =
     (if b = 13 \<and> bs \<noteq> [] \<and> hd bs = 10 then Some 0 else map_option Suc (find_crlf bs))"

definition py_upto :: "int \<Rightarrow> byte list \<Rightarrow> byte list" where
  "py_upto n bs = (if n \<ge> 0 then take (nat n) bs else take (length bs - nat (- n)) bs)"

definition py_del_upto :: "int \<Rightarrow> byte list \<Rightarrow> byte list" where
  "py_del_upto n bs = (if n \<ge> 0 then drop (nat n) bs else drop (length bs - nat (- n)) bs)"

definition net_size :: "byte list list \<Rightarrow> nat" where
  "net_size net = sum_list (map (Suc \<circ> length) net)"

lemma net_read_size:
  "net_read n net = (chunk, net') \<Longrightarrow> chunk \<noteq> [] \<Longrightarrow> length chunk + net_size net' \<le> net_size net"
  by (auto simp: net_read_def net_size_def split: list.splits if_splits)

lemma net_read_less: "net_read n net = (chunk, net') \<Longrightarrow> chunk \<noteq> [] \<Longrightarrow> net_size net' < net_size net"
  using net_read_size [of n net chunk net'] by (cases chunk) auto

text \<open>The two loops that read from the connection; \<open>None\<close> is the end of the stream.\<close>

function cr_line :: "byte list list \<Rightarrow> byte list \<Rightarrow> (nat \<times> byte list \<times> byte list list) option" where
  "cr_line net buf =
     (case find_crlf buf of
        Some idx \<Rightarrow> Some (idx, buf, net)
      | None \<Rightarrow>
          (let (chunk, net') = net_read 4096 net in
           if chunk = [] then None else cr_line net' (buf @ chunk)))"
  by pat_completeness auto
termination
  by (relation "measure (\<lambda>(net, buf). net_size net)") (auto intro: net_read_less dest: sym)

declare cr_line.simps [simp del]

function cr_fill :: "nat \<Rightarrow> byte list list \<Rightarrow> byte list \<Rightarrow> (byte list \<times> byte list list) option" where
  "cr_fill need net buf =
     (if length buf < need then
        (let (chunk, net') = net_read 4096 net in
         if chunk = [] then None else cr_fill need net' (buf @ chunk))
      else Some (buf, net))"
  by pat_completeness auto
termination
  by (relation "measure (\<lambda>(need, net, buf). net_size net)") (auto intro: net_read_less dest: sym)

declare cr_fill.simps [simp del]

lemma find_crlf_bound: "find_crlf bs = Some i \<Longrightarrow> i + 2 \<le> length bs"
proof (induction bs arbitrary: i)
  case (Cons b bs)
  then show ?case by (cases bs) (auto split: if_splits)
qed simp

lemma cr_line_size:
  "cr_line net buf = Some (idx, buf', net') \<Longrightarrow>
   length buf' + net_size net' \<le> length buf + net_size net \<and> idx + 2 \<le> length buf'"
proof (induction net buf rule: cr_line.induct)
  case (1 net buf)
  obtain chunk net1 where r: "net_read 4096 net = (chunk, net1)" by fastforce
  show ?case
  proof (cases "find_crlf buf")
    case None
    with 1(2) r have c: "chunk \<noteq> []" "cr_line net1 (buf @ chunk) = Some (idx, buf', net')"
      by (subst (asm) cr_line.simps, simp split: if_splits)+
    from 1(1) [OF None r [symmetric] refl c] net_read_size [OF r c(1)] show ?thesis by simp
  next
    case (Some i)
    with 1(2) find_crlf_bound [OF Some] show ?thesis by (simp add: cr_line.simps)
  qed
qed

lemma cr_fill_size:
  "cr_fill need net buf = Some (buf', net') \<Longrightarrow> length buf' + net_size net' \<le> length buf + net_size net"
proof (induction need net buf rule: cr_fill.induct)
  case (1 need net buf)
  obtain chunk net1 where r: "net_read 4096 net = (chunk, net1)" by fastforce
  show ?case
  proof (cases "length buf < need")
    case True
    with 1(2) r have c: "chunk \<noteq> []" "cr_fill need net1 (buf @ chunk) = Some (buf', net')"
      by (subst (asm) cr_fill.simps, simp split: if_splits)+
    from 1(1) [OF True r [symmetric] refl c] net_read_size [OF r c(1)] show ?thesis by simp
  next
    case False
    with 1(2) show ?thesis by (simp add: cr_fill.simps)
  qed
qed

lemma length_py_del_upto: "length (py_del_upto n bs) \<le> length bs"
  by (simp add: py_del_upto_def)

text \<open>
  \<open>_read_chunked_body\<close>: \<open>buf\<close> starts as \<open>initial\<close>, \<open>body\<close> empty.  What follows the last
  chunk is read but has no part in the result.
\<close>

function read_chunked :: "nat \<Rightarrow> byte list list \<Rightarrow> byte list \<Rightarrow> byte list \<Rightarrow> error + byte list" where
  "read_chunked max_request_body net buf body =
     (case cr_line net buf of
        None \<Rightarrow> Inl (OSError ''Unexpected EOF while reading chunk size'')
      | Some (idx, buf, net) \<Rightarrow>
          (case py_int16 (size_line (take idx buf)) of
             None \<Rightarrow> Inl (ValueError ''Invalid chunked encoding length'')
           | Some chunk_len \<Rightarrow>
               if chunk_len = 0 then Inr body
               else
                 (case cr_fill (nat (chunk_len + 2)) net (drop (idx + 2) buf) of
                    None \<Rightarrow> Inl (OSError ''Unexpected EOF while reading chunk data'')
                  | Some (buf, net) \<Rightarrow>
                      if int (length body) + chunk_len > int max_request_body then
                        Inl (ValueError ''Payload Too Large'')
                      else read_chunked max_request_body net (py_del_upto (chunk_len + 2) buf)
                             (body @ py_upto chunk_len buf))))"
  by pat_completeness auto
termination
proof (relation "measure (\<lambda>(m, net, buf, body). length buf + net_size net)", goal_cases)
  case (2 m net buf body x idx y buf1 net1 n z buf2 net2)
  from 2(1-3) have "cr_line net buf = Some (idx, buf1, net1)" by simp
  from cr_line_size [OF this] have "length buf1 + net_size net1 \<le> length buf + net_size net"
    "idx + 2 \<le> length buf1" by simp_all
  moreover have "length buf2 + net_size net2 \<le> length (drop (idx + 2) buf1) + net_size net1"
    using 2 by (intro cr_fill_size) auto
  ultimately show ?case using length_py_del_upto [of "n + 2" buf2] by simp
qed simp

declare read_chunked.simps [simp del]

section \<open>The encoder\<close>

text \<open>\<open>f"{n:X}"\<close>\<close>

definition hex_digit :: "nat \<Rightarrow> byte" where
  "hex_digit n = word_of_nat (if n < 10 then 48 + n else 55 + n)"

fun hex_upper :: "nat \<Rightarrow> byte list" where
  "hex_upper n = (if n < 16 then [hex_digit n] else hex_upper (n div 16) @ [hex_digit (n mod 16)])"

declare hex_upper.simps [simp del]

definition chunk_frame :: "byte list \<Rightarrow> byte list" where
  "chunk_frame data = hex_upper (length data) @ crlf @ data @ crlf"

definition chunk_end :: "byte list" where
  "chunk_end = ascii ''0'' @ crlf @ crlf"

lemma less16_cases: "n < 16 \<Longrightarrow> P 0 \<and> P 1 \<and> P 2 \<and> P 3 \<and> P 4 \<and> P 5 \<and> P 6 \<and> P 7 \<and> P 8 \<and> P 9 \<and> P 10 \<and>
  P 11 \<and> P 12 \<and> P 13 \<and> P 14 \<and> P (15::nat) \<Longrightarrow> P n"
  by (simp add: numeral_eq_Suc less_Suc_eq) blast

lemma hex_value_digit: "n < 16 \<Longrightarrow> hex_value (hex_digit n) = Some n"
  by (erule less16_cases) (simp add: hex_value_def hex_digit_def)

lemma hex_digit_char:
  "n < 16 \<Longrightarrow> hex_digit n \<notin> {95, 120, 88, 59, 13, 10, 43, 45} \<and> \<not> py_space (hex_digit n)"
  by (erule less16_cases) (simp add: hex_digit_def py_space_def)

lemma set_hex_upper: "b \<in> set (hex_upper n) \<Longrightarrow> \<exists>d < 16. b = hex_digit d"
proof (induction n rule: hex_upper.induct)
  case (1 n)
  then show ?case by (cases "n < 16") (auto simp: hex_upper.simps [of n] intro: exI [of _ "n mod 16"])
qed

lemma hex_upper_ne: "hex_upper n \<noteq> []"
  by (simp add: hex_upper.simps)

lemma hex_digits_upper: "hex_digits u (hex_upper n @ bs) 0 = hex_digits True bs n"
proof (induction n arbitrary: bs u rule: hex_upper.induct)
  case (1 n)
  show ?case
  proof (cases "n < 16")
    case True
    with hex_value_digit [OF True] hex_digit_char [OF True] show ?thesis
      by (simp add: hex_upper.simps)
  next
    case False
    have "n mod 16 < 16" by simp
    with 1 [OF False] hex_value_digit [OF this] hex_digit_char [OF this] False show ?thesis
      by (simp add: hex_upper.simps [of n])
  qed
qed

lemma hex_upper_chars:
  assumes "b \<in> set (hex_upper n)"
  shows "b \<notin> {95, 120, 88, 59, 13, 10, 43, 45}" and "\<not> py_space b"
proof -
  from set_hex_upper [OF assms] obtain d where "d < 16" "b = hex_digit d" by blast
  with hex_digit_char [of d] show "b \<notin> {95, 120, 88, 59, 13, 10, 43, 45}" and "\<not> py_space b"
    by simp_all
qed

lemma hex_nat_upper: "hex_nat (hex_upper n) = Some n"
proof -
  have "\<not> hex_prefix (hex_upper n)"
  proof
    assume "hex_prefix (hex_upper n)"
    then have "hex_upper n ! 1 \<in> set (hex_upper n)" "hex_upper n ! 1 \<in> {120, 88}"
      by (auto simp: hex_prefix_def)
    with hex_upper_chars(1) [of "hex_upper n ! 1" n] show False by auto
  qed
  then show ?thesis using hex_digits_upper [of False n "[]"] by (simp add: hex_nat_def)
qed

lemma py_strip_id: "bs \<noteq> [] \<Longrightarrow> \<forall>b \<in> set bs. \<not> py_space b \<Longrightarrow> py_strip bs = bs"
proof -
  assume "\<forall>b \<in> set bs. \<not> py_space b"
  moreover assume "bs \<noteq> []"
  ultimately have "dropWhile py_space bs = bs" "dropWhile py_space (rev bs) = rev bs"
    by (simp_all add: dropWhile_eq_self_iff hd_rev)
  then show ?thesis by (simp add: py_strip_def)
qed

lemma size_line_upper: "py_int16 (size_line (hex_upper n)) = Some (int n)"
proof -
  have s: "py_strip (hex_upper n) = hex_upper n"
    using hex_upper_ne hex_upper_chars(2) by (intro py_strip_id) blast+
  have "\<forall>b \<in> set (hex_upper n). b \<noteq> 59" using hex_upper_chars(1) by blast
  then have l: "size_line (hex_upper n) = hex_upper n"
    unfolding size_line_def s by (simp add: takeWhile_eq_all_conv)
  obtain b bs where u: "hex_upper n = b # bs" using hex_upper_ne by (meson neq_Nil_conv)
  then have "b \<noteq> 43" "b \<noteq> 45" using hex_upper_chars(1) [of b n] by auto
  moreover have "hex_nat (b # bs) = Some n" using hex_nat_upper [of n] by (simp add: u)
  ultimately show ?thesis unfolding l unfolding py_int16_def s unfolding u by simp
qed

section \<open>Decoding what was encoded\<close>

lemma find_crlf_append: "find_crlf a = Some i \<Longrightarrow> find_crlf (a @ b) = Some i"
proof (induction a arbitrary: i)
  case (Cons x a)
  then show ?case by (cases a) (auto split: if_splits)
qed simp

lemma find_crlf_line: "13 \<notin> set line \<Longrightarrow> find_crlf (line @ crlf @ rest) = Some (length line)"
  by (induction line) (auto simp: crlf_def)

text \<open>The two loops in terms of the stream, \<open>buf\<close> followed by what is still delivered.\<close>

lemma cr_line_stream:
  "find_crlf (buf @ delivered net) = Some i \<Longrightarrow>
   \<exists>buf' net'. cr_line net buf = Some (i, buf', net') \<and> buf' @ delivered net' = buf @ delivered net \<and>
     i + 2 \<le> length buf'"
proof (induction net buf rule: cr_line.induct)
  case (1 net buf)
  show ?case
  proof (cases "find_crlf buf")
    case (Some j)
    with find_crlf_append [OF Some] 1(2) find_crlf_bound [OF Some] show ?thesis
      by (simp add: cr_line.simps)
  next
    case None
    obtain chunk net1 where r: "net_read 4096 net = (chunk, net1)" by fastforce
    note d = net_read_delivered [OF r]
    have c: "chunk \<noteq> []" using d None 1(2) by (auto split: if_splits)
    have f: "find_crlf ((buf @ chunk) @ delivered net1) = Some i" using d c 1(2) by simp
    from 1(1) [OF None r [symmetric] refl c f] None r c d show ?thesis
      by (simp add: cr_line.simps [of net])
  qed
qed

lemma cr_fill_stream:
  "need \<le> length (buf @ delivered net) \<Longrightarrow>
   \<exists>buf' net'. cr_fill need net buf = Some (buf', net') \<and> buf' @ delivered net' = buf @ delivered net \<and>
     need \<le> length buf'"
proof (induction need net buf rule: cr_fill.induct)
  case (1 need net buf)
  show ?case
  proof (cases "length buf < need")
    case False
    then show ?thesis by (simp add: cr_fill.simps)
  next
    case True
    obtain chunk net1 where r: "net_read 4096 net = (chunk, net1)" by fastforce
    note d = net_read_delivered [OF r]
    have c: "chunk \<noteq> []" using d True 1(2) by (auto split: if_splits)
    have f: "need \<le> length ((buf @ chunk) @ delivered net1)" using d c 1(2) by simp
    from 1(1) [OF True r [symmetric] refl c f] True r c d show ?thesis
      by (simp add: cr_fill.simps [of need net])
  qed
qed

text \<open>One chunk, and the last one.\<close>

lemma read_chunked_frame:
  assumes "buf @ delivered net = chunk_frame data @ rest" and "data \<noteq> []"
  shows "\<exists>buf' net'. buf' @ delivered net' = rest \<and>
    read_chunked m net buf body =
      (if length body + length data > m then Inl (ValueError ''Payload Too Large'')
       else read_chunked m net' buf' (body @ data))"
proof -
  let ?n = "length data" and ?l = "hex_upper (length data)"
  have l13: "13 \<notin> set ?l" using hex_upper_chars(1) by blast
  have bs: "buf @ delivered net = ?l @ crlf @ data @ crlf @ rest"
    using assms(1) by (simp add: chunk_frame_def)
  have "find_crlf (buf @ delivered net) = Some (length ?l)"
    unfolding bs by (rule find_crlf_line [OF l13])
  from cr_line_stream [OF this] obtain b1 n1 where
    line: "cr_line net buf = Some (length ?l, b1, n1)" "b1 @ delivered n1 = ?l @ crlf @ data @ crlf @ rest"
    "length ?l + 2 \<le> length b1" unfolding bs by blast
  have "take (length ?l) (b1 @ delivered n1) = ?l" unfolding line(2) by simp
  then have t: "take (length ?l) b1 = ?l" using line(3) by simp
  have "drop (length ?l + 2) (b1 @ delivered n1) = data @ crlf @ rest"
    unfolding line(2) by (simp add: crlf_def)
  then have dr: "drop (length ?l + 2) b1 @ delivered n1 = data @ crlf @ rest" using line(3) by simp
  have "?n + 2 \<le> length (drop (length ?l + 2) b1 @ delivered n1)" unfolding dr by (simp add: crlf_def)
  from cr_fill_stream [OF this] obtain b2 n2 where
    fill: "cr_fill (?n + 2) n1 (drop (length ?l + 2) b1) = Some (b2, n2)"
      "b2 @ delivered n2 = data @ crlf @ rest" "?n + 2 \<le> length b2" unfolding dr by blast
  have "take ?n (b2 @ delivered n2) = data" unfolding fill(2) by simp
  then have td: "take ?n b2 = data" using fill(3) by simp
  have "drop (?n + 2) (b2 @ delivered n2) = rest" unfolding fill(2) by (simp add: crlf_def)
  then have rest: "drop (?n + 2) b2 @ delivered n2 = rest" using fill(3) by simp
  have nat: "nat (int ?n + 2) = ?n + 2" by simp
  have up: "py_upto (int ?n) b2 = data" "py_del_upto (int ?n + 2) b2 = drop (?n + 2) b2"
    using td nat by (simp_all add: py_upto_def py_del_upto_def)
  have z: "int ?n \<noteq> 0" using assms(2) by simp
  have "read_chunked m net buf body =
      (if length body + ?n > m then Inl (ValueError ''Payload Too Large'')
       else read_chunked m n2 (drop (?n + 2) b2) (body @ data))"
    unfolding read_chunked.simps [of m net] line(1) option.case prod.case t size_line_upper nat fill(1) up
    using z by simp
  with rest show ?thesis by blast
qed

lemma read_chunked_end:
  assumes "buf @ delivered net = chunk_end @ rest"
  shows "read_chunked m net buf body = Inr body"
proof -
  have bs: "buf @ delivered net = [48] @ crlf @ crlf @ rest"
    using assms by (simp add: chunk_end_def ascii_def)
  have "find_crlf (buf @ delivered net) = Some (length [48 :: byte])"
    unfolding bs by (rule find_crlf_line) simp
  from cr_line_stream [OF this] obtain b1 n1 where
    line: "cr_line net buf = Some (1, b1, n1)" "b1 @ delivered n1 = [48] @ crlf @ crlf @ rest"
    "3 \<le> length b1" unfolding bs by auto
  have "take 1 (b1 @ delivered n1) = [48]" unfolding line(2) by simp
  then have t: "take 1 b1 = [48]" using line(3) by simp
  have "py_int16 (size_line [48]) = Some 0"
    by (simp add: py_int16_def size_line_def py_strip_def py_space_def hex_nat_def hex_prefix_def hex_value_def)
  then show ?thesis unfolding read_chunked.simps [of m net] line(1) option.case prod.case t by simp
qed

lemma read_chunked_frames:
  assumes "buf @ delivered net = concat (map chunk_frame ds) @ chunk_end @ rest"
    and "\<forall>d \<in> set ds. d \<noteq> []"
  shows "read_chunked m net buf body =
    (if ds \<noteq> [] \<and> length (body @ concat ds) > m then Inl (ValueError ''Payload Too Large'')
     else Inr (body @ concat ds))"
  using assms
proof (induction ds arbitrary: net buf body)
  case Nil
  then show ?case by (simp add: read_chunked_end)
next
  case (Cons d ds)
  from read_chunked_frame [of buf net d "concat (map chunk_frame ds) @ chunk_end @ rest" m body] Cons.prems
  obtain buf' net' where n: "buf' @ delivered net' = concat (map chunk_frame ds) @ chunk_end @ rest"
    "read_chunked m net buf body = (if length body + length d > m then Inl (ValueError ''Payload Too Large'')
      else read_chunked m net' buf' (body @ d))" by auto
  show ?case unfolding n(2) using Cons.IH [OF n(1)] Cons.prems(2) by auto
qed

section \<open>Properties\<close>

text \<open>
  C30: \<open>wsgi.input\<close> is the body.  Whatever arrived with the header, however the rest of the
  body is cut into segments, and in whatever order the application calls \<open>read\<close>,
  \<open>readline\<close> and \<open>readlines\<close> (with any arguments but \<open>readline(0)\<close>), every call returns
  what a \<open>BytesIO\<close> over the first \<open>content_length\<close> bytes of the body would.
\<close>

theorem wsgi_input_is_body:
  assumes "Readline (Some 0) \<notin> set calls"
  shows "sr_calls calls (wsgi_input content_length initial net) =
    bytesio_calls calls (take content_length (initial @ delivered net))"
  using sr_calls_refines [OF assms] by (simp add: wsgi_input_rest)

theorem wsgi_input_is_body_witness:
  "sr_calls [Readline None, Read 2, Read (-1)] (wsgi_input 6 [65, 66] [[10, 67], [68, 69, 70, 71]]) =
     [[[65, 66, 10]], [[67, 68]], [[69]]]"
  using wsgi_input_is_body [of "[Readline None, Read 2, Read (-1)]" 6 "[65, 66]" "[[10, 67], [68, 69, 70, 71]]"]
  by (simp add: bytesio_read_def bytesio_readline_def Let_def)

text \<open>
  Over a channel \<open>readline(0)\<close> does not return the empty line that the other mode of the
  same class returns, but the whole next line.
\<close>

theorem sr_readline_zero:
  "fst (sr_readline (Some 0) (sreader_new (Some [65, 10]) None)) = [] \<and>
   fst (sr_readline (Some 0) (sreader_new (Some [65, 10]) (Some []))) = [65, 10]"
  by (simp add: sr_readline_def sreader_new_def bytesio_readline_def sr_line.simps find_newline_def)

text \<open>
  C31: the chunked decoder inverts the chunk encoding.  A body sent as any non-empty chunks,
  followed by anything, and cut by the transport into any segments is decoded to the
  concatenation of the chunks, and refused exactly when it is longer than the limit.
\<close>

theorem chunked_roundtrip:
  assumes "buf @ delivered net = concat (map chunk_frame ds) @ chunk_end @ rest"
    and "\<forall>d \<in> set ds. d \<noteq> []"
  shows "read_chunked m net buf [] =
    (if length (concat ds) > m then Inl (ValueError ''Payload Too Large'') else Inr (concat ds))"
  using read_chunked_frames [OF assms, of m "[]"] by (cases "ds = []") simp_all

theorem chunked_roundtrip_witness:
  "read_chunked 10 [[13], [10, 72, 105], [13, 10, 48, 13, 10, 13, 10]] [50] [] = Inr [72, 105]"
  using chunked_roundtrip [of "[50]" "[[13], [10, 72, 105], [13, 10, 48, 13, 10, 13, 10]]" "[[72, 105]]" "[]" 10]
  by (simp add: chunk_frame_def chunk_end_def crlf_def ascii_def hex_upper.simps hex_digit_def)

text \<open>
  A negative chunk size is accepted, and what is decoded then depends on how the
  transport cut the same bytes.
\<close>

theorem chunked_negative_size:
  "read_chunked m [] (ascii ''-2'' @ crlf @ chunk_end) [] = Inr [48, 13, 10] \<and>
   read_chunked m [chunk_end] (ascii ''-2'' @ crlf) [] = Inr [] "
  by (simp add: read_chunked.simps cr_line.simps cr_fill.simps find_crlf.simps ascii_def crlf_def chunk_end_def
      py_int16_def size_line_def py_strip_def py_space_def hex_nat_def hex_prefix_def hex_value_def
      net_read_def py_upto_def py_del_upto_def)

end
