(* ===== verification/WsgiServe.thy ===== *)
theory WsgiServe
  imports Chunked
begin

text \<open>
  \<open>MultiloopWSGIWorker._handle_connection\<close>: admission by the counter of running requests,
  the head of a request in the fallback parser, the choice of the body, the WSGI environment,
  \<open>start_response\<close> and the runner of the application, and the task that turns the
  application's messages into the response.  Text is latin-1, a list of bytes.
\<close>

section \<open>Text\<close>

definition str_space :: "byte \<Rightarrow> bool" where
  "str_space b \<longleftrightarrow> (9 \<le> b \<and> b \<le> 13) \<or> (28 \<le> b \<and> b \<le> 32) \<or> b = 0x85 \<or> b = 0xA0"

definition str_strip :: "byte list \<Rightarrow> byte list" where
  "str_strip s = rev (dropWhile str_space (rev (dropWhile str_space s)))"

text \<open>\<open>str.lower\<close> and \<open>str.upper\<close> where the result is compared or is a header key in ASCII.\<close>

definition str_lower :: "byte list \<Rightarrow> byte list" where
  "str_lower s = map (\<lambda>b. if 65 \<le> b \<and> b \<le> 90 \<or> 0xC0 \<le> b \<and> b \<le> 0xDE \<and> b \<noteq> 0xD7 then b + 32 else b) s"

definition str_upper_ascii :: "byte list \<Rightarrow> byte list" where
  "str_upper_ascii s = map (\<lambda>b. if 97 \<le> b \<and> b \<le> 122 then b - 32 else b) s"

definition isalnum :: "byte \<Rightarrow> bool" where
  "isalnum b \<longleftrightarrow> (48 \<le> b \<and> b \<le> 57) \<or> (65 \<le> b \<and> b \<le> 90) \<or> (97 \<le> b \<and> b \<le> 122) \<or>
     b \<in> {0xAA, 0xB2, 0xB3, 0xB5, 0xB9, 0xBA, 0xBC, 0xBD, 0xBE} \<or> (0xC0 \<le> b \<and> b \<noteq> 0xD7 \<and> b \<noteq> 0xF7)"

fun join :: "byte list \<Rightarrow> byte list list \<Rightarrow> byte list" where
  "join sep [] = []"
| "join sep [x] = x"
| "join sep (x # y # xs) = x @ sep @ join sep (y # xs)"

type_synonym headers = "(byte list \<times> byte list) list"

definition has_header :: "string \<Rightarrow> headers \<Rightarrow> bool" where
  "has_header name hs \<longleftrightarrow> list_ex (\<lambda>(k, v). str_lower k = ascii name) hs"

section \<open>Admission\<close>

text \<open>
  \<open>_sync_task_count\<close> against three times \<open>_max_sync_workers\<close>; the second component of the
  state is the set of connections between the increment and the \<open>finally\<close>.
\<close>

definition wsgi_workers :: "nat option \<Rightarrow> nat option \<Rightarrow> nat" where
  "wsgi_workers sync_workers cpu_count =
     max (case sync_workers of Some n \<Rightarrow> n
          | None \<Rightarrow> min 64 ((case cpu_count of Some c \<Rightarrow> if c = 0 then 1 else c | None \<Rightarrow> 1) * 8)) 4"

definition wsgi_admit :: "nat \<Rightarrow> nat \<Rightarrow> nat option" where
  "wsgi_admit max_sync_workers cnt = (if cnt \<ge> max_sync_workers * 3 then None else Some (cnt + 1))"

definition wsgi_finish :: "nat \<Rightarrow> nat" where
  "wsgi_finish cnt = (if cnt - 1 > 0 then cnt - 1 else 0)"

definition busy_response :: "byte list" where
  "busy_response = ascii ''HTTP/1.1 503 Service Unavailable'' @ crlf @ ascii ''content-length: 19'' @ crlf @
     ascii ''connection: close'' @ crlf @ crlf @ ascii ''Service Unavailable''"

record admission =
  a_workers :: nat
  a_count :: nat
  a_running :: "nat set"

inductive admission_step :: "admission \<Rightarrow> admission \<Rightarrow> bool" where
  conn_enter: "c \<notin> a_running s \<Longrightarrow> wsgi_admit (a_workers s) (a_count s) = Some n \<Longrightarrow>
     admission_step s (s\<lparr>a_count := n, a_running := insert c (a_running s)\<rparr>)"
| conn_refused: "wsgi_admit (a_workers s) (a_count s) = None \<Longrightarrow> admission_step s s"
| conn_leave: "c \<in> a_running s \<Longrightarrow>
     admission_step s (s\<lparr>a_count := wsgi_finish (a_count s), a_running := a_running s - {c}\<rparr>)"

definition admission_start :: "admission \<Rightarrow> bool" where
  "admission_start s \<longleftrightarrow>
     (\<exists>sw cpu. s = \<lparr>a_workers = wsgi_workers sw cpu, a_count = 0, a_running = {}\<rparr>)"

definition admission_inv :: "admission \<Rightarrow> bool" where
  "admission_inv s \<longleftrightarrow> finite (a_running s) \<and> a_count s = card (a_running s) \<and>
     a_count s \<le> a_workers s * 3 \<and> 4 \<le> a_workers s"

lemma admission_inv_step:
  assumes "admission_inv s" and "admission_step s s'"
  shows "admission_inv s'"
  using assms(2,1)
proof cases
  case (conn_leave c)
  have "card (a_running s - {c}) = card (a_running s) - 1" using conn_leave assms(1)
    by (simp add: admission_inv_def)
  with conn_leave assms(1) show ?thesis by (auto simp: admission_inv_def wsgi_finish_def)
qed (auto simp: admission_inv_def wsgi_admit_def split: if_splits)

interpretation admission: bounded_resource admission_start admission_step admission_inv a_running
    "\<lambda>s. a_workers s * 3"
proof (unfold_locales, goal_cases)
  case (1 s)
  then show ?case by (auto simp: admission_start_def admission_inv_def wsgi_workers_def)
qed (auto simp: admission_inv_step, auto simp: admission_inv_def)

section \<open>The head of a request\<close>

record wsgi_head =
  h_method :: "byte list"
  h_path :: "byte list"
  h_query :: "byte list"
  h_version :: "byte list"
  h_headers :: headers
  h_length :: int
  h_chunked :: bool

text \<open>\<open>s.split()\<close>, \<open>s.split(c, 1)\<close> and \<open>int(s)\<close>.\<close>

fun str_words :: "byte list \<Rightarrow> byte list \<Rightarrow> byte list list" where
  "str_words w [] = (if w = [] then [] else [w])"
| "str_words w (b # bs) =
     (if str_space b then (if w = [] then str_words [] bs else w # str_words [] bs)
      else str_words (w @ [b]) bs)"

definition split_once :: "byte \<Rightarrow> byte list \<Rightarrow> byte list \<times> byte list" where
  "split_once c s = (takeWhile (\<lambda>b. b \<noteq> c) s, tl (dropWhile (\<lambda>b. b \<noteq> c) s))"

fun dec_digits :: "bool \<Rightarrow> byte list \<Rightarrow> nat \<Rightarrow> nat option" where
  "dec_digits u [] acc = (if u then Some acc else None)"
| "dec_digits u (b # bs) acc =
     (if b = 95 then (if u then dec_digits False bs acc else None)
      else if 48 \<le> b \<and> b \<le> 57 then dec_digits True bs (acc * 10 + (unat b - 48)) else None)"

definition py_int :: "byte list \<Rightarrow> int option" where
  "py_int s =
     (case str_strip s of
        [] \<Rightarrow> None
      | b # bs \<Rightarrow>
          if b = 45 then map_option (\<lambda>n. - int n) (dec_digits False bs 0)
          else if b = 43 then map_option int (dec_digits False bs 0)
          else map_option int (dec_digits False (b # bs) 0))"

fun infix_of :: "byte list \<Rightarrow> byte list \<Rightarrow> bool" where
  "infix_of p [] = (p = [])"
| "infix_of p (b # bs) = (take (length p) (b # bs) = p \<or> infix_of p bs)"

text \<open>\<open>parts[2].replace("HTTP/", "")\<close>\<close>

function str_remove :: "byte list \<Rightarrow> byte list \<Rightarrow> byte list" where
  "str_remove p s =
     (if s = [] then []
      else if p \<noteq> [] \<and> take (length p) s = p then str_remove p (drop (length p) s)
      else hd s # str_remove p (tl s))"
  by pat_completeness auto
termination
  by (relation "measure (\<lambda>(p, s). length s)") auto

declare str_remove.simps [simp del]

definition request_line :: "byte list \<Rightarrow> wsgi_head" where
  "request_line line =
     (let parts = str_words [] line;
          raw_target = (if length parts > 1 then parts ! 1 else ascii ''/'');
          (path, query) = (if 63 \<in> set raw_target then split_once 63 raw_target else (raw_target, []))
      in \<lparr>h_method = (if length parts > 0 then parts ! 0 else ascii ''GET''), h_path = path,
          h_query = query,
          h_version = (if length parts > 2 then str_remove (ascii ''HTTP/'') (parts ! 2) else ascii ''1.1''),
          h_headers = [], h_length = 0, h_chunked = False\<rparr>)"

definition header_line :: "byte list \<Rightarrow> wsgi_head \<Rightarrow> wsgi_head" where
  "header_line line h =
     (if 58 \<in> set line then
        (let (k, v) = split_once 58 line;
             k_str = str_lower (str_strip k); v_str = str_strip v;
             h = h\<lparr>h_headers := h_headers h @ [(k_str, v_str)]\<rparr>
         in if k_str = ascii ''content-length'' then
              h\<lparr>h_length := (case py_int v_str of Some n \<Rightarrow> n | None \<Rightarrow> 0)\<rparr>
            else if k_str = ascii ''transfer-encoding'' \<and> infix_of (ascii ''chunked'') (str_lower v_str) then
              h\<lparr>h_chunked := True\<rparr>
            else h)
      else h)"

definition max_header_size :: nat where
  "max_header_size = 64 * 1024"

text \<open>The lines are what \<open>reader.readline()\<close> returns; the result \<open>None\<close> is a 431.\<close>

fun header_lines :: "nat \<Rightarrow> byte list list \<Rightarrow> wsgi_head \<Rightarrow> (wsgi_head \<times> byte list list) option" where
  "header_lines acc [] h = Some (h, [])"
| "header_lines acc (line # ls) h =
     (if line = [] \<or> line = crlf then Some (h, ls)
      else if acc + length line > max_header_size then None
      else header_lines (acc + length line) ls (header_line line h))"

section \<open>The body\<close>

definition status_only :: "string \<Rightarrow> byte list" where
  "status_only status = ascii ''HTTP/1.1 '' @ ascii status @ crlf @ ascii ''content-length: 0'' @ crlf @
     ascii ''connection: close'' @ crlf @ crlf"

definition error_500 :: "byte list" where
  "error_500 = ascii ''HTTP/1.1 500 Internal Server Error'' @ crlf @ ascii ''content-length: 21'' @ crlf @
     ascii ''connection: close'' @ crlf @ crlf @ ascii ''Internal Server Error''"

datatype wsgi_body = Respond "byte list" | Serve nat sreader

text \<open>
  After the head: \<open>initial_body\<close> is what the Rust parser left in the buffer, empty in the
  fallback.  An error other than \<open>ValueError\<close> ends in the handler of the whole request.
\<close>

definition wsgi_body :: "nat \<Rightarrow> wsgi_head \<Rightarrow> byte list \<Rightarrow> byte list list \<Rightarrow> wsgi_body" where
  "wsgi_body max_request_body h initial_body net =
     (if h_length h > int max_request_body then Respond (status_only ''413 Payload Too Large'')
      else if h_chunked h then
        (case read_chunked max_request_body net initial_body [] of
           Inr body \<Rightarrow> Serve (length body) (sreader_new (Some body) None)
         | Inl (ValueError e) \<Rightarrow> Respond (status_only ''400 Bad Request'')
         | Inl e \<Rightarrow> Respond error_500)
      else Serve (nat (h_length h)) (wsgi_input (nat (h_length h)) initial_body net))"

section \<open>The environment\<close>

definition http_key :: "byte list \<Rightarrow> byte list" where
  "http_key k = ascii ''HTTP_'' @ map (\<lambda>b. if b = 45 then 95 else b) (str_upper_ascii k)"

definition od_get :: "'k \<Rightarrow> ('k, 'v) odict \<Rightarrow> 'v option" where
  "od_get k d = map_of d k"

definition env_header :: "byte list \<times> byte list \<Rightarrow>
    byte list \<times> byte list \<times> (byte list, byte list list) odict \<Rightarrow>
    byte list \<times> byte list \<times> (byte list, byte list list) odict" where
  "env_header kv st =
     (let (k, v) = kv; (ctype, clen, d) = st in
      if k = ascii ''content-type'' then (v, clen, d)
      else if k = ascii ''content-length'' then (ctype, v, d)
      else (ctype, clen, od_set (http_key k)
              ((case od_get (http_key k) d of Some vs \<Rightarrow> vs | None \<Rightarrow> []) @ [v]) d))"

text \<open>\<open>str(n)\<close> in decimal.\<close>

fun decimal :: "nat \<Rightarrow> byte list" where
  "decimal n = (if n < 10 then [word_of_nat (48 + n)] else decimal (n div 10) @ [word_of_nat (48 + n mod 10)])"

declare decimal.simps [simp del]

definition unspecified_host :: "byte list \<Rightarrow> bool" where
  "unspecified_host s \<longleftrightarrow> s = ascii ''0.0.0.0'' \<or> s = ascii ''::'' \<or> s = []"

definition server_name :: "byte list \<Rightarrow> headers \<Rightarrow> byte list" where
  "server_name host hs =
     (if unspecified_host host then
        (let name = (case find (\<lambda>(k, v). k = ascii ''host'') hs of
                       Some (k, v) \<Rightarrow>
                         (let cand = str_strip (takeWhile (\<lambda>b. b \<noteq> 58) v)
                          in if cand \<noteq> [] \<and> list_all (\<lambda>c. isalnum c \<or> c = 46 \<or> c = 45 \<or> c = 95) cand
                             then cand else host)
                     | None \<Rightarrow> host)
         in if unspecified_host name then ascii ''127.0.0.1'' else name)
      else host)"

text \<open>\<open>urllib.parse.unquote(path, encoding="latin-1")\<close>\<close>

fun unquote :: "byte list \<Rightarrow> byte list" where
  "unquote (b # x # y # bs) =
     (if b = 37 then
        (case (hex_value x, hex_value y) of
           (Some m, Some n) \<Rightarrow> word_of_nat (16 * m + n) # unquote bs
         | _ \<Rightarrow> b # unquote (x # y # bs))
      else b # unquote (x # y # bs))"
| "unquote bs = bs"

definition wsgi_environ ::
    "byte list \<Rightarrow> nat \<Rightarrow> byte list \<times> nat \<Rightarrow> nat \<Rightarrow> wsgi_head \<Rightarrow> (byte list, byte list) odict" where
  "wsgi_environ host port client content_length h =
     (let (ctype, clen, d) = fold env_header (h_headers h)
            ([], if content_length > 0 then decimal content_length else [], []);
          env = [(ascii ''REQUEST_METHOD'', h_method h), (ascii ''SCRIPT_NAME'', []),
                 (ascii ''PATH_INFO'', unquote (h_path h)), (ascii ''QUERY_STRING'', h_query h),
                 (ascii ''SERVER_NAME'', server_name host (h_headers h)),
                 (ascii ''SERVER_PORT'', decimal port),
                 (ascii ''SERVER_PROTOCOL'', ascii ''HTTP/'' @ h_version h),
                 (ascii ''REMOTE_ADDR'', fst client), (ascii ''REMOTE_PORT'', decimal (snd client)),
                 (ascii ''wsgi.url_scheme'', ascii ''http'')];
          env = (if ctype \<noteq> [] then od_set (ascii ''CONTENT_TYPE'') ctype env else env);
          env = (if clen \<noteq> [] then od_set (ascii ''CONTENT_LENGTH'') clen env else env)
      in fold (\<lambda>(hk, vs) e. od_set hk (join (ascii '', '') vs) e) d env)"

section \<open>The application\<close>

datatype message = START "byte list" headers | DATA "byte list" | ERROR | END

text \<open>
  What the application does: \<open>start_response\<close> without \<open>exc_info\<close>, or with it (the flag is
  \<open>headers_sent_event.is_set()\<close> at that moment), \<open>write\<close>, a chunk of its iterable, an
  exception.  The list ends when the application and its iterable end.
\<close>

datatype app_step =
    Start "byte list" headers
  | Restart bool "byte list" headers
  | Write "byte list"
  | Yield "byte list"
  | Raise

text \<open>\<open>start_response\<close>: \<open>None\<close> when it raises; otherwise \<open>headers_set\<close> is true.\<close>

definition start_response :: "bool option \<Rightarrow> bool \<Rightarrow> byte list \<Rightarrow> headers \<Rightarrow> message option" where
  "start_response exc_info headers_set status hs =
     (case exc_info of
        Some headers_sent \<Rightarrow> if headers_sent then None else Some (START status hs)
      | None \<Rightarrow> if headers_set then None else Some (START status hs))"

text \<open>\<open>_run_wsgi_sync\<close>: the messages sent to the channel, the client staying connected.\<close>

fun run_wsgi :: "bool \<Rightarrow> app_step list \<Rightarrow> message list" where
  "run_wsgi headers_set [] = [END]"
| "run_wsgi headers_set (Start st hs # acts) =
     (case start_response None headers_set st hs of
        Some m \<Rightarrow> m # run_wsgi True acts
      | None \<Rightarrow> [ERROR, END])"
| "run_wsgi headers_set (Restart sent st hs # acts) =
     (case start_response (Some sent) headers_set st hs of
        Some m \<Rightarrow> m # run_wsgi True acts
      | None \<Rightarrow> [ERROR, END])"
| "run_wsgi headers_set (Write d # acts) = (if d \<noteq> [] then [DATA d] else []) @ run_wsgi headers_set acts"
| "run_wsgi headers_set (Yield d # acts) = (if d \<noteq> [] then [DATA d] else []) @ run_wsgi headers_set acts"
| "run_wsgi headers_set (Raise # acts) = [ERROR, END]"

section \<open>The response\<close>

record resp =
  headers_sent :: bool
  is_chunked :: bool
  active_status :: "byte list"
  response_headers :: headers
  r_out :: "byte list"

definition resp_new :: resp where
  "resp_new = \<lparr>headers_sent = False, is_chunked = False, active_status = ascii ''200 OK'',
     response_headers = [], r_out = []\<rparr>"

definition resp_write :: "byte list \<Rightarrow> resp \<Rightarrow> resp" where
  "resp_write bs r = r\<lparr>r_out := r_out r @ bs\<rparr>"

text \<open>\<open>("\r\n".join(header_lines) + "\r\n\r\n").encode("latin1")\<close>\<close>

definition head_block :: "byte list \<Rightarrow> headers \<Rightarrow> byte list" where
  "head_block status hs =
     join crlf ((ascii ''HTTP/1.1 '' @ status) # map (\<lambda>(k, v). k @ ascii '': '' @ v) hs) @ crlf @ crlf"

definition resp_headers :: "resp \<Rightarrow> resp" where
  "resp_headers r =
     (let has_cl = has_header ''content-length'' (response_headers r);
          has_te = has_header ''transfer-encoding'' (response_headers r);
          r = r\<lparr>headers_sent := True\<rparr>;
          r = (if \<not> has_cl \<and> \<not> has_te then
                 r\<lparr>response_headers := response_headers r @ [(ascii ''transfer-encoding'', ascii ''chunked'')],
                   is_chunked := True\<rparr> else r);
          r = r\<lparr>response_headers := response_headers r @ [(ascii ''connection'', ascii ''close'')]\<rparr>
      in resp_write (head_block (active_status r) (response_headers r)) r)"

definition resp_data :: "byte list \<Rightarrow> resp \<Rightarrow> resp" where
  "resp_data chunk r =
     (let r = (if \<not> headers_sent r then resp_headers r else r)
      in resp_write (if is_chunked r then chunk_frame chunk else chunk) r)"

definition resp_error :: "resp \<Rightarrow> resp" where
  "resp_error r =
     (if \<not> headers_sent r then
        resp_write (ascii ''HTTP/1.1 500 Internal Server Error'' @ crlf @ ascii ''content-type: text/plain'' @
            crlf @ ascii ''content-length: 21'' @ crlf @ ascii ''connection: close'' @ crlf @ crlf @
            ascii ''Internal Server Error'') (r\<lparr>headers_sent := True\<rparr>)
      else r)"

definition resp_end :: "resp \<Rightarrow> resp" where
  "resp_end r =
     (if \<not> headers_sent r then
        (let r = r\<lparr>headers_sent := True\<rparr>;
             r = (if \<not> has_header ''content-length'' (response_headers r) then
                    r\<lparr>response_headers := response_headers r @ [(ascii ''content-length'', ascii ''0'')]\<rparr>
                  else r);
             r = r\<lparr>response_headers := response_headers r @ [(ascii ''connection'', ascii ''close'')]\<rparr>
         in resp_write (head_block (active_status r) (response_headers r)) r)
      else if is_chunked r then resp_write chunk_end r
      else r)"

text \<open>
  The loop over the channel, with for each message whether \<open>writer.is_closing()\<close>; a failing
  \<open>drain\<close> ends it as well, after the write.
\<close>

fun resp_loop :: "(message \<times> bool) list \<Rightarrow> resp \<Rightarrow> resp" where
  "resp_loop [] r = r"
| "resp_loop ((m, closing) # ms) r =
     (if closing then r
      else
        (case m of
           START status hs \<Rightarrow> resp_loop ms (r\<lparr>active_status := status, response_headers := hs\<rparr>)
         | DATA chunk \<Rightarrow> resp_loop ms (resp_data chunk r)
         | ERROR \<Rightarrow> resp_error r
         | END \<Rightarrow> resp_end r))"

definition wsgi_response :: "app_step list \<Rightarrow> byte list" where
  "wsgi_response app = r_out (resp_loop (map (\<lambda>m. (m, False)) (run_wsgi False app)) resp_new)"

section \<open>What a client receives\<close>

lemma run_wsgi_yields:
  "run_wsgi hset (map Yield ds) = map DATA (filter (\<lambda>d. d \<noteq> []) ds) @ [END]"
  by (induction ds) auto

lemma run_wsgi_raise:
  "run_wsgi hset (map Yield ds @ [Raise]) = map DATA (filter (\<lambda>d. d \<noteq> []) ds) @ [ERROR, END]"
  by (induction ds) auto

lemma resp_loop_chunked:
  "headers_sent r \<Longrightarrow> is_chunked r \<Longrightarrow>
   resp_loop (map (\<lambda>m. (m, False)) (map DATA ds @ ms)) r =
     resp_loop (map (\<lambda>m. (m, False)) ms) (resp_write (concat (map chunk_frame ds)) r)"
proof (induction ds arbitrary: r)
  case (Cons d ds)
  then show ?case by (simp add: resp_data_def) (simp add: resp_write_def)
qed (simp add: resp_write_def)

definition plain :: "headers \<Rightarrow> bool" where
  "plain hs \<longleftrightarrow> \<not> has_header ''content-length'' hs \<and> \<not> has_header ''transfer-encoding'' hs"

definition streamed_head :: "byte list \<Rightarrow> headers \<Rightarrow> byte list" where
  "streamed_head status hs =
     head_block status (hs @ [(ascii ''transfer-encoding'', ascii ''chunked''), (ascii ''connection'', ascii ''close'')])"

lemma resp_first_data:
  "plain hs \<Longrightarrow> resp_data d (resp_new\<lparr>active_status := st, response_headers := hs\<rparr>) =
     \<lparr>headers_sent = True, is_chunked = True, active_status = st,
      response_headers = hs @ [(ascii ''transfer-encoding'', ascii ''chunked''), (ascii ''connection'', ascii ''close'')],
      r_out = streamed_head st hs @ chunk_frame d\<rparr>"
  by (simp add: plain_def resp_data_def resp_headers_def resp_new_def resp_write_def streamed_head_def)

lemma resp_stream:
  assumes "plain hs" and "ds \<noteq> []"
  shows "resp_loop (map (\<lambda>m. (m, False)) (START st hs # map DATA ds @ ms)) resp_new =
    resp_loop (map (\<lambda>m. (m, False)) ms)
      \<lparr>headers_sent = True, is_chunked = True, active_status = st,
       response_headers = hs @ [(ascii ''transfer-encoding'', ascii ''chunked''), (ascii ''connection'', ascii ''close'')],
       r_out = streamed_head st hs @ concat (map chunk_frame ds)\<rparr>"
proof (cases ds)
  case (Cons d ds')
  then show ?thesis
    using resp_loop_chunked [of "resp_data d (resp_new\<lparr>active_status := st, response_headers := hs\<rparr>)" ds' ms]
    by (simp add: resp_first_data [OF assms(1)] resp_write_def)
qed (use assms in simp)

text \<open>A chunked body that breaks off is not a complete body.\<close>

lemma concat_filter_ne: "concat (filter (\<lambda>d. d \<noteq> []) ds) = concat ds"
  by (induction ds) auto

lemma filter_ne: "concat ds \<noteq> [] \<Longrightarrow> filter (\<lambda>d. d \<noteq> []) ds \<noteq> []"
  using concat_filter_ne [of ds] by (metis concat.simps(1))

lemma read_chunked_cut:
  assumes "buf @ delivered net = concat (map chunk_frame ds)" and "\<forall>d \<in> set ds. d \<noteq> []"
  shows "\<exists>e. read_chunked m net buf body = Inl e"
  using assms
proof (induction ds arbitrary: net buf body)
  case Nil
  then have "buf = []" "delivered net = []" by auto
  then have "cr_line net buf = None"
    using net_read_delivered [of 4096 net] by (cases "net_read 4096 net") (auto simp: cr_line.simps split: if_splits)
  then show ?case by (simp add: read_chunked.simps)
next
  case (Cons d ds)
  from read_chunked_frame [of buf net d "concat (map chunk_frame ds)" m body] Cons.prems
  obtain buf' net' where n: "buf' @ delivered net' = concat (map chunk_frame ds)"
    "read_chunked m net buf body = (if length body + length d > m then Inl (ValueError ''Payload Too Large'')
      else read_chunked m net' buf' (body @ d))" by auto
  show ?case unfolding n(2) using Cons.IH [OF n(1)] Cons.prems(2) by auto
qed

section \<open>Properties\<close>

text \<open>
  A streamed response arrives whole.  When an application starts a response without a
  length and yields pieces, not all empty, the client receives one head, followed by a
  chunked body which decodes, over any segmentation, to the concatenation of the pieces.
\<close>

theorem wsgi_stream_delivery:
  assumes "plain hs" and "concat ds \<noteq> []" and "length (concat ds) \<le> m"
    and "streamed_head st hs @ buf @ delivered net = wsgi_response (Start st hs # map Yield ds)"
  shows "read_chunked m net buf [] = Inr (concat ds)"
proof -
  let ?ds = "filter (\<lambda>d. d \<noteq> []) ds"
  have ne: "?ds \<noteq> []" using assms(2) by (rule filter_ne)
  have c: "concat ?ds = concat ds" by (rule concat_filter_ne)
  have "wsgi_response (Start st hs # map Yield ds) =
      streamed_head st hs @ concat (map chunk_frame ?ds) @ chunk_end"
    using resp_stream [OF assms(1) ne, of st "[END]"]
    by (simp add: wsgi_response_def start_response_def run_wsgi_yields resp_end_def resp_write_def)
  with assms(4) have "buf @ delivered net = concat (map chunk_frame ?ds) @ chunk_end @ []" by simp
  from read_chunked_frames [OF this, of m "[]"] c assms(3) show ?thesis by (simp split: if_splits)
qed

theorem wsgi_stream_delivery_witness:
  "read_chunked 10 [] (chunk_frame [72] @ chunk_frame [105] @ chunk_end) [] = Inr [72, 105]"
proof -
  have p: "plain []" by (simp add: plain_def has_header_def)
  have "streamed_head [] [] @ (chunk_frame [72] @ chunk_frame [105] @ chunk_end) @ delivered [] =
      wsgi_response (Start [] [] # map Yield [[72], [], [105]])"
    using resp_stream [OF p, of "[[72], [105]]" "[]" "[END]"]
    by (simp add: wsgi_response_def start_response_def resp_end_def resp_write_def)
  from wsgi_stream_delivery [OF p _ _ this, of 10] show ?thesis by simp
qed

text \<open>
  A failed response is never taken for a complete one.  If the application raises before
  any data, the client gets the 500 response and nothing else; if it raises after some data
  of a streamed response, the body the client receives does not decode, as the terminating
  chunk is missing.
\<close>

theorem wsgi_failure_visible:
  assumes "plain hs"
  shows "if concat ds = [] then wsgi_response (Start st hs # map Yield ds @ [Raise]) = r_out (resp_error resp_new)
    else \<exists>body. wsgi_response (Start st hs # map Yield ds @ [Raise]) = streamed_head st hs @ body \<and>
      (\<forall>m net buf. buf @ delivered net = body \<longrightarrow> (\<exists>e. read_chunked m net buf [] = Inl e))"
proof -
  let ?ds = "filter (\<lambda>d. d \<noteq> []) ds"
  have c: "concat ?ds = concat ds" by (rule concat_filter_ne)
  have run: "wsgi_response (Start st hs # map Yield ds @ [Raise]) =
      r_out (resp_loop (map (\<lambda>m. (m, False)) (START st hs # map DATA ?ds @ [ERROR, END])) resp_new)"
    by (simp add: wsgi_response_def start_response_def run_wsgi_raise)
  show ?thesis
  proof (cases "?ds = []")
    case True
    then have "concat ds = []" using c by (metis concat.simps(1))
    moreover have "r_out (resp_loop (map (\<lambda>m. (m, False)) (START st hs # map DATA [] @ [ERROR, END])) resp_new) =
        r_out (resp_error resp_new)"
      by (simp add: resp_error_def resp_new_def resp_write_def)
    ultimately show ?thesis unfolding run True by (simp only: if_True refl)
  next
    case False
    then have "concat ds \<noteq> []" unfolding concat_eq_Nil_conv filter_empty_conv by auto
    moreover have "wsgi_response (Start st hs # map Yield ds @ [Raise]) =
        streamed_head st hs @ concat (map chunk_frame ?ds)"
      unfolding run resp_stream [OF assms False, of st "[ERROR, END]"]
      by (simp add: resp_error_def resp_write_def)
    moreover have "\<forall>m net buf. buf @ delivered net = concat (map chunk_frame ?ds) \<longrightarrow>
        (\<exists>e. read_chunked m net buf [] = Inl e)"
      by (intro allI impI read_chunked_cut [where ds = ?ds]) auto
    ultimately show ?thesis by (simp only: if_False) blast
  qed
qed

theorem wsgi_failure_visible_witness:
  "\<exists>body. wsgi_response [Start [] [], Yield [72], Raise] = streamed_head [] [] @ body \<and>
    (\<exists>e. read_chunked 10 [] body [] = Inl e)"
proof -
  have "plain []" by (simp add: plain_def has_header_def)
  from wsgi_failure_visible [OF this, of "[[72]]" "[]"] obtain body where
    "wsgi_response [Start [] [], Yield [72], Raise] = streamed_head [] [] @ body"
    "\<forall>m net buf. buf @ delivered net = body \<longrightarrow> (\<exists>e. read_chunked m net buf [] = Inl e)" by auto
  moreover have "body @ delivered [] = body" by simp
  ultimately show ?thesis by blast
qed

text \<open>
  The number of running requests is bounded.  In every reachable state the counter is the
  number of connections being served, and these are never more than three times the worker
  threads; a connection beyond that is refused with 503.
\<close>

theorem wsgi_admission_bound:
  assumes "admission_start s0" and "reach admission_step s0 s"
  shows "a_count s = card (a_running s) \<and> card (a_running s) \<le> a_workers s * 3 \<and>
    (wsgi_admit (a_workers s) (a_count s) = None \<longleftrightarrow> card (a_running s) = a_workers s * 3)"
  using admission.inv_reach [OF assms(2,1)] by (auto simp: admission_inv_def wsgi_admit_def)

theorem wsgi_admission_bound_witness:
  "wsgi_admit (wsgi_workers (Some 1) None) 12 = None \<and> card {5::nat} \<le> 12"
proof -
  let ?s = "\<lparr>a_workers = wsgi_workers (Some 1) None, a_count = 0, a_running = {}\<rparr>"
  have st: "admission_start ?s" by (auto simp: admission_start_def)
  have "admission_step ?s (?s\<lparr>a_count := 1, a_running := insert 5 (a_running ?s)\<rparr>)"
    by (rule admission_step.conn_enter) (simp_all add: wsgi_admit_def wsgi_workers_def)
  from wsgi_admission_bound [OF st reach_one [where step = admission_step, OF this]] show ?thesis
    by (simp add: wsgi_workers_def wsgi_admit_def)
qed

text \<open>
  An application that announces \<open>Transfer-Encoding\<close> itself and then sends no data gets a
  response head with both \<open>Transfer-Encoding\<close> and \<open>Content-Length\<close>, as the branch for an
  empty response looks for the length only.
\<close>

theorem wsgi_conflicting_framing:
  "wsgi_response [Start st [(ascii ''Transfer-Encoding'', v)]] =
     head_block st [(ascii ''Transfer-Encoding'', v), (ascii ''content-length'', ascii ''0''),
       (ascii ''connection'', ascii ''close'')]"
  by (simp add: wsgi_response_def start_response_def resp_new_def resp_end_def resp_write_def has_header_def
      str_lower_def ascii_def)

end
