(* ===== verification/Cancel.thy ===== *)
theory Cancel
  imports PyFloat
begin

text \<open>
  \<open>multiloop._cancel\<close>: \<open>CancelScope\<close> with its deadline, its shield and the ledger of
  cancellations it has injected into its task, the entry and exit protocol, \<open>checkpoint\<close>,
  \<open>current_effective_deadline\<close>, and what of \<open>asyncio.Task\<close> they use.
\<close>

section \<open>Tasks\<close>

text \<open>
  \<open>asyncio.Task\<close>: the number of cancellation requests, \<open>_must_cancel\<close>, and whether the task
  is suspended on a future, which \<open>cancel()\<close> then cancels (\<open>t_thrown\<close>).
\<close>

record host =
  t_cancelling :: nat
  t_must_cancel :: bool
  t_waiting :: bool
  t_thrown :: bool
  t_done :: bool

definition task_cancel :: "host \<Rightarrow> bool \<times> host" where
  "task_cancel h =
     (if t_done h then (False, h)
      else
        (let h = h\<lparr>t_cancelling := t_cancelling h + 1\<rparr>
         in if t_waiting h then (True, h\<lparr>t_waiting := False, t_thrown := True\<rparr>)
            else (True, h\<lparr>t_must_cancel := True\<rparr>)))"

definition task_uncancel :: "host \<Rightarrow> host" where
  "task_uncancel h =
     (if t_cancelling h > 0 then
        (let h = h\<lparr>t_cancelling := t_cancelling h - 1\<rparr>
         in if t_cancelling h = 0 then h\<lparr>t_must_cancel := False\<rparr> else h)
      else h)"

definition task_cancels :: "nat \<Rightarrow> host \<Rightarrow> host" where
  "task_cancels n = ((\<lambda>h. snd (task_cancel h)) ^^ n)"

definition task_uncancels :: "nat \<Rightarrow> host \<Rightarrow> host" where
  "task_uncancels n = (task_uncancel ^^ n)"

text \<open>The task will be sent a \<open>CancelledError\<close>.\<close>

definition interrupted :: "host \<Rightarrow> bool" where
  "interrupted h \<longleftrightarrow> t_must_cancel h \<or> t_thrown h"

section \<open>Scopes\<close>

text \<open>\<open>_loop\<close> is set and cleared with \<open>_task\<close> and is the loop of that task.\<close>

record scope =
  cancel_called :: bool
  deadline :: pyfloat
  shield :: bool
  cancelled_caught :: bool
  convert_to_timeout :: bool
  c_task :: "task option"
  deadline_handle :: bool
  saved_cancel_count :: nat
  injected :: bool

definition deadline_ok :: "pyfloat \<Rightarrow> bool" where
  "deadline_ok d \<longleftrightarrow> (case d of Fin r \<Rightarrow> True | PosInf \<Rightarrow> True | _ \<Rightarrow> False)"

definition scope_new :: "pyfloat \<Rightarrow> bool \<Rightarrow> error + scope" where
  "scope_new d sh =
     (if \<not> deadline_ok d then Inl (ValueError ''deadline must be a finite number or float(inf)'')
      else Inr \<lparr>cancel_called = False, deadline = d, shield = sh, cancelled_caught = False,
        convert_to_timeout = False, c_task = None, deadline_handle = False, saved_cancel_count = 0,
        injected = False\<rparr>)"

definition fail_at :: "pyfloat \<Rightarrow> error + scope" where
  "fail_at d = (case scope_new d False of Inl e \<Rightarrow> Inl e | Inr s \<Rightarrow> Inr (s\<lparr>convert_to_timeout := True\<rparr>))"

definition move_on_at :: "pyfloat \<Rightarrow> error + scope" where
  "move_on_at d = (case scope_new d False of Inl e \<Rightarrow> Inl e | Inr s \<Rightarrow> Inr (s\<lparr>cancelled_caught := True\<rparr>))"

text \<open>\<open>loop.time() + seconds\<close> is rounded by \<open>rnd\<close>.\<close>

definition fail_after :: "(rat \<Rightarrow> rat) \<Rightarrow> rat \<Rightarrow> rat \<Rightarrow> error + scope" where
  "fail_after rnd now seconds = fail_at (Fin (rnd (now + seconds)))"

definition move_on_after :: "(rat \<Rightarrow> rat) \<Rightarrow> rat \<Rightarrow> rat \<Rightarrow> error + scope" where
  "move_on_after rnd now seconds = move_on_at (Fin (rnd (now + seconds)))"

text \<open>
  The state an operation sees: all scopes, all tasks, and the scope stack of the current
  context (a tuple, innermost last).
\<close>

type_synonym sid = nat

record cstate =
  scopes :: "sid \<Rightarrow> scope"
  hosts :: "task \<Rightarrow> host"
  stack :: "sid list"

definition upd_scope :: "sid \<Rightarrow> (scope \<Rightarrow> scope) \<Rightarrow> cstate \<Rightarrow> cstate" where
  "upd_scope i f c = c\<lparr>scopes := (scopes c)(i := f (scopes c i))\<rparr>"

definition upd_host :: "task \<Rightarrow> (host \<Rightarrow> host) \<Rightarrow> cstate \<Rightarrow> cstate" where
  "upd_host t f c = c\<lparr>hosts := (hosts c)(t := f (hosts c t))\<rparr>"

lemma upd_simps [simp]:
  "scopes (upd_scope i f c) = (scopes c)(i := f (scopes c i))" "hosts (upd_scope i f c) = hosts c"
  "stack (upd_scope i f c) = stack c"
  "scopes (upd_host t g c) = scopes c" "hosts (upd_host t g c) = (hosts c)(t := g (hosts c t))"
  "stack (upd_host t g c) = stack c"
  by (simp_all add: upd_scope_def upd_host_def)

section \<open>Cancellation\<close>

text \<open>
  \<open>_deliver\<close>, run on the loop of the task \<open>t\<close> that hosted the scope when \<open>cancel\<close> was called;
  the branch of \<open>cancel\<close> on that loop itself is the same.
\<close>

definition scope_deliver :: "sid \<Rightarrow> task \<Rightarrow> cstate \<Rightarrow> cstate" where
  "scope_deliver i t c =
     (if c_task (scopes c i) \<noteq> Some t then c
      else
        (let (ok, h) = task_cancel (hosts c t)
         in if ok then upd_scope i (\<lambda>s. s\<lparr>injected := True\<rparr>) (upd_host t (\<lambda>_. h) c) else c))"

text \<open>
  \<open>cancel\<close>: the flag says that the caller runs on the loop of the scope; otherwise the task
  of the result is the one \<open>_deliver\<close> has been scheduled for.
\<close>

definition scope_cancel :: "bool \<Rightarrow> sid \<Rightarrow> cstate \<Rightarrow> task option \<times> cstate" where
  "scope_cancel same_loop i c =
     (if cancel_called (scopes c i) then (None, c)
      else
        (let c = upd_scope i (\<lambda>s. s\<lparr>cancel_called := True\<rparr>) c
         in case c_task (scopes c i) of
              Some t \<Rightarrow>
                if \<not> t_done (hosts c t) then
                  (if same_loop then (None, scope_deliver i t c) else (Some t, c))
                else (None, c)
            | None \<Rightarrow> (None, c)))"

definition take_injected :: "sid \<Rightarrow> cstate \<Rightarrow> bool \<times> cstate" where
  "take_injected i c = (injected (scopes c i), upd_scope i (\<lambda>s. s\<lparr>injected := False\<rparr>) c)"

text \<open>The loop of \<open>_effectively_cancelled\<close> over the enclosing scopes, innermost first.\<close>

fun outer_cancelled :: "(sid \<Rightarrow> scope) \<Rightarrow> sid list \<Rightarrow> bool" where
  "outer_cancelled sc [] = False"
| "outer_cancelled sc (i # is) =
     (if cancel_called (sc i) then True else if shield (sc i) then False else outer_cancelled sc is)"

definition effectively_cancelled :: "sid \<Rightarrow> cstate \<Rightarrow> bool" where
  "effectively_cancelled i c =
     (if cancel_called (scopes c i) then True
      else if shield (scopes c i) then False
      else if i \<notin> set (stack c) then False
      else outer_cancelled (scopes c) (rev (takeWhile (\<lambda>j. j \<noteq> i) (stack c))))"

definition deadline_callback :: "sid \<Rightarrow> cstate \<Rightarrow> cstate" where
  "deadline_callback i c = snd (scope_cancel True i (upd_scope i (\<lambda>s. s\<lparr>deadline_handle := False\<rparr>) c))"

section \<open>Entering and leaving\<close>

definition pop_scope :: "sid \<Rightarrow> sid list \<Rightarrow> sid list" where
  "pop_scope i st = (if st \<noteq> [] \<and> last st = i then butlast st else filter (\<lambda>j. j \<noteq> i) st)"

definition rollback_aenter :: "sid \<Rightarrow> cstate \<Rightarrow> cstate" where
  "rollback_aenter i c =
     (upd_scope i (\<lambda>s. s\<lparr>deadline_handle := False, c_task := None\<rparr>) c)\<lparr>stack := pop_scope i (stack c)\<rparr>"

definition restore_saved :: "sid \<Rightarrow> task option \<Rightarrow> cstate \<Rightarrow> cstate" where
  "restore_saved i target c =
     (let s = scopes c i in
      if \<not> shield s \<or> saved_cancel_count s = 0 then c
      else
        (let target = (case target of None \<Rightarrow> c_task s | Some t \<Rightarrow> Some t);
             c = upd_scope i (\<lambda>s. s\<lparr>saved_cancel_count := 0\<rparr>) c
         in case target of Some t \<Rightarrow> upd_host t (task_cancels (saved_cancel_count s)) c | None \<Rightarrow> c))"

text \<open>The absorbing branch of \<open>__aenter__\<close>: cancel the host at its next suspension.\<close>

definition inject_on_entry :: "sid \<Rightarrow> task \<Rightarrow> cstate \<Rightarrow> cstate" where
  "inject_on_entry i t c =
     (let (ok, h) = task_cancel (hosts c t); c = upd_host t (\<lambda>_. h) c
      in if ok then upd_scope i (\<lambda>s. s\<lparr>injected := True\<rparr>) c else c)"

text \<open>The first part: take the scope for the host, shield, push.\<close>

definition aenter_push :: "sid \<Rightarrow> task \<Rightarrow> cstate \<Rightarrow> cstate" where
  "aenter_push i t c =
     (let n = t_cancelling (hosts c t);
          c = upd_scope i (\<lambda>s. s\<lparr>c_task := Some t, injected := False\<rparr>) c;
          c = (if shield (scopes c i) then
                 upd_host t (task_uncancels n) (upd_scope i (\<lambda>s. s\<lparr>saved_cancel_count := n\<rparr>) c)
               else c)
      in c\<lparr>stack := stack c @ [i]\<rparr>)"

text \<open>The second: an expired deadline; \<open>None\<close> goes on to the third.\<close>

definition expired :: "rat \<Rightarrow> pyfloat \<Rightarrow> bool" where
  "expired now d \<longleftrightarrow> (case d of Fin r \<Rightarrow> r \<le> now | _ \<Rightarrow> False)"

definition aenter_deadline :: "sid \<Rightarrow> task \<Rightarrow> rat \<Rightarrow> cstate \<Rightarrow> (error option \<times> cstate) option \<times> cstate" where
  "aenter_deadline i t now c =
     (if deadline (scopes c i) \<noteq> PosInf then
        (if expired now (deadline (scopes c i)) then
           (let c = upd_scope i (\<lambda>s. s\<lparr>cancel_called := True\<rparr>) c in
            if convert_to_timeout (scopes c i) then
              (Some (Some (TimeoutError []), rollback_aenter i (restore_saved i None c)), c)
            else if cancelled_caught (scopes c i) then (Some (None, inject_on_entry i t c), c)
            else (Some (Some CancelledError, rollback_aenter i (restore_saved i None c)), c))
         else (None, upd_scope i (\<lambda>s. s\<lparr>deadline_handle := True\<rparr>) c))
      else (None, c))"

text \<open>The third: the scope, or an enclosing one, has been cancelled already.\<close>

definition aenter_check :: "sid \<Rightarrow> task \<Rightarrow> cstate \<Rightarrow> error option \<times> cstate" where
  "aenter_check i t c =
     (if effectively_cancelled i c then
        (if cancel_called (scopes c i) \<and> convert_to_timeout (scopes c i) then
           (Some (TimeoutError []), rollback_aenter i (restore_saved i None c))
         else if cancel_called (scopes c i) \<and> cancelled_caught (scopes c i) then
           (None, inject_on_entry i t c)
         else
           (let c = (if \<not> shield (scopes c i) then
                       upd_host t (task_uncancels (t_cancelling (hosts c t))) c else c)
            in (Some CancelledError, rollback_aenter i (restore_saved i None c))))
      else (None, c))"

definition scope_aenter :: "task option \<Rightarrow> rat \<Rightarrow> sid \<Rightarrow> cstate \<Rightarrow> error option \<times> cstate" where
  "scope_aenter current now i c =
     (case current of
        None \<Rightarrow> (Some (RuntimeError ''CancelScope must be used inside an active asyncio task''), c)
      | Some t \<Rightarrow>
          if c_task (scopes c i) \<noteq> None \<and> c_task (scopes c i) \<noteq> Some t then
            (Some (RuntimeError ''CancelScope cannot be shared across tasks: already entered by another task''), c)
          else
            (case aenter_deadline i t now (aenter_push i t c) of
               (Some r, _) \<Rightarrow> r
             | (None, c) \<Rightarrow> aenter_check i t c))"

text \<open>
  \<open>__aexit__\<close>: how the block ended, and what leaves the \<open>async with\<close>: \<open>Swallowed\<close> is a true
  result, \<open>Left None\<close> a normal end, \<open>Left (Some e)\<close> an exception.
\<close>

datatype left = Swallowed | Left "error option"

definition uncancel_injected :: "task option \<Rightarrow> bool \<Rightarrow> cstate \<Rightarrow> cstate" where
  "uncancel_injected task was_injected c =
     (case task of
        Some t \<Rightarrow> if was_injected \<and> t_cancelling (hosts c t) > 0 then upd_host t task_uncancel c else c
      | None \<Rightarrow> c)"

definition scope_aexit :: "error option \<Rightarrow> sid \<Rightarrow> cstate \<Rightarrow> left \<times> cstate" where
  "scope_aexit exc i c =
     (let task = c_task (scopes c i); was_injected = injected (scopes c i);
          c = upd_scope i (\<lambda>s. s\<lparr>injected := False, c_task := None, deadline_handle := False\<rparr>) c;
          c = restore_saved i task c;
          s = scopes c i;
          (r, c) =
            (if exc = Some CancelledError \<and> convert_to_timeout s \<and> cancel_called s then
               (Left (Some (TimeoutError [])), uncancel_injected task was_injected c)
             else if cancelled_caught s \<and> cancel_called s then
               (if exc = Some CancelledError then Swallowed else Left exc, uncancel_injected task was_injected c)
             else if cancel_called s \<and> exc \<noteq> Some CancelledError then
               (Left exc, uncancel_injected task was_injected c)
             else (Left exc, c))
      in (r, c\<lparr>stack := pop_scope i (stack c)\<rparr>))"

section \<open>Setters, checkpoints, deadlines\<close>

text \<open>
  The \<open>deadline\<close> setter: the armed timer is dropped, and \<open>_schedule\<close> is to run on the loop of
  the task in the result.
\<close>

definition set_deadline :: "pyfloat \<Rightarrow> sid \<Rightarrow> cstate \<Rightarrow> (error + task option) \<times> cstate" where
  "set_deadline v i c =
     (if \<not> deadline_ok v then (Inl (ValueError ''deadline must be a finite number or float(inf)''), c)
      else
        (let c = upd_scope i (\<lambda>s. s\<lparr>deadline := v, deadline_handle := False\<rparr>) c
         in case c_task (scopes c i) of
              Some t \<Rightarrow> (Inr (if t_done (hosts c t) \<or> v = PosInf then None else Some t), c)
            | None \<Rightarrow> (Inr None, c)))"

definition schedule_deadline :: "pyfloat \<Rightarrow> task \<Rightarrow> rat \<Rightarrow> sid \<Rightarrow> cstate \<Rightarrow> cstate" where
  "schedule_deadline v t now i c =
     (let s = scopes c i in
      if c_task s \<noteq> Some t \<or> deadline s \<noteq> v \<or> cancel_called s then c
      else if expired now v then snd (scope_cancel True i c)
      else upd_scope i (\<lambda>s. s\<lparr>deadline_handle := True\<rparr>) c)"

text \<open>The \<open>shield\<close> setter, and \<open>_apply_shield\<close> on the loop of the task.\<close>

definition set_shield :: "bool \<Rightarrow> sid \<Rightarrow> cstate \<Rightarrow> task option \<times> cstate" where
  "set_shield v i c =
     (if shield (scopes c i) = v then (None, c)
      else
        (let c = upd_scope i (\<lambda>s. s\<lparr>shield := v\<rparr>) c
         in case c_task (scopes c i) of
              Some t \<Rightarrow> (if t_done (hosts c t) then None else Some t, c)
            | None \<Rightarrow> (None, c)))"

definition apply_shield :: "bool \<Rightarrow> task \<Rightarrow> sid \<Rightarrow> cstate \<Rightarrow> cstate" where
  "apply_shield v t i c =
     (if c_task (scopes c i) \<noteq> Some t \<or> t_done (hosts c t) then c
      else if v then
        (let n = t_cancelling (hosts c t)
         in upd_scope i (\<lambda>s. s\<lparr>saved_cancel_count := saved_cancel_count s + n\<rparr>)
              (upd_host t (task_uncancels n) c))
      else
        (let saved = saved_cancel_count (scopes c i)
         in upd_host t (task_cancels saved) (upd_scope i (\<lambda>s. s\<lparr>saved_cancel_count := 0\<rparr>) c)))"

definition checkpoint :: "task option \<Rightarrow> cstate \<Rightarrow> error option \<times> cstate" where
  "checkpoint current c =
     (if stack c = [] then (None, c)
      else if effectively_cancelled (last (stack c)) c then
        (Some CancelledError,
         case current of
           Some t \<Rightarrow> upd_host t (task_uncancels (t_cancelling (hosts c t))) c
         | None \<Rightarrow> c)
      else (None, c))"

fun tightest :: "(sid \<Rightarrow> scope) \<Rightarrow> sid list \<Rightarrow> pyfloat \<Rightarrow> pyfloat" where
  "tightest sc [] d = d"
| "tightest sc (i # is) d =
     (let d = float_min d (deadline (sc i)) in if shield (sc i) then d else tightest sc is d)"

definition current_effective_deadline :: "cstate \<Rightarrow> pyfloat" where
  "current_effective_deadline c = tightest (scopes c) (rev (stack c)) PosInf"

section \<open>Lemmas\<close>

lemma task_cancel_simps [simp]:
  "t_done (snd (task_cancel h)) = t_done h"
  "fst (task_cancel h) \<longleftrightarrow> \<not> t_done h"
  "t_cancelling (snd (task_cancel h)) = (if t_done h then t_cancelling h else t_cancelling h + 1)"
  by (simp_all add: task_cancel_def Let_def)

lemma interrupted_cancel: "\<not> t_done h \<Longrightarrow> interrupted (snd (task_cancel h))"
  by (simp add: task_cancel_def interrupted_def Let_def)

lemma task_uncancel_simps [simp]:
  "t_done (task_uncancel h) = t_done h" "t_cancelling (task_uncancel h) = t_cancelling h - 1"
  by (simp_all add: task_uncancel_def Let_def)

lemma task_cancels_simps [simp]:
  "t_done (task_cancels n h) = t_done h"
  "\<not> t_done h \<Longrightarrow> t_cancelling (task_cancels n h) = t_cancelling h + n"
  by (induction n) (simp_all add: task_cancels_def)

lemma interrupted_cancels: "\<not> t_done h \<Longrightarrow> n > 0 \<Longrightarrow> interrupted (task_cancels n h)"
  using interrupted_cancel [of "task_cancels (n - 1) h"]
  by (cases n) (simp_all add: task_cancels_def, simp add: task_cancels_def [symmetric])

lemma task_uncancels_simps [simp]:
  "t_done (task_uncancels n h) = t_done h"
  "t_cancelling (task_uncancels n h) = t_cancelling h - n"
  by (induction n) (simp_all add: task_uncancels_def)

lemma pop_scope_push [simp]: "pop_scope i (st @ [i]) = st"
  by (simp add: pop_scope_def)

lemma restore_saved_simps [simp]:
  "stack (restore_saved i t c) = stack c"
  "cancel_called (scopes (restore_saved i t c) j) = cancel_called (scopes c j)"
  "injected (scopes (restore_saved i t c) j) = injected (scopes c j)"
  "cancelled_caught (scopes (restore_saved i t c) j) = cancelled_caught (scopes c j)"
  "convert_to_timeout (scopes (restore_saved i t c) j) = convert_to_timeout (scopes c j)"
  "shield (scopes (restore_saved i t c) j) = shield (scopes c j)"
  by (simp_all add: restore_saved_def Let_def split: option.splits)

text \<open>An entry that finds nothing wrong.\<close>

definition clear_entry :: "task \<Rightarrow> rat \<Rightarrow> sid \<Rightarrow> cstate \<Rightarrow> bool" where
  "clear_entry t now i c \<longleftrightarrow> c_task (scopes c i) = None \<and> i \<notin> set (stack c) \<and>
     \<not> cancel_called (scopes c i) \<and> \<not> expired now (deadline (scopes c i)) \<and>
     (shield (scopes c i) \<or> \<not> outer_cancelled (scopes c) (rev (stack c)))"

lemma outer_cancelled_cong:
  "(\<And>j. j \<in> set is \<Longrightarrow> sc j = sc' j) \<Longrightarrow> outer_cancelled sc is = outer_cancelled sc' is"
  by (induction "is") auto

lemma aenter_clear:
  assumes "clear_entry t now i c"
  shows "scope_aenter (Some t) now i c =
    (None, (upd_host t (task_uncancels (if shield (scopes c i) then t_cancelling (hosts c t) else 0))
      (upd_scope i (\<lambda>s. s\<lparr>c_task := Some t, injected := False,
         saved_cancel_count := if shield s then t_cancelling (hosts c t) else saved_cancel_count s,
         deadline_handle := if deadline s \<noteq> PosInf then True else deadline_handle s\<rparr>) c))
      \<lparr>stack := stack c @ [i]\<rparr>)"
proof -
  let ?c = "aenter_push i t c"
  have tw: "takeWhile (\<lambda>j. j \<noteq> i) (stack c @ [i]) = stack c"
    using assms by (subst takeWhile_append2) (auto simp: clear_entry_def)
  have oc: "outer_cancelled ((scopes c)(i := s)) (rev (stack c)) = outer_cancelled (scopes c) (rev (stack c))" for s
    using assms by (intro outer_cancelled_cong) (auto simp: clear_entry_def)
  have z: "task_uncancels 0 = (\<lambda>h. h)" by (simp add: task_uncancels_def fun_eq_iff)
  show ?thesis using assms
    by (auto simp: scope_aenter_def aenter_deadline_def aenter_check_def aenter_push_def clear_entry_def
        effectively_cancelled_def tw oc z Let_def upd_scope_def upd_host_def)
qed

section \<open>Properties\<close>

text \<open>Two scopes, the outer entered first, in task 0.\<close>

definition plain_scope :: scope where
  "plain_scope = \<lparr>cancel_called = False, deadline = PosInf, shield = False, cancelled_caught = False,
     convert_to_timeout = False, c_task = None, deadline_handle = False, saved_cancel_count = 0,
     injected = False\<rparr>"

definition idle_host :: host where
  "idle_host = \<lparr>t_cancelling = 0, t_must_cancel = False, t_waiting = False, t_thrown = False, t_done = False\<rparr>"

definition cancel_demo :: cstate where
  "cancel_demo = \<lparr>scopes = (\<lambda>_. plain_scope)(1 := plain_scope\<lparr>cancelled_caught := True\<rparr>,
       2 := plain_scope\<lparr>shield := True\<rparr>),
     hosts = (\<lambda>_. idle_host), stack = []\<rparr>"

text \<open>
  C15: the ledger balances.  A scope is entered by a live task, cancelled any number of times
  from its own loop, and left: then the task has exactly the cancellation requests it had on
  entry, whether the scope absorbs the \<open>CancelledError\<close>, converts it, was shielded, or the
  block ended otherwise; the one exception is a plain scope, cancelled, from which the
  \<open>CancelledError\<close> it injected goes on to propagate: then its request stays.  The stack is
  the one on entry.
\<close>

theorem scope_ledger:
  assumes "clear_entry t now i c" and "\<not> t_done (hosts c t)"
    and "scope_aenter (Some t) now i c = (r, c1)"
    and "c2 = ((\<lambda>c. snd (scope_cancel True i c)) ^^ n) c1"
    and "scope_aexit exc i c2 = (res, c3)"
  shows "t_cancelling (hosts c3 t) = t_cancelling (hosts c t) +
      (if n > 0 \<and> exc = Some CancelledError \<and> \<not> cancelled_caught (scopes c i) \<and>
          \<not> convert_to_timeout (scopes c i) then 1 else 0) \<and>
    stack c3 = stack c"
proof -
  have c1: "c1 = (upd_host t (task_uncancels (if shield (scopes c i) then t_cancelling (hosts c t) else 0))
      (upd_scope i (\<lambda>s. s\<lparr>c_task := Some t, injected := False,
         saved_cancel_count := if shield s then t_cancelling (hosts c t) else saved_cancel_count s,
         deadline_handle := if deadline s \<noteq> PosInf then True else deadline_handle s\<rparr>) c))
      \<lparr>stack := stack c @ [i]\<rparr>"
    using aenter_clear [OF assms(1)] assms(3) by simp
  have called: "cancel_called (scopes c1 i) = False" "c_task (scopes c1 i) = Some t"
    "\<not> t_done (hosts c1 t)" "injected (scopes c1 i) = False" "stack c1 = stack c @ [i]"
    "cancelled_caught (scopes c1 i) = cancelled_caught (scopes c i)"
    "convert_to_timeout (scopes c1 i) = convert_to_timeout (scopes c i)"
    "shield (scopes c1 i) = shield (scopes c i)"
    "t_cancelling (hosts c1 t) = (if shield (scopes c i) then 0 else t_cancelling (hosts c t))"
    "shield (scopes c i) \<Longrightarrow> saved_cancel_count (scopes c1 i) = t_cancelling (hosts c t)"
    using assms(1,2) by (simp_all add: c1 clear_entry_def)
  have once: "snd (scope_cancel True i c1) =
      upd_scope i (\<lambda>s. s\<lparr>cancel_called := True, injected := True\<rparr>) (upd_host t (\<lambda>h. snd (task_cancel h)) c1)"
    using called by (simp add: scope_cancel_def scope_deliver_def Let_def split: prod.splits)
      (auto simp: upd_scope_def upd_host_def task_cancel_def Let_def)
  have c2: "c2 = (if n = 0 then c1 else snd (scope_cancel True i c1))"
    unfolding assms(4)
  proof (induction n)
    case (Suc n)
    then show ?case by (cases n) (simp_all add: once, simp add: scope_cancel_def)
  qed simp
  have h2: "t_cancelling (hosts c2 t) = (if shield (scopes c i) then 0 else t_cancelling (hosts c t)) + (if n = 0 then 0 else 1)"
    "\<not> t_done (hosts c2 t)" "c_task (scopes c2 i) = Some t" "stack c2 = stack c @ [i]"
    "injected (scopes c2 i) \<longleftrightarrow> n \<noteq> 0" "cancel_called (scopes c2 i) \<longleftrightarrow> n \<noteq> 0"
    "cancelled_caught (scopes c2 i) = cancelled_caught (scopes c i)"
    "convert_to_timeout (scopes c2 i) = convert_to_timeout (scopes c i)"
    "shield (scopes c2 i) = shield (scopes c i)"
    "shield (scopes c i) \<Longrightarrow> saved_cancel_count (scopes c2 i) = t_cancelling (hosts c t)"
    using called unfolding c2 by (auto simp: once)
  let ?c = "upd_scope i (\<lambda>s. s\<lparr>injected := False, c_task := None, deadline_handle := False\<rparr>) c2"
  have r: "t_cancelling (hosts (restore_saved i (Some t) ?c) t) = t_cancelling (hosts c t) + (if n = 0 then 0 else 1)"
    using h2 by (auto simp: restore_saved_def Let_def)
  have fin: "stack c3 = stack c"
    using assms(5) h2(4) by (auto simp: scope_aexit_def Let_def uncancel_injected_def split: if_splits option.splits)
  have "t_cancelling (hosts c3 t) = t_cancelling (hosts c t) +
      (if n > 0 \<and> exc = Some CancelledError \<and> \<not> cancelled_caught (scopes c i) \<and>
          \<not> convert_to_timeout (scopes c i) then 1 else 0)"
    using assms(5) h2(3,5-8) r
    by (cases "n = 0") (auto simp: scope_aexit_def Let_def uncancel_injected_def split: if_splits)
  with fin show ?thesis by simp
qed


theorem scope_ledger_witness:
  "t_cancelling (hosts (snd (scope_aexit (Some CancelledError) 1
       (snd (scope_cancel True 1 (snd (scope_aenter (Some 0) 0 1 cancel_demo)))))) 0) = 0"
proof -
  have e: "clear_entry 0 0 1 cancel_demo"
    by (simp add: clear_entry_def cancel_demo_def plain_scope_def expired_def)
  have "\<not> t_done (hosts cancel_demo 0)" by (simp add: cancel_demo_def idle_host_def)
  from scope_ledger [OF e this surjective_pairing refl [of "((\<lambda>c. snd (scope_cancel True 1 c)) ^^ 1) _"] surjective_pairing,
      where exc = "Some CancelledError"]
  show ?thesis by (simp add: cancel_demo_def idle_host_def plain_scope_def)
qed

lemma outer_cancelled_iff:
  "outer_cancelled sc is \<longleftrightarrow>
     (\<exists>pre j post. is = pre @ j # post \<and> cancel_called (sc j) \<and> (\<forall>k\<in>set pre. \<not> shield (sc k)))"
proof (induction "is")
  case (Cons i "is")
  show ?case
  proof
    assume o: "outer_cancelled sc (i # is)"
    show "\<exists>pre j post. i # is = pre @ j # post \<and> cancel_called (sc j) \<and> (\<forall>k\<in>set pre. \<not> shield (sc k))"
    proof (cases "cancel_called (sc i)")
      case True
      then show ?thesis by (intro exI [of _ "[]"]) auto
    next
      case False
      then obtain pre j post where "is = pre @ j # post" "cancel_called (sc j)" "\<forall>k\<in>set pre. \<not> shield (sc k)"
        and "\<not> shield (sc i)"
        using o Cons.IH by (auto split: if_splits)
      then show ?thesis by (intro exI [of _ "i # pre"]) auto
    qed
  next
    assume "\<exists>pre j post. i # is = pre @ j # post \<and> cancel_called (sc j) \<and> (\<forall>k\<in>set pre. \<not> shield (sc k))"
    then obtain pre j post where "i # is = pre @ j # post" "cancel_called (sc j)" "\<forall>k\<in>set pre. \<not> shield (sc k)"
      by blast
    then show "outer_cancelled sc (i # is)"
      using Cons.IH by (cases pre) auto
  qed
qed simp

text \<open>
  C16: what an entered scope inherits.  Of the scopes around \<open>i\<close>, a cancelled one counts exactly
  when no shield stands between: \<open>i\<close> is effectively cancelled when it, or a scope of the stack
  outside of it, is cancelled and neither \<open>i\<close> nor any scope between the two is shielded.
\<close>

theorem effectively_cancelled_iff:
  assumes "stack c = outer @ i # inner" and "i \<notin> set outer"
  shows "effectively_cancelled i c \<longleftrightarrow>
    cancel_called (scopes c i) \<or>
    (\<not> shield (scopes c i) \<and>
      (\<exists>pre j post. outer = pre @ j # post \<and> cancel_called (scopes c j) \<and>
        (\<forall>k\<in>set post. \<not> shield (scopes c k))))"
proof -
  have tw: "takeWhile (\<lambda>j. j \<noteq> i) (outer @ i # inner) = outer"
    using assms(2) by (subst takeWhile_append2) auto
  have "outer_cancelled (scopes c) (rev outer) \<longleftrightarrow>
     (\<exists>pre j post. outer = pre @ j # post \<and> cancel_called (scopes c j) \<and> (\<forall>k\<in>set post. \<not> shield (scopes c k)))"
    (is "_ \<longleftrightarrow> ?R")
  proof
    assume "outer_cancelled (scopes c) (rev outer)"
    then obtain pre j post where "rev outer = pre @ j # post" "cancel_called (scopes c j)"
      "\<forall>k\<in>set pre. \<not> shield (scopes c k)"
      unfolding outer_cancelled_iff by blast
    moreover from this(1) have "outer = rev post @ j # rev pre" using rev_rev_ident [of outer] by simp
    ultimately show ?R by fastforce
  next
    assume ?R
    then show "outer_cancelled (scopes c) (rev outer)"
      unfolding outer_cancelled_iff by (metis append.assoc append_Cons append_Nil rev.simps(2) rev_append set_rev)
  qed
  then show ?thesis using assms(1) tw by (auto simp: effectively_cancelled_def)
qed

theorem effectively_cancelled_iff_witness:
  "\<not> effectively_cancelled 2 (cancel_demo\<lparr>stack := [0, 2], scopes := (scopes cancel_demo)(0 := plain_scope\<lparr>cancel_called := True\<rparr>)\<rparr>)"
  by (subst effectively_cancelled_iff [of _ "[0]" 2 "[]"]) (simp_all add: cancel_demo_def plain_scope_def)

text \<open>
  A shield holds no one off.  A scope cancelled from its own loop interrupts its task
  wherever the task is, also inside a scope entered later with a shield, which does not count
  as cancelled.
\<close>

theorem shield_not_isolating:
  assumes "c_task (scopes c k) = Some t" and "\<not> cancel_called (scopes c k)" and "\<not> t_done (hosts c t)"
    and "stack c = outer @ k # between @ s # inner" and "s \<notin> set (outer @ k # between)"
    and "shield (scopes c s)" and "\<not> cancel_called (scopes c s)"
    and "scope_cancel True k c = (r, c')"
  shows "interrupted (hosts c' t) \<and> \<not> effectively_cancelled s c'"
proof -
  have ks: "k \<noteq> s" using assms(5) by auto
  obtain h where tc: "task_cancel (hosts c t) = (True, h)"
    using assms(3) by (metis prod.collapse task_cancel_simps(2))
  have c': "hosts c' t = snd (task_cancel (hosts c t))" "scopes c' s = scopes c s"
    using assms(1-3,8) ks tc
    by (auto simp: scope_cancel_def scope_deliver_def Let_def)
  show ?thesis
    using assms(3,6,7) by (simp add: c' interrupted_cancel effectively_cancelled_def)
qed

definition shield_demo :: cstate where
  "shield_demo = \<lparr>scopes = (\<lambda>_. plain_scope)(0 := plain_scope\<lparr>c_task := Some 0\<rparr>,
       1 := plain_scope\<lparr>c_task := Some 0, shield := True\<rparr>),
     hosts = (\<lambda>_. idle_host), stack = [0, 1]\<rparr>"

theorem shield_not_isolating_witness:
  "interrupted (hosts (snd (scope_cancel True 0 shield_demo)) 0)"
  using shield_not_isolating [OF _ _ _ _ _ _ _ surjective_pairing, where c = shield_demo and k = 0
      and t = 0 and outer = "[]" and between = "[]" and s = 1 and inner = "[]"]
  by (simp add: shield_demo_def plain_scope_def idle_host_def)

text \<open>
  C36: an absorbing scope absorbs what is not its own.  When a scope of
  \<open>move_on_after\<close> has been cancelled, it swallows the \<open>CancelledError\<close> that an enclosing
  cancelled scope has sent to the task; the enclosing scope still counts as cancelled and its
  request is still on the ledger, and yet nothing interrupts the task any more.
\<close>

theorem outer_cancellation_swallowed:
  assumes "c_task (scopes c i) = Some t" and "\<not> shield (scopes c i)"
    and "cancelled_caught (scopes c i)" and "\<not> convert_to_timeout (scopes c i)" and "cancel_called (scopes c i)"
    and "\<not> interrupted (hosts c t)" and "t_cancelling (hosts c t) = 2"
    and "stack c = outer @ [k, i]" and "k \<noteq> i" and "k \<notin> set outer" and "cancel_called (scopes c k)"
    and "scope_aexit (Some CancelledError) i c = (r, c')"
  shows "r = Swallowed \<and> effectively_cancelled k c' \<and> 1 \<le> t_cancelling (hosts c' t) \<and>
    \<not> interrupted (hosts c' t)"
proof -
  let ?c = "upd_scope i (\<lambda>s. s\<lparr>injected := False, c_task := None, deadline_handle := False\<rparr>) c"
  have rs: "restore_saved i (Some t) ?c = ?c"
    using assms(2) by (simp add: restore_saved_def)
  have "r = Swallowed" and
    c': "c' = (uncancel_injected (Some t) (injected (scopes c i)) ?c)\<lparr>stack := pop_scope i (stack c)\<rparr>"
    using assms(1,3-5,12) rs by (auto simp: scope_aexit_def Let_def uncancel_injected_def split: if_splits)
  moreover have "scopes c' k = scopes c k" using assms(9) unfolding c' by (simp add: uncancel_injected_def)
  moreover have "\<not> interrupted (task_uncancel h)" if "\<not> interrupted h" for h
    using that by (simp add: interrupted_def task_uncancel_def Let_def)
  ultimately show ?thesis
    using assms(6,7,11) by (auto simp: uncancel_injected_def effectively_cancelled_def)
qed

definition nested_demo :: cstate where
  "nested_demo = \<lparr>scopes = (\<lambda>_. plain_scope)(
       0 := plain_scope\<lparr>c_task := Some 0, cancel_called := True, injected := True\<rparr>,
       1 := plain_scope\<lparr>c_task := Some 0, cancelled_caught := True, cancel_called := True, injected := True\<rparr>),
     hosts = (\<lambda>_. idle_host\<lparr>t_cancelling := 2\<rparr>), stack = [0, 1]\<rparr>"

theorem outer_cancellation_swallowed_witness:
  "fst (scope_aexit (Some CancelledError) 1 nested_demo) = Swallowed \<and>
   \<not> interrupted (hosts (snd (scope_aexit (Some CancelledError) 1 nested_demo)) 0)"
  using outer_cancellation_swallowed [OF _ _ _ _ _ _ _ _ _ _ _ surjective_pairing,
      where c = nested_demo and i = 1 and t = 0 and k = 0 and outer = "[]"]
  by (simp add: nested_demo_def plain_scope_def idle_host_def interrupted_def)

lemma float_less_trans: "float_less a b \<Longrightarrow> float_less b c \<Longrightarrow> float_less a c"
  by (cases a; cases b; cases c) auto

lemma float_less_irrefl [simp]: "\<not> float_less a a"
  by (cases a) auto

lemma float_less_cotrans: "deadline_ok b \<Longrightarrow> float_less a c \<Longrightarrow> float_less a b \<or> float_less b c"
  by (cases a; cases b; cases c) (auto simp: deadline_ok_def)

lemma float_min_not_less: "\<not> float_less a d \<Longrightarrow> \<not> float_less a (float_min d e)"
  using float_less_trans [of a e d] by (auto simp: float_min_def)

lemma float_min_not_less2: "\<not> float_less e (float_min d e)"
  by (simp add: float_min_def)

lemma tightest_le:
  "(\<And>j. j \<in> set is \<Longrightarrow> \<not> shield (sc j)) \<Longrightarrow> (\<And>j. j \<in> set is \<Longrightarrow> deadline_ok (deadline (sc j))) \<Longrightarrow>
   deadline_ok d \<Longrightarrow>
   tightest sc (is @ ks) d = tightest sc ks (tightest sc is d) \<and>
   deadline_ok (tightest sc is d) \<and> \<not> float_less d (tightest sc is d) \<and>
   (\<forall>j\<in>set is. \<not> float_less (deadline (sc j)) (tightest sc is d)) \<and>
   tightest sc is d \<in> insert d (deadline ` sc ` set is)"
proof (induction "is" arbitrary: d)
  case (Cons i "is")
  let ?d = "float_min d (deadline (sc i))" and ?e = "tightest sc is (float_min d (deadline (sc i)))"
  have i: "\<not> shield (sc i)" "deadline_ok (deadline (sc i))" using Cons.prems by simp_all
  have d: "deadline_ok ?d" using i Cons.prems(3) by (simp add: float_min_def)
  have IH: "tightest sc (is @ ks) ?d = tightest sc ks ?e" "deadline_ok ?e" "\<not> float_less ?d ?e"
    "\<forall>j\<in>set is. \<not> float_less (deadline (sc j)) ?e" "?e \<in> insert ?d (deadline ` sc ` set is)"
    using Cons.IH [of ?d] Cons.prems(1,2) d by auto
  have "\<not> float_less d ?e"
    using IH(3) float_less_cotrans [OF d, of d ?e] by (auto simp: float_min_def split: if_splits dest: float_less_trans)
  moreover have "\<not> float_less (deadline (sc i)) ?e"
    using IH(3) float_less_cotrans [OF Cons.prems(3), of "deadline (sc i)" ?e]
    by (auto simp: float_min_def split: if_splits)
  ultimately show ?case
    using IH i(1) by (auto simp: Let_def float_min_def split: if_splits)
qed simp

text \<open>
  The deadline a task sees.  The scopes of the stack from the innermost shielded one
  inwards (all of them when there is none) decide: none of them has an earlier deadline than
  \<open>current_effective_deadline\<close>, which is the deadline of one of them unless it is infinite,
  whatever the scopes outside the shield say.
\<close>

theorem effective_deadline_bound:
  assumes "stack c = outer @ visible" and "outer = [] \<or> visible \<noteq> [] \<and> shield (scopes c (hd visible))"
    and "\<And>j. j \<in> set (List.tl visible) \<Longrightarrow> \<not> shield (scopes c j)"
    and "\<And>j. j \<in> set visible \<Longrightarrow> deadline_ok (deadline (scopes c j))"
  shows "(\<forall>j\<in>set visible. \<not> float_less (deadline (scopes c j)) (current_effective_deadline c)) \<and>
    current_effective_deadline c \<in> insert PosInf (deadline ` scopes c ` set visible)"
proof (cases visible)
  case Nil
  then show ?thesis using assms by (simp add: current_effective_deadline_def)
next
  case (Cons s inner)
  let ?sc = "scopes c" let ?d = "tightest ?sc (rev inner) PosInf"
  have T: "deadline_ok ?d" "\<forall>j\<in>set inner. \<not> float_less (deadline (?sc j)) ?d"
    "?d \<in> insert PosInf (deadline ` ?sc ` set inner)"
    "tightest ?sc (rev inner @ s # rev outer) PosInf = tightest ?sc (s # rev outer) ?d"
    using tightest_le [of "rev inner" ?sc PosInf "s # rev outer"] assms(3,4) Cons by (auto simp: deadline_ok_def)
  have "current_effective_deadline c = float_min ?d (deadline (?sc s))"
    using T(4) assms(1,2) Cons by (auto simp: current_effective_deadline_def Let_def)
  moreover have "float_min ?d (deadline (?sc s)) \<in> insert PosInf (deadline ` ?sc ` set visible)"
    using T(3) Cons by (auto simp: float_min_def)
  moreover have "\<not> float_less (deadline (?sc j)) (float_min ?d (deadline (?sc s)))" if "j \<in> set visible" for j
    using that T(2) Cons float_min_not_less float_min_not_less2 by auto
  ultimately show ?thesis by simp
qed

theorem effective_deadline_bound_witness:
  "current_effective_deadline shield_demo \<in> {PosInf, deadline (scopes shield_demo 1)}"
  using effective_deadline_bound [of shield_demo "[0]" "[1]"]
  by (simp add: shield_demo_def plain_scope_def deadline_ok_def)

text \<open>
  \<open>checkpoint\<close> raises exactly when the innermost scope is effectively cancelled, and then
  no cancellation request is left on the task, whoever made it: the one a scope has injected
  and would take back on exit, and those of \<open>Task.cancel()\<close> from outside of any scope.
\<close>

theorem checkpoint_clears:
  assumes "checkpoint (Some t) c = (r, c')"
  shows "(r = Some CancelledError \<longleftrightarrow> stack c \<noteq> [] \<and> effectively_cancelled (last (stack c)) c) \<and>
    t_cancelling (hosts c' t) = (if r = Some CancelledError then 0 else t_cancelling (hosts c t)) \<and>
    scopes c' = scopes c"
  using assms by (auto simp: checkpoint_def split: if_splits)

theorem checkpoint_clears_witness:
  "fst (checkpoint (Some 0) nested_demo) = Some CancelledError \<and>
   t_cancelling (hosts (snd (checkpoint (Some 0) nested_demo)) 0) = 0"
proof -
  have "fst (checkpoint (Some 0) nested_demo) = Some CancelledError"
    by (simp add: checkpoint_def nested_demo_def effectively_cancelled_def)
  then show ?thesis using checkpoint_clears [OF surjective_pairing, of 0 nested_demo] by simp
qed

text \<open>
  An entry that fails leaves no trace.  When \<open>__aenter__\<close> raises, for whatever reason, the
  scope stack is the one before, and the scope is not left hosted by the task.
\<close>

theorem failed_entry_undone:
  assumes "scope_aenter current now i c = (Some e, c')"
  shows "stack c' = stack c \<and>
    (c_task (scopes c' i) = None \<or> scopes c' i = scopes c i)"
proof -
  have pop: "pop_scope i (stack c @ [i]) = stack c" by simp
  show ?thesis
    using assms(1) pop
    by (auto simp: scope_aenter_def aenter_deadline_def aenter_check_def aenter_push_def rollback_aenter_def
        Let_def split: option.splits if_splits prod.splits)
qed

theorem failed_entry_undone_witness:
  "stack (snd (scope_aenter (Some 0) 5 0 (cancel_demo\<lparr>scopes := (\<lambda>_. plain_scope\<lparr>deadline := Fin 3\<rparr>)\<rparr>))) = []"
proof -
  let ?c = "cancel_demo\<lparr>scopes := (\<lambda>_. plain_scope\<lparr>deadline := Fin 3\<rparr>)\<rparr>"
  have "scope_aenter (Some 0) 5 0 ?c = (Some CancelledError, snd (scope_aenter (Some 0) 5 0 ?c))"
    by (simp add: cancel_demo_def plain_scope_def scope_aenter_def aenter_deadline_def aenter_push_def
        expired_def Let_def)
  from failed_entry_undone [OF this] show ?thesis by (simp add: cancel_demo_def)
qed

end
