(* ===== verification/Rendezvous.thy ===== *)
theory Rendezvous
  imports Oneshot
begin

text \<open>
  \<open>multiloop._sync.Barrier\<close>: \<open>wait\<close> with its generations and result boxes, its cancellation
  path, \<open>abort\<close> and \<open>reset\<close>, and any number of calls of \<open>wait\<close> on one barrier.  Proved: a
  call that returns belongs to a round of exactly \<open>parties\<close> calls, whose indices are distinct
  and in range.
\<close>

section \<open>The code\<close>

text \<open>The one-element list \<open>box\<close> of a call is kept under the call's event.\<close>

record barrier =
  b_parties :: int
  b_generation :: nat
  b_waiters :: "(evt, loop) odict"
  b_boxes :: "evt \<Rightarrow> int option"
  b_aborted :: bool
  b_broken :: bool

definition barrier_new :: "int \<Rightarrow> error + barrier" where
  "barrier_new parties =
     (if parties \<le> 0 then Inl (ValueError ''parties must be >= 1'')
      else Inr \<lparr>b_parties = parties, b_generation = 0, b_waiters = [], b_boxes = (\<lambda>_. None),
        b_aborted = False, b_broken = False\<rparr>)"

definition barrier_is_broken :: "barrier \<Rightarrow> bool" where
  "barrier_is_broken b = (b_broken b \<or> b_aborted b)"

definition barrier_n_waiting :: "barrier \<Rightarrow> nat" where
  "barrier_n_waiting b = length (b_waiters b)"

text \<open>\<open>BarrierWaitResult\<close>.\<close>

record wait_result =
  r_parties :: int
  r_index :: int

definition is_leader :: "wait_result \<Rightarrow> bool" where
  "is_leader r = (r_index r = 0)"

datatype arrival = Passed wait_result | Blocked evt nat

text \<open>\<open>enumerate(self._waiters.items(), start=n)\<close>, writing the boxes.\<close>

fun number_boxes :: "int \<Rightarrow> evt list \<Rightarrow> (evt \<Rightarrow> int option) \<Rightarrow> evt \<Rightarrow> int option" where
  "number_boxes n [] bx = bx"
| "number_boxes n (e # es) bx = number_boxes (n + 1) es (bx(e := Some n))"

text \<open>\<open>wait\<close> up to its \<open>await\<close>.\<close>

definition barrier_enter :: "loop \<Rightarrow> barrier \<Rightarrow> aio \<Rightarrow> (error + arrival) \<times> barrier \<times> aio" where
  "barrier_enter loop b a =
     (let (event, a) = new_event a; b = b\<lparr>b_boxes := (b_boxes b)(event := None)\<rparr> in
      if b_aborted b then (Inl (RuntimeError ''barrier has been aborted''), b, a)
      else if b_broken b then (Inl (RuntimeError ''barrier is broken''), b, a)
      else if int (length (b_waiters b)) + 1 = b_parties b then
        (Inr (Passed \<lparr>r_parties = b_parties b, r_index = 0\<rparr>),
         b\<lparr>b_boxes := number_boxes 1 (map fst (b_waiters b)) (b_boxes b), b_waiters := [],
           b_generation := b_generation b + 1\<rparr>,
         fold wake_ignoring (b_waiters b) a)
      else
        (Inr (Blocked event (b_generation b)), b\<lparr>b_waiters := od_set event loop (b_waiters b)\<rparr>, a))"

text \<open>The \<open>except BaseException\<close> path.\<close>

definition barrier_cancelled :: "nat \<Rightarrow> barrier \<Rightarrow> aio \<Rightarrow> barrier \<times> aio" where
  "barrier_cancelled generation b a =
     (if generation = b_generation b then
        (b\<lparr>b_broken := True, b_waiters := [], b_generation := b_generation b + 1,
           b_boxes := (\<lambda>e. if e \<in> set (map fst (b_waiters b)) then Some (- 1) else b_boxes b e)\<rparr>,
         fold wake_ignoring (b_waiters b) a)
      else (b, a))"

text \<open>After \<open>await event.wait()\<close> has returned.\<close>

definition barrier_resume :: "evt \<Rightarrow> nat \<Rightarrow> barrier \<Rightarrow> error + wait_result" where
  "barrier_resume event generation b =
     (if b_aborted b \<and> generation = b_generation b then Inl (RuntimeError ''barrier has been aborted'')
      else
        (case b_boxes b event of
           None \<Rightarrow> Inl (RuntimeError ''barrier was reset while waiting'')
         | Some i \<Rightarrow>
             if i = - 1 then Inl (RuntimeError ''barrier broken by concurrent cancellation'')
             else Inr \<lparr>r_parties = b_parties b, r_index = i\<rparr>))"

text \<open>\<open>abort\<close> and \<open>reset\<close>: the critical section, and the entries that are woken after it.\<close>

definition barrier_abort :: "barrier \<Rightarrow> barrier \<times> (evt \<times> loop) list" where
  "barrier_abort b = (b\<lparr>b_aborted := True, b_broken := True, b_waiters := []\<rparr>, b_waiters b)"

definition barrier_reset :: "barrier \<Rightarrow> barrier \<times> (evt \<times> loop) list" where
  "barrier_reset b = (b\<lparr>b_waiters := [], b_generation := b_generation b + 1, b_aborted := False,
     b_broken := False\<rparr>, b_waiters b)"

section \<open>Calls of wait\<close>

text \<open>
  The life of one call of \<open>wait\<close>: not made, refused, suspended, returned, raised after it was
  suspended, cancelled.  The generation is that of its arrival.
\<close>

datatype call = Uncalled | Refused | Suspended_in evt nat | Returned nat wait_result
  | Raised nat | Cancelled nat

fun call_gen :: "call \<Rightarrow> nat option" where
  "call_gen (Suspended_in e g) = Some g"
| "call_gen (Returned g r) = Some g"
| "call_gen (Raised g) = Some g"
| "call_gen (Cancelled g) = Some g"
| "call_gen _ = None"

record bar_sys =
  bar :: barrier
  bar_aio :: aio
  pending :: "(evt \<times> loop) list"
  calls :: "nat \<Rightarrow> call"

text \<open>
  \<open>abort\<close> and \<open>reset\<close> wake their entries outside the mutex, one by one, while other calls go
  on: these entries are \<open>pending\<close>.  Other components create and set events of their own.
\<close>

inductive bar_step :: "bar_sys \<Rightarrow> bar_sys \<Rightarrow> bool" where
  bar_pass: "calls s c = Uncalled \<Longrightarrow> barrier_enter l (bar s) (bar_aio s) = (Inr (Passed r), b, a) \<Longrightarrow>
     bar_step s (s\<lparr>bar := b, bar_aio := a, calls := (calls s)(c := Returned (b_generation (bar s)) r)\<rparr>)"
| bar_block: "calls s c = Uncalled \<Longrightarrow> barrier_enter l (bar s) (bar_aio s) = (Inr (Blocked e g), b, a) \<Longrightarrow>
     bar_step s (s\<lparr>bar := b, bar_aio := a, calls := (calls s)(c := Suspended_in e g)\<rparr>)"
| bar_refuse: "calls s c = Uncalled \<Longrightarrow> barrier_enter l (bar s) (bar_aio s) = (Inl err, b, a) \<Longrightarrow>
     bar_step s (s\<lparr>bar := b, bar_aio := a, calls := (calls s)(c := Refused)\<rparr>)"
| bar_cancel: "calls s c = Suspended_in e g \<Longrightarrow> barrier_cancelled g (bar s) (bar_aio s) = (b, a) \<Longrightarrow>
     bar_step s (s\<lparr>bar := b, bar_aio := a, calls := (calls s)(c := Cancelled g)\<rparr>)"
| bar_return: "calls s c = Suspended_in e g \<Longrightarrow> e \<in> evset (bar_aio s) \<Longrightarrow> barrier_resume e g (bar s) = Inr r \<Longrightarrow>
     bar_step s (s\<lparr>calls := (calls s)(c := Returned g r)\<rparr>)"
| bar_raise: "calls s c = Suspended_in e g \<Longrightarrow> e \<in> evset (bar_aio s) \<Longrightarrow> barrier_resume e g (bar s) = Inl err \<Longrightarrow>
     bar_step s (s\<lparr>calls := (calls s)(c := Raised g)\<rparr>)"
| bar_abort: "barrier_abort (bar s) = (b, ws) \<Longrightarrow> bar_step s (s\<lparr>bar := b, pending := pending s @ ws\<rparr>)"
| bar_reset: "barrier_reset (bar s) = (b, ws) \<Longrightarrow> bar_step s (s\<lparr>bar := b, pending := pending s @ ws\<rparr>)"
| bar_wake: "pending s = ws1 @ w # ws2 \<Longrightarrow>
     bar_step s (s\<lparr>pending := ws1 @ ws2, bar_aio := wake_ignoring w (bar_aio s)\<rparr>)"
| bar_aio: "aio_step (bar_aio s) a \<Longrightarrow> bar_step s (s\<lparr>bar_aio := a\<rparr>)"
| bar_new: "new_event (bar_aio s) = (e, a) \<Longrightarrow> bar_step s (s\<lparr>bar_aio := a\<rparr>)"
| bar_other: "call_soon_set l e (bar_aio s) = Some a \<Longrightarrow> e < next_evt (bar_aio s) \<Longrightarrow>
     (\<And>c g. calls s c \<noteq> Suspended_in e g) \<Longrightarrow> bar_step s (s\<lparr>bar_aio := a\<rparr>)"

definition bar_start :: "bar_sys \<Rightarrow> bool" where
  "bar_start s \<longleftrightarrow> (\<exists>n. barrier_new n = Inr (bar s)) \<and> (\<forall>c. calls s c = Uncalled) \<and>
     bar_aio s = aio_init \<and> pending s = []"

section \<open>Invariant\<close>

text \<open>The call at position \<open>k\<close> of a full round \<open>g\<close>.\<close>

definition slot :: "barrier \<Rightarrow> nat \<Rightarrow> nat \<Rightarrow> call \<Rightarrow> bool" where
  "slot b g k c \<longleftrightarrow> c = Cancelled g \<or> c = Returned g \<lparr>r_parties = b_parties b, r_index = int k\<rparr> \<or>
     (\<exists>e. c = Suspended_in e g \<and> b_boxes b e = Some (int k))"

definition full_round :: "barrier \<Rightarrow> (nat \<Rightarrow> call) \<Rightarrow> nat \<Rightarrow> bool" where
  "full_round b cl g \<longleftrightarrow> g < b_generation b \<and>
     (\<exists>cs. distinct cs \<and> int (length cs) = b_parties b \<and> set cs = {c. call_gen (cl c) = Some g} \<and>
       (\<forall>k<length cs. slot b g k (cl (cs ! k))))"

definition dead_round :: "barrier \<Rightarrow> (nat \<Rightarrow> call) \<Rightarrow> nat \<Rightarrow> bool" where
  "dead_round b cl g \<longleftrightarrow> (\<forall>c. (\<forall>e. cl c = Suspended_in e g \<longrightarrow> b_boxes b e \<in> {None, Some (- 1)}) \<and>
     (\<forall>r. cl c \<noteq> Returned g r))"

definition events_ok :: "barrier \<Rightarrow> aio \<Rightarrow> (evt \<times> loop) list \<Rightarrow> bool" where
  "events_ok b a ws \<longleftrightarrow>
     (\<forall>e. od_has e (b_waiters b) \<longrightarrow> e \<notin> scheduled a \<and> \<not> od_has e ws) \<and>
     (\<forall>e. e \<in> evset a \<longrightarrow> e \<in> scheduled a) \<and>
     (\<forall>l e. (l, e) \<in> set (callbacks a) \<longrightarrow> e \<in> scheduled a) \<and>
     (\<forall>e. e \<in> scheduled a \<longrightarrow> e < next_evt a) \<and> (\<forall>e. od_has e ws \<longrightarrow> e < next_evt a)"

definition calls_ok :: "barrier \<Rightarrow> nat \<Rightarrow> (nat \<Rightarrow> call) \<Rightarrow> bool" where
  "calls_ok b n cl \<longleftrightarrow>
     (\<forall>c g. call_gen (cl c) = Some g \<longrightarrow> g \<le> b_generation b) \<and>
     (\<forall>c e g. cl c = Suspended_in e g \<longrightarrow> e < n) \<and>
     (\<forall>c d e g h. cl c = Suspended_in e g \<longrightarrow> cl d = Suspended_in e h \<longrightarrow> c = d) \<and>
     (\<forall>c. call_gen (cl c) = Some (b_generation b) \<longrightarrow> \<not> b_aborted b \<longrightarrow>
       (\<exists>e. cl c = Suspended_in e (b_generation b) \<and> od_has e (b_waiters b))) \<and>
     (\<forall>e. od_has e (b_waiters b) \<longrightarrow> (\<exists>c. cl c = Suspended_in e (b_generation b))) \<and>
     distinct (map fst (b_waiters b)) \<and> (b_aborted b \<longrightarrow> b_waiters b = [] \<and> b_broken b) \<and> b_parties b > 0"

lemma events_okI:
  assumes "\<And>e. od_has e (b_waiters b) \<Longrightarrow> e \<notin> scheduled a" and "\<And>e. od_has e (b_waiters b) \<Longrightarrow> \<not> od_has e ws"
    and "\<And>e. e \<in> evset a \<Longrightarrow> e \<in> scheduled a" and "\<And>l e. (l, e) \<in> set (callbacks a) \<Longrightarrow> e \<in> scheduled a"
    and "\<And>e. e \<in> scheduled a \<Longrightarrow> e < next_evt a" and "\<And>e. od_has e ws \<Longrightarrow> e < next_evt a"
  shows "events_ok b a ws"
  using assms unfolding events_ok_def by blast

lemma events_okD:
  assumes "events_ok b a ws"
  shows "od_has e (b_waiters b) \<Longrightarrow> e \<notin> scheduled a" "od_has e (b_waiters b) \<Longrightarrow> \<not> od_has e ws"
    "e \<in> evset a \<Longrightarrow> e \<in> scheduled a" "(l, e) \<in> set (callbacks a) \<Longrightarrow> e \<in> scheduled a"
    "e \<in> scheduled a \<Longrightarrow> e < next_evt a" "od_has e ws \<Longrightarrow> e < next_evt a"
  using assms unfolding events_ok_def by blast+

lemma calls_okI:
  assumes "\<And>c g. call_gen (cl c) = Some g \<Longrightarrow> g \<le> b_generation b"
    and "\<And>c e g. cl c = Suspended_in e g \<Longrightarrow> e < n"
    and "\<And>c d e g h. cl c = Suspended_in e g \<Longrightarrow> cl d = Suspended_in e h \<Longrightarrow> c = d"
    and "\<And>c. call_gen (cl c) = Some (b_generation b) \<Longrightarrow> \<not> b_aborted b \<Longrightarrow>
      \<exists>e. cl c = Suspended_in e (b_generation b) \<and> od_has e (b_waiters b)"
    and "\<And>e. od_has e (b_waiters b) \<Longrightarrow> \<exists>c. cl c = Suspended_in e (b_generation b)"
    and "distinct (map fst (b_waiters b))" and "b_aborted b \<Longrightarrow> b_waiters b = [] \<and> b_broken b"
    and "b_parties b > 0"
  shows "calls_ok b n cl"
proof -
  have "\<forall>c e g. cl c = Suspended_in e g \<longrightarrow> e < n"
    "\<forall>c d e g h. cl c = Suspended_in e g \<longrightarrow> cl d = Suspended_in e h \<longrightarrow> c = d"
    using assms(2,3) by metis+
  then show ?thesis using assms(1,4-8) unfolding calls_ok_def by (intro conjI) (assumption | blast)+
qed

lemma calls_okD:
  assumes "calls_ok b n cl"
  shows "call_gen (cl c) = Some g \<Longrightarrow> g \<le> b_generation b" "cl c = Suspended_in e g \<Longrightarrow> e < n"
    "cl c = Suspended_in e g \<Longrightarrow> cl d = Suspended_in e h \<Longrightarrow> c = d"
    "call_gen (cl c) = Some (b_generation b) \<Longrightarrow> \<not> b_aborted b \<Longrightarrow>
      \<exists>e. cl c = Suspended_in e (b_generation b) \<and> od_has e (b_waiters b)"
    "od_has e (b_waiters b) \<Longrightarrow> \<exists>c. cl c = Suspended_in e (b_generation b)"
    "distinct (map fst (b_waiters b))" "b_aborted b \<Longrightarrow> b_waiters b = [] \<and> b_broken b" "b_parties b > 0"
proof -
  have a: "\<forall>c g. call_gen (cl c) = Some g \<longrightarrow> g \<le> b_generation b"
    "\<forall>c e g. cl c = Suspended_in e g \<longrightarrow> e < n"
    "\<forall>c d e g h. cl c = Suspended_in e g \<longrightarrow> cl d = Suspended_in e h \<longrightarrow> c = d"
    "\<forall>c. call_gen (cl c) = Some (b_generation b) \<longrightarrow> \<not> b_aborted b \<longrightarrow>
      (\<exists>e. cl c = Suspended_in e (b_generation b) \<and> od_has e (b_waiters b))"
    "\<forall>e. od_has e (b_waiters b) \<longrightarrow> (\<exists>c. cl c = Suspended_in e (b_generation b))"
    using assms unfolding calls_ok_def by - (elim conjE; assumption)+
  show "call_gen (cl c) = Some g \<Longrightarrow> g \<le> b_generation b" using a(1) by blast
  show "cl c = Suspended_in e g \<Longrightarrow> e < n" using a(2) by metis
  show "cl c = Suspended_in e g \<Longrightarrow> cl d = Suspended_in e h \<Longrightarrow> c = d" using a(3) by metis
  show "call_gen (cl c) = Some (b_generation b) \<Longrightarrow> \<not> b_aborted b \<Longrightarrow>
      \<exists>e. cl c = Suspended_in e (b_generation b) \<and> od_has e (b_waiters b)" using a(4) by blast
  show "od_has e (b_waiters b) \<Longrightarrow> \<exists>c. cl c = Suspended_in e (b_generation b)" using a(5) by blast
  show "distinct (map fst (b_waiters b))" "b_aborted b \<Longrightarrow> b_waiters b = [] \<and> b_broken b" "b_parties b > 0"
    using assms unfolding calls_ok_def by (elim conjE; blast)+
qed

lemma calls_ok_upd:
  assumes ok: "calls_ok b n cl" and n: "n \<le> n'" and x: "\<And>e g. x \<noteq> Suspended_in e g"
    and g: "\<And>g. call_gen x = Some g \<Longrightarrow> g \<le> b_generation b \<and> (g = b_generation b \<longrightarrow> b_aborted b)"
    and out: "\<And>e. cl c = Suspended_in e (b_generation b) \<Longrightarrow> \<not> od_has e (b_waiters b)"
  shows "calls_ok b n' (cl(c := x))"
proof -
  note D = calls_okD [OF ok]
  have u: "(cl(c := x)) d = Suspended_in e h \<longleftrightarrow> d \<noteq> c \<and> cl d = Suspended_in e h" for d e h
    using x by auto
  show ?thesis
  proof (rule calls_okI, unfold u)
    fix e assume e: "od_has e (b_waiters b)"
    then obtain d where "cl d = Suspended_in e (b_generation b)" using D(5) by blast
    with e out show "\<exists>d. d \<noteq> c \<and> cl d = Suspended_in e (b_generation b)" by metis
  next
    fix d assume d: "call_gen ((cl(c := x)) d) = Some (b_generation b)" "\<not> b_aborted b"
    then have "d \<noteq> c" using g by auto
    with d D(4) show "\<exists>e. (d \<noteq> c \<and> cl d = Suspended_in e (b_generation b)) \<and> od_has e (b_waiters b)" by simp
  next
    fix d h assume "call_gen ((cl(c := x)) d) = Some h"
    then show "h \<le> b_generation b" using g D(1) by (cases "d = c") auto
  next
    fix d e h assume "d \<noteq> c \<and> cl d = Suspended_in e h"
    then show "e < n'" using D(2) n by (meson order_less_le_trans)
  next
    fix d d' e h k assume "d \<noteq> c \<and> cl d = Suspended_in e h" "d' \<noteq> c \<and> cl d' = Suspended_in e k"
    then show "d = d'" using D(3) by blast
  qed (use D(6-8) in blast)+
qed

lemma calls_ok_next:
  assumes ok: "calls_ok b n cl" and "b_waiters b' = []" "b_generation b' = b_generation b + 1"
    "b_parties b' = b_parties b" "b_aborted b' \<Longrightarrow> b_broken b'"
  shows "calls_ok b' n cl"
proof -
  note D = calls_okD [OF ok]
  show ?thesis
  proof (rule calls_okI)
    fix d assume "call_gen (cl d) = Some (b_generation b')"
    then have "b_generation b' \<le> b_generation b" by (rule D(1))
    then show "\<exists>e. cl d = Suspended_in e (b_generation b') \<and> od_has e (b_waiters b')" using assms(3) by simp
  next
    fix d h assume "call_gen (cl d) = Some h"
    then show "h \<le> b_generation b'" using D(1) assms(3) by fastforce
  next
    fix d d' e h k assume "cl d = Suspended_in e h" "cl d' = Suspended_in e k"
    then show "d = d'" by (rule D(3))
  qed (use D(2,8) assms in auto)
qed

lemma calls_ok_block:
  assumes ok: "calls_ok b n cl" and c: "cl c = Uncalled" and q: "\<not> od_has n (b_waiters b)"
    and nb: "\<not> b_aborted b"
  shows "calls_ok (b\<lparr>b_boxes := bx, b_waiters := b_waiters b @ [(n, l)]\<rparr>) (Suc n)
    (cl(c := Suspended_in n (b_generation b)))"
proof -
  let ?b = "b\<lparr>b_boxes := bx, b_waiters := b_waiters b @ [(n, l)]\<rparr>" let ?cl = "cl(c := Suspended_in n (b_generation b))"
  note D = calls_okD [OF ok]
  have fresh: "cl d \<noteq> Suspended_in n h" for d h using D(2) by blast
  show ?thesis
  proof (rule calls_okI)
    fix e assume "od_has e (b_waiters ?b)"
    then have "e = n \<or> od_has e (b_waiters b)" by auto
    then show "\<exists>d. ?cl d = Suspended_in e (b_generation ?b)"
    proof
      assume "od_has e (b_waiters b)"
      then obtain d where "cl d = Suspended_in e (b_generation b)" using D(5) by blast
      with c have "?cl d = Suspended_in e (b_generation ?b)" by auto
      then show ?thesis by (rule exI)
    qed auto
  next
    fix d assume d: "call_gen (?cl d) = Some (b_generation ?b)" "\<not> b_aborted ?b"
    then show "\<exists>e. ?cl d = Suspended_in e (b_generation ?b) \<and> od_has e (b_waiters ?b)"
      using D(4) [of d] by (cases "d = c") auto
  next
    fix d d' e h k assume "?cl d = Suspended_in e h" "?cl d' = Suspended_in e k"
    then show "d = d'" using D(3) fresh by (auto split: if_splits)
  next
    fix d h assume "call_gen (?cl d) = Some h"
    then show "h \<le> b_generation ?b" using D(1) [of d] by (cases "d = c") auto
  next
    fix d e h assume "?cl d = Suspended_in e h"
    then show "e < Suc n" using D(2) [of d] less_SucI by (cases "d = c") auto
  next
    show "distinct (map fst (b_waiters ?b))" using D(6) q by (simp add: od_has_def)
  qed (use D(8) nb in auto)
qed

lemma calls_ok_boxes [simp]: "calls_ok (b\<lparr>b_boxes := bx\<rparr>) n cl = calls_ok b n cl"
  by (simp add: calls_ok_def)

definition bar_inv :: "bar_sys \<Rightarrow> bool" where
  "bar_inv s \<longleftrightarrow> (\<forall>g. full_round (bar s) (calls s) g \<or> dead_round (bar s) (calls s) g) \<and>
     calls_ok (bar s) (next_evt (bar_aio s)) (calls s) \<and>
     events_ok (bar s) (bar_aio s) (pending s)"

lemma bar_inv_start: "bar_start s \<Longrightarrow> bar_inv s"
proof -
  assume st: "bar_start s"
  then obtain n where n: "barrier_new n = Inr (bar s)" by (auto simp: bar_start_def)
  then have "n > 0" and b: "bar s = \<lparr>b_parties = n, b_generation = 0, b_waiters = [],
      b_boxes = (\<lambda>_. None), b_aborted = False, b_broken = False\<rparr>"
    by (auto simp: barrier_new_def split: if_splits)
  with st show ?thesis
    by (auto simp: bar_start_def bar_inv_def calls_ok_def events_ok_def dead_round_def aio_init_def)
qed

lemma number_boxes_other: "e \<notin> set es \<Longrightarrow> number_boxes n es bx e = bx e"
  by (induction n es bx rule: number_boxes.induct) auto

lemma number_boxes_nth:
  "distinct es \<Longrightarrow> k < length es \<Longrightarrow> number_boxes n es bx (es ! k) = Some (n + int k)"
proof (induction n es bx arbitrary: k rule: number_boxes.induct)
  case (2 n e es bx)
  then show ?case
    by (cases k) (auto simp: number_boxes_other algebra_simps simp del: fun_upd_apply, simp)
qed simp

text \<open>The environment.\<close>

lemma wake_ignoring_mono1:
  fixes a :: aio
  shows "next_evt (wake_ignoring w a) = next_evt a \<and> evset (wake_ignoring w a) = evset a \<and>
  (\<forall>e \<in> scheduled a. e \<in> scheduled (wake_ignoring w a)) \<and>
  (\<forall>e \<in> scheduled (wake_ignoring w a). e = fst w \<or> e \<in> scheduled a) \<and>
  (\<forall>l e. (l, e) \<in> set (callbacks (wake_ignoring w a)) \<longrightarrow>
     (l, e) \<in> set (callbacks a) \<or> e \<in> scheduled (wake_ignoring w a))"
  by (cases w) (auto simp: wake_ignoring_eq)

lemma wake_ignoring_sched:
  fixes a :: aio
  shows "e \<in> scheduled a \<Longrightarrow> e \<in> scheduled (fold wake_ignoring ws a)"
proof (induction ws arbitrary: a)
  case (Cons w ws)
  then show ?case using wake_ignoring_mono1 [of w a] by simp
qed simp

lemma wake_ignoring_mono:
  fixes a :: aio
  shows "next_evt (fold wake_ignoring ws a) = next_evt a"
    and "evset (fold wake_ignoring ws a) = evset a"
    and "e \<in> scheduled a \<Longrightarrow> e \<in> scheduled (fold wake_ignoring ws a)"
    and "e \<in> scheduled (fold wake_ignoring ws a) \<Longrightarrow> od_has e ws \<or> e \<in> scheduled a"
    and "(l, e) \<in> set (callbacks (fold wake_ignoring ws a)) \<Longrightarrow>
      (l, e) \<in> set (callbacks a) \<or> e \<in> scheduled (fold wake_ignoring ws a)"
proof -
  show eq: "next_evt (fold wake_ignoring ws a) = next_evt a" "evset (fold wake_ignoring ws a) = evset a" for a
    using wake_ignoring_mono1 by (induction ws arbitrary: a) simp_all
  show "e \<in> scheduled a \<Longrightarrow> e \<in> scheduled (fold wake_ignoring ws a)" by (rule wake_ignoring_sched)
  show "e \<in> scheduled (fold wake_ignoring ws a) \<Longrightarrow> od_has e ws \<or> e \<in> scheduled a"
  proof (induction ws arbitrary: a)
    case (Cons w ws)
    then have "od_has e ws \<or> e \<in> scheduled (wake_ignoring w a)" by simp
    then show ?case using wake_ignoring_mono1 [of w a] by (cases w) auto
  qed simp
  show "(l, e) \<in> set (callbacks (fold wake_ignoring ws a)) \<Longrightarrow>
      (l, e) \<in> set (callbacks a) \<or> e \<in> scheduled (fold wake_ignoring ws a)"
  proof (induction ws arbitrary: a)
    case (Cons w ws)
    let ?a = "wake_ignoring w a"
    from Cons have "(l, e) \<in> set (callbacks ?a) \<or> e \<in> scheduled (fold wake_ignoring ws ?a)" by simp
    moreover have "(l, e) \<in> set (callbacks ?a) \<Longrightarrow> (l, e) \<in> set (callbacks a) \<or> e \<in> scheduled ?a"
      using wake_ignoring_mono1 [of w a] by (elim conjE) blast
    moreover have "e \<in> scheduled ?a \<Longrightarrow> e \<in> scheduled (fold wake_ignoring ws ?a)"
      by (rule wake_ignoring_sched)
    ultimately show ?case unfolding fold_Cons comp_def by blast
  qed simp
qed

lemma events_ok_wakes:
  assumes ok: "events_ok b a ws" and rs: "\<And>e. od_has e rs \<Longrightarrow> e < next_evt a \<and> \<not> od_has e (b_waiters b')"
    and b': "\<And>e. od_has e (b_waiters b') \<Longrightarrow> od_has e (b_waiters b)" and ws': "\<And>e. od_has e ws' \<Longrightarrow> od_has e ws"
  shows "events_ok b' (fold wake_ignoring rs a) ws'"
proof -
  note D = events_okD [OF ok] and m = wake_ignoring_mono [where ws = rs and a = a]
  show ?thesis
  proof (rule events_okI, goal_cases)
    case (1 e)
    then show ?case using m(4) [of e] rs b' D(1) by blast
  next
    case (2 e)
    then show ?case using b' ws' D(2) by blast
  next
    case (3 e)
    then show ?case using m(2) m(3) [of e] D(3) by simp
  next
    case (4 l e)
    then show ?case using m(5) [of l e] m(3) [of e] D(4) by blast
  next
    case (5 e)
    then show ?case using m(1) m(4) [of e] rs D(5) by auto
  next
    case (6 e)
    then show ?case using m(1) ws' D(6) by simp
  qed
qed

lemma bar_inv_events:
  assumes "bar_inv s" and "events_ok (bar s) a ws" and "next_evt (bar_aio s) \<le> next_evt a"
  shows "bar_inv (s\<lparr>pending := ws, bar_aio := a\<rparr>)"
proof -
  have "calls_ok (bar s) (next_evt (bar_aio s)) (calls s)" using assms(1) by (simp add: bar_inv_def)
  note D = calls_okD [OF this]
  have "calls_ok (bar s) (next_evt a) (calls s)"
    by (intro calls_okI) (use D assms(3) in \<open>meson order_less_le_trans | blast\<close>)+
  then show ?thesis using assms by (simp add: bar_inv_def)
qed

lemma bar_inv_env:
  assumes inv: "bar_inv s" and st: "aio_step (bar_aio s) a \<or> new_event (bar_aio s) = (e, a) \<or>
    call_soon_set l e (bar_aio s) = Some a \<and> e < next_evt (bar_aio s) \<and> (\<forall>c g. calls s c \<noteq> Suspended_in e g)"
  shows "bar_inv (s\<lparr>bar_aio := a\<rparr>)"
proof -
  have ok: "events_ok (bar s) (bar_aio s) (pending s)" and cl: "calls_ok (bar s) (next_evt (bar_aio s)) (calls s)"
    using inv by (simp_all add: bar_inv_def)
  note D = events_okD [OF ok]
  have "events_ok (bar s) a (pending s) \<and> next_evt (bar_aio s) \<le> next_evt a"
    using st
  proof (elim disjE)
    assume "aio_step (bar_aio s) a"
    note m = aio_step_mono [OF this]
    have "events_ok (bar s) a (pending s)"
    proof (rule events_okI, goal_cases)
      case (3 e)
      then have "e \<in> evset (bar_aio s) \<or> (\<exists>l. (l, e) \<in> set (callbacks (bar_aio s)))" using m(5) by force
      then show ?case using D(3,4) m(1) by auto
    qed (use D m in \<open>auto\<close>)
    then show ?thesis using m(2) by simp
  next
    assume "new_event (bar_aio s) = (e, a)"
    with ok show ?thesis by (auto simp: events_ok_def new_event_eq intro: less_SucI)
  next
    assume e: "call_soon_set l e (bar_aio s) = Some a \<and> e < next_evt (bar_aio s) \<and> (\<forall>c g. calls s c \<noteq> Suspended_in e g)"
    then have "\<not> od_has e (b_waiters (bar s))" using calls_okD(5) [OF cl] by blast
    with ok e show ?thesis unfolding events_ok_def by (auto simp: call_soon_set_Some)
  qed
  then have "bar_inv (s\<lparr>pending := pending s, bar_aio := a\<rparr>)" using inv bar_inv_events by blast
  then show ?thesis by simp
qed

text \<open>Rounds.\<close>

lemma full_boxes:
  "full_round b cl g \<Longrightarrow> b_parties b' = b_parties b \<Longrightarrow> b_generation b \<le> b_generation b' \<Longrightarrow>
   (\<And>c e. cl c = Suspended_in e g \<Longrightarrow> b_boxes b' e = b_boxes b e) \<Longrightarrow> full_round b' cl g"
  unfolding full_round_def slot_def by (metis order_less_le_trans)

lemma dead_boxes:
  "dead_round b cl g \<Longrightarrow>
   (\<And>c e. cl c = Suspended_in e g \<Longrightarrow> b_boxes b' e \<in> {b_boxes b e, Some (- 1)}) \<Longrightarrow> dead_round b' cl g"
  unfolding dead_round_def by fastforce

lemma full_upd:
  assumes "full_round b cl g" and "call_gen x = Some g \<longleftrightarrow> call_gen (cl c) = Some g"
    and "\<And>k. slot b g k (cl c) \<Longrightarrow> slot b g k x"
  shows "full_round b (cl(c := x)) g"
proof -
  obtain cs where cs: "distinct cs" "int (length cs) = b_parties b" "set cs = {c. call_gen (cl c) = Some g}"
    "\<forall>k<length cs. slot b g k (cl (cs ! k))" "g < b_generation b"
    using assms(1) unfolding full_round_def by blast
  moreover have "{d. call_gen ((cl(c := x)) d) = Some g} = {c. call_gen (cl c) = Some g}"
    using assms(2) by auto
  moreover have "\<forall>k<length cs. slot b g k ((cl(c := x)) (cs ! k))"
    using cs(4) assms(3) by auto
  ultimately show ?thesis unfolding full_round_def by (intro conjI exI [of _ cs]) simp_all
qed

lemma dead_upd:
  "dead_round b cl g \<Longrightarrow> (\<And>e. x = Suspended_in e g \<Longrightarrow> b_boxes b e \<in> {None, Some (- 1)}) \<Longrightarrow>
   (\<And>r. x \<noteq> Returned g r) \<Longrightarrow> dead_round b (cl(c := x)) g"
  unfolding dead_round_def by simp

lemma full_pass:
  assumes ok: "calls_ok b n cl" and c: "cl c = Uncalled" and nb: "\<not> b_aborted b"
    and len: "int (length (b_waiters b)) + 1 = b_parties b"
    and b': "b_parties b' = b_parties b" "b_generation b' = b_generation b + 1"
      "b_boxes b' = number_boxes 1 (map fst (b_waiters b)) bx"
  shows "full_round b' (cl(c := Returned (b_generation b) \<lparr>r_parties = b_parties b, r_index = 0\<rparr>)) (b_generation b)"
    (is "full_round b' ?cl ?G")
proof -
  let ?es = "map fst (b_waiters b)"
  have es: "e \<in> set ?es \<longleftrightarrow> od_has e (b_waiters b)" for e by (simp add: od_has_def)
  have D: "\<And>d. call_gen (cl d) = Some ?G \<Longrightarrow> \<exists>e. cl d = Suspended_in e ?G \<and> e \<in> set ?es"
    "\<And>d d' e g h. cl d = Suspended_in e g \<Longrightarrow> cl d' = Suspended_in e h \<Longrightarrow> d = d'"
    "\<And>e. e \<in> set ?es \<Longrightarrow> \<exists>c. cl c = Suspended_in e ?G" "distinct ?es"
    unfolding es using calls_okD [OF ok] nb by blast+
  then obtain f where f: "\<And>e. e \<in> set ?es \<Longrightarrow> cl (f e) = Suspended_in e ?G" by metis
  let ?cs = "c # map f ?es"
  have inj: "inj_on f (set ?es)" using f by (intro inj_onI) (metis call.inject(1))
  have cf: "f e \<noteq> c" if "e \<in> set ?es" for e using f [OF that] c by auto
  have "distinct (map f ?es)" using inj D(4) by (simp only: distinct_map set_map)
  then have "distinct ?cs" using cf by auto
  moreover have "int (length ?cs) = b_parties b'" using len b' by simp
  moreover have "set ?cs = {d. call_gen (?cl d) = Some ?G}"
  proof (intro set_eqI iffI)
    fix d assume "d \<in> set ?cs"
    then have "d = c \<or> (\<exists>e \<in> set ?es. d = f e)" by auto
    then show "d \<in> {d. call_gen (?cl d) = Some ?G}" using f cf by fastforce
  next
    fix d assume d: "d \<in> {d. call_gen (?cl d) = Some ?G}"
    show "d \<in> set ?cs"
    proof (cases "d = c")
      case False
      then obtain e where "cl d = Suspended_in e ?G" "e \<in> set ?es" using d D(1) [of d] by auto
      then have d: "d = f e" using f D(2) by blast
      have "f e \<in> set (map f ?es)" using \<open>e \<in> set ?es\<close> by (simp only: set_map imageI)
      then show ?thesis unfolding d by (rule list.set_intros(2))
    qed simp
  qed
  moreover have "slot b' ?G k (?cl (?cs ! k))" if "k < length ?cs" for k
  proof (cases k)
    case 0
    then show ?thesis by (simp add: slot_def b')
  next
    case (Suc m)
    then have m: "m < length ?es" using that by simp
    then have e: "?es ! m \<in> set ?es" by (rule nth_mem)
    have "?cs ! k = f (?es ! m)" using Suc m by simp
    moreover have "b_boxes b' (?es ! m) = Some (int k)"
      using number_boxes_nth [OF D(4) m] Suc by (simp add: b')
    ultimately show ?thesis using f [OF e] cf [OF e] by (simp add: slot_def)
  qed
  ultimately show ?thesis unfolding full_round_def using b' by (intro conjI exI [of _ ?cs]) auto
qed

text \<open>Steps.\<close>

lemma barrier_enter_cases:
  assumes "barrier_enter l b a = (res, b', a')"
  obtains (refused) err where "res = Inl err" "b_aborted b \<or> b_broken b"
      "b' = b\<lparr>b_boxes := (b_boxes b)(next_evt a := None)\<rparr>" "a' = a\<lparr>next_evt := Suc (next_evt a)\<rparr>"
  | (passed) "res = Inr (Passed \<lparr>r_parties = b_parties b, r_index = 0\<rparr>)" "\<not> b_aborted b" "\<not> b_broken b"
      "int (length (b_waiters b)) + 1 = b_parties b"
      "b' = b\<lparr>b_boxes := number_boxes 1 (map fst (b_waiters b)) ((b_boxes b)(next_evt a := None)),
         b_waiters := [], b_generation := b_generation b + 1\<rparr>"
      "a' = fold wake_ignoring (b_waiters b) (a\<lparr>next_evt := Suc (next_evt a)\<rparr>)"
  | (blocked) "res = Inr (Blocked (next_evt a) (b_generation b))" "\<not> b_aborted b" "\<not> b_broken b"
      "b' = b\<lparr>b_boxes := (b_boxes b)(next_evt a := None), b_waiters := od_set (next_evt a) l (b_waiters b)\<rparr>"
      "a' = a\<lparr>next_evt := Suc (next_evt a)\<rparr>"
  using assms by (auto simp: barrier_enter_def new_event_def Let_def split: if_splits)

lemma bar_invI:
  assumes "\<And>g. full_round (bar s) (calls s) g \<or> dead_round (bar s) (calls s) g"
    and "calls_ok (bar s) (next_evt (bar_aio s)) (calls s)"
    and "events_ok (bar s) (bar_aio s) (pending s)"
  shows "bar_inv s"
  using assms by (simp add: bar_inv_def)

lemma bar_inv_enter:
  assumes inv: "bar_inv s" and c: "calls s c = Uncalled"
    and en: "barrier_enter l (bar s) (bar_aio s) = (res, b, a)"
    and x: "x = (case res of Inr (Passed r) \<Rightarrow> Returned (b_generation (bar s)) r
      | Inr (Blocked e g) \<Rightarrow> Suspended_in e g | Inl err \<Rightarrow> Refused)"
  shows "bar_inv (s\<lparr>bar := b, bar_aio := a, calls := (calls s)(c := x)\<rparr>)"
proof -
  let ?e = "next_evt (bar_aio s)" let ?b = "bar s" let ?G = "b_generation ?b"
  have rounds: "\<And>g. full_round ?b (calls s) g \<or> dead_round ?b (calls s) g"
    and cok: "calls_ok ?b ?e (calls s)" and eok: "events_ok ?b (bar_aio s) (pending s)"
    using inv by (simp_all add: bar_inv_def)
  note C = calls_okD [OF cok] and E = events_okD [OF eok]
  have fresh: "\<And>d e g. calls s d = Suspended_in e g \<Longrightarrow> e < ?e" by (rule C(2))
  have q: "\<And>e. od_has e (b_waiters ?b) \<Longrightarrow> e < ?e" using C(2,5) by blast
  then have nq: "\<not> od_has ?e (b_waiters ?b)" by blast
  have nG: "\<not> full_round ?b (calls s) ?G" by (simp add: full_round_def)
  have none: "\<And>g. call_gen (calls s c) \<noteq> Some g" using c by simp
  from en show ?thesis
  proof (cases rule: barrier_enter_cases)
    case (refused err)
    show ?thesis
    proof (rule bar_invI, goal_cases)
      case (1 g)
      have "full_round b (calls s) g \<or> dead_round b (calls s) g"
        using rounds [of g] full_boxes [of ?b "calls s" g b] dead_boxes [of ?b "calls s" g b] fresh refused(3)
        by fastforce
      then have "full_round b ((calls s)(c := x)) g \<or> dead_round b ((calls s)(c := x)) g"
        using full_upd [of b "calls s" g x c] dead_upd [of b "calls s" g x c] c
        by (auto simp: slot_def x refused(1))
      then show ?case by simp
    next
      case 2
      show ?case using calls_ok_upd [OF cok, of "Suc ?e" x c] c x refused by simp
    next
      case 3
      show ?case using eok refused by (auto simp: events_ok_def intro: less_SucI)
    qed
  next
    case blocked
    show ?thesis
    proof (rule bar_invI, goal_cases)
      case (1 g)
      have "full_round b (calls s) g \<or> dead_round b (calls s) g"
        using rounds [of g] full_boxes [of ?b "calls s" g b] dead_boxes [of ?b "calls s" g b] fresh blocked(4)
        by fastforce
      moreover have "\<not> full_round b (calls s) ?G" using blocked(4) by (simp add: full_round_def)
      ultimately have "full_round b ((calls s)(c := x)) g \<or> dead_round b ((calls s)(c := x)) g"
        using full_upd [of b "calls s" g x c] dead_upd [of b "calls s" g x c] c blocked(4)
        by (auto simp: slot_def x blocked(1))
      then show ?case by simp
    next
      case 2
      show ?case using calls_ok_block [OF cok c nq blocked(2)] x blocked od_set_fresh [OF nq] by simp
    next
      case 3
      show ?case using eok blocked nq by (auto simp: events_ok_def od_set_fresh intro: less_SucI)
    qed
  next
    case passed
    show ?thesis
    proof (rule bar_invI, goal_cases)
      case (1 g)
      have "full_round b ((calls s)(c := x)) g \<or> dead_round b ((calls s)(c := x)) g"
      proof (cases "g = ?G")
        case True
        then show ?thesis using full_pass [OF cok c, of b] passed x by simp
      next
        case False
        have bx: "b_boxes b e = b_boxes ?b e" if "calls s d = Suspended_in e g" for d e
        proof -
          have "\<not> od_has e (b_waiters ?b)"
          proof
            assume "od_has e (b_waiters ?b)"
            then obtain d' where "calls s d' = Suspended_in e ?G" using C(5) by blast
            then show False using C(3) that False by fastforce
          qed
          then have "e \<notin> set (map fst (b_waiters ?b))" by (simp add: od_has_def)
          then show ?thesis using that fresh passed(5) by (auto simp: number_boxes_other)
        qed
        have "full_round b (calls s) g \<or> dead_round b (calls s) g"
          using rounds [of g] full_boxes [of ?b "calls s" g b] dead_boxes [of ?b "calls s" g b] bx passed(5)
          by auto
        then show ?thesis
          using full_upd [of b "calls s" g x c] dead_upd [of b "calls s" g x c] c False
          by (auto simp: slot_def x passed(1))
      qed
      then show ?case by simp
    next
      case 2
      have n: "next_evt a = Suc ?e" using wake_ignoring_mono(1) passed(6) by simp
      have "calls_ok b ?e (calls s)" using passed by (intro calls_ok_next [OF cok]) simp_all
      from calls_ok_upd [OF this, of "Suc ?e" x c] show ?case using n c x passed(1,5) by simp
    next
      case 3
      let ?a = "(bar_aio s)\<lparr>next_evt := Suc ?e\<rparr>"
      have "events_ok ?b ?a (pending s)" using eok by (auto simp: events_ok_def intro: less_SucI)
      moreover have "e < Suc ?e" if "od_has e (b_waiters ?b)" for e
        using q [OF that] by simp
      ultimately show ?case using events_ok_wakes [of ?b ?a "pending s" "b_waiters ?b" b "pending s"] passed by auto
    qed
  qed
qed

text \<open>A suspended call ends: the rounds.\<close>

lemma bar_rounds_end:
  assumes r: "full_round b cl g' \<or> dead_round b cl g'" and c: "cl c = Suspended_in e g"
    and x: "x = Cancelled g \<or> (case barrier_resume e g b of Inl err \<Rightarrow> x = Raised g | Inr r \<Rightarrow> x = Returned g r)"
  shows "full_round b (cl(c := x)) g' \<or> dead_round b (cl(c := x)) g'"
  using r
proof
  assume f: "full_round b cl g'"
  have "call_gen x = Some g" using x by (auto split: sum.splits)
  moreover have "slot b g' k x" if "slot b g' k (cl c)" for k
  proof -
    from that c have k: "g' = g" "b_boxes b e = Some (int k)" by (auto simp: slot_def)
    with f have "g < b_generation b" by (simp add: full_round_def)
    then show ?thesis using x k by (auto simp: slot_def barrier_resume_def)
  qed
  ultimately show ?thesis using full_upd [OF f, of x c] c by simp
next
  assume d: "dead_round b cl g'"
  have "x \<noteq> Returned g' r" for r
  proof
    assume xr: "x = Returned g' r"
    then have "g' = g" and br: "barrier_resume e g b = Inr r" using x by (auto split: sum.splits)
    with d c have "b_boxes b e \<in> {None, Some (- 1)}" by (simp add: dead_round_def)
    with br show False by (auto simp: barrier_resume_def split: if_splits)
  qed
  moreover have "x \<noteq> Suspended_in e' g'" for e' using x by (auto split: sum.splits)
  ultimately show ?thesis using dead_upd [OF d, of x c] by simp
qed

lemma bar_inv_woken:
  assumes inv: "bar_inv s" and c: "calls s c = Suspended_in e g" and e: "e \<in> evset (bar_aio s)"
    and x: "case barrier_resume e g (bar s) of Inl err \<Rightarrow> x = Raised g | Inr r \<Rightarrow> x = Returned g r"
  shows "bar_inv (s\<lparr>calls := (calls s)(c := x)\<rparr>)"
proof -
  have rounds: "\<And>g. full_round (bar s) (calls s) g \<or> dead_round (bar s) (calls s) g"
    and cok: "calls_ok (bar s) (next_evt (bar_aio s)) (calls s)" and eok: "events_ok (bar s) (bar_aio s) (pending s)"
    using inv by (simp_all add: bar_inv_def)
  note C = calls_okD [OF cok] and E = events_okD [OF eok]
  have out: "\<not> od_has e (b_waiters (bar s))" using E(1,3) e by blast
  have g: "g \<le> b_generation (bar s)" using C(1) [of c g] c by simp
  have ab: "g = b_generation (bar s) \<longrightarrow> b_aborted (bar s)" using C(4) [of c] c out by auto
  have "call_gen x = Some g" "\<And>e g. x \<noteq> Suspended_in e g" using x by (auto split: sum.splits)
  then have "calls_ok (bar s) (next_evt (bar_aio s)) ((calls s)(c := x))"
    using calls_ok_upd [OF cok order_refl, of x c] g ab out c by auto
  moreover have "full_round (bar s) ((calls s)(c := x)) h \<or> dead_round (bar s) ((calls s)(c := x)) h" for h
    using bar_rounds_end [OF rounds c] x by blast
  ultimately show ?thesis using eok by (intro bar_invI) simp_all
qed

lemma bar_inv_cancel:
  assumes inv: "bar_inv s" and c: "calls s c = Suspended_in e g"
    and ca: "barrier_cancelled g (bar s) (bar_aio s) = (b, a)"
  shows "bar_inv (s\<lparr>bar := b, bar_aio := a, calls := (calls s)(c := Cancelled g)\<rparr>)"
proof -
  let ?b = "bar s"
  have rounds: "\<And>g. full_round ?b (calls s) g \<or> dead_round ?b (calls s) g"
    and cok: "calls_ok ?b (next_evt (bar_aio s)) (calls s)" and eok: "events_ok ?b (bar_aio s) (pending s)"
    using inv by (simp_all add: bar_inv_def)
  note C = calls_okD [OF cok] and E = events_okD [OF eok]
  have g: "g \<le> b_generation ?b" using C(1) [of c g] c by simp
  show ?thesis
  proof (cases "g = b_generation ?b")
    case False
    have "\<not> od_has f (b_waiters ?b)" if "calls s c = Suspended_in f (b_generation ?b)" for f
      using that c False by simp
    with calls_ok_upd [OF cok order_refl, of "Cancelled g" c] g False
    have "calls_ok ?b (next_evt (bar_aio s)) ((calls s)(c := Cancelled g))" by simp
    then show ?thesis
      using ca False eok bar_rounds_end [OF rounds c, of "Cancelled g"]
      by (intro bar_invI) (auto simp: barrier_cancelled_def)
  next
    case True
    let ?es = "set (map fst (b_waiters ?b))"
    have b: "b = ?b\<lparr>b_broken := True, b_waiters := [], b_generation := b_generation ?b + 1,
        b_boxes := (\<lambda>e. if e \<in> ?es then Some (- 1) else b_boxes ?b e)\<rparr>"
      and a: "a = fold wake_ignoring (b_waiters ?b) (bar_aio s)"
      using ca True by (simp_all add: barrier_cancelled_def)
    have bx: "b_boxes b f = b_boxes ?b f" if "calls s d = Suspended_in f h" "h \<noteq> g" for d f h
    proof -
      have "\<not> od_has f (b_waiters ?b)"
      proof
        assume "od_has f (b_waiters ?b)"
        then obtain d' where "calls s d' = Suspended_in f g" using C(5) True by blast
        then show False using C(3) that by fastforce
      qed
      then show ?thesis by (simp add: b od_has_def)
    qed
    have r: "full_round b (calls s) h \<or> dead_round b (calls s) h" for h
    proof (cases "h = g")
      case h: True
      then have "dead_round ?b (calls s) h" using rounds [of h] True by (auto simp: full_round_def)
      then have "dead_round b (calls s) h" by (rule dead_boxes) (auto simp: b)
      then show ?thesis by blast
    next
      case False
      then show ?thesis
        using rounds [of h] full_boxes [of ?b "calls s" h b] dead_boxes [of ?b "calls s" h b] bx
        by (auto simp: b)
    qed
    have cok': "calls_ok b (next_evt a) (calls s)"
      using calls_ok_next [OF cok, of b] wake_ignoring_mono(1) by (simp add: a b)
    have "calls_ok b (next_evt a) ((calls s)(c := Cancelled g))"
      by (rule calls_ok_upd [OF cok' order_refl]) (use True b in auto)
    moreover have "events_ok b a (pending s)"
      unfolding a by (rule events_ok_wakes [OF eok]) (use b C(2,5) in \<open>auto, blast\<close>)
    moreover have "full_round b ((calls s)(c := Cancelled g)) h \<or> dead_round b ((calls s)(c := Cancelled g)) h" for h
      using bar_rounds_end [OF r c, of "Cancelled g"] by blast
    ultimately show ?thesis by (intro bar_invI) simp_all
  qed
qed

lemma bar_inv_emptied:
  assumes inv: "bar_inv s" and ws: "ws = b_waiters (bar s)" and "b_waiters b = []"
    and "b_boxes b = b_boxes (bar s)" "b_parties b = b_parties (bar s)" "b_generation (bar s) \<le> b_generation b"
    and "calls_ok b (next_evt (bar_aio s)) (calls s)"
  shows "bar_inv (s\<lparr>bar := b, pending := pending s @ ws\<rparr>)"
proof -
  have rounds: "\<And>g. full_round (bar s) (calls s) g \<or> dead_round (bar s) (calls s) g"
    and cok: "calls_ok (bar s) (next_evt (bar_aio s)) (calls s)" and eok: "events_ok (bar s) (bar_aio s) (pending s)"
    using inv by (simp_all add: bar_inv_def)
  have "full_round b (calls s) g \<or> dead_round b (calls s) g" for g
    using rounds [of g] full_boxes [of "bar s" "calls s" g b] dead_boxes [of "bar s" "calls s" g b] assms(4-6)
    by auto
  moreover have q: "e < next_evt (bar_aio s)" if "od_has e (b_waiters (bar s))" for e
    using calls_okD(2,5) [OF cok] that by blast
  moreover have "events_ok b (bar_aio s) (pending s @ ws)"
    by (rule events_okI) (use events_okD [OF eok] q assms(2,3) in \<open>auto\<close>)
  ultimately show ?thesis using assms(7) by (intro bar_invI) simp_all
qed

lemma bar_inv_step:
  assumes inv: "bar_inv s" and st: "bar_step s s'"
  shows "bar_inv s'"
  using st
proof cases
  case (bar_pass c l r b a)
  show ?thesis unfolding bar_pass(1) by (rule bar_inv_enter [OF inv bar_pass(2,3)]) simp
next
  case (bar_block c l e g b a)
  show ?thesis unfolding bar_block(1) by (rule bar_inv_enter [OF inv bar_block(2,3)]) simp
next
  case (bar_refuse c l err b a)
  show ?thesis unfolding bar_refuse(1) by (rule bar_inv_enter [OF inv bar_refuse(2,3)]) simp
next
  case (bar_cancel c e g b a)
  show ?thesis unfolding bar_cancel(1) by (rule bar_inv_cancel [OF inv bar_cancel(2,3)])
next
  case (bar_return c e g r)
  show ?thesis unfolding bar_return(1) by (rule bar_inv_woken [OF inv bar_return(2,3)]) (simp add: bar_return)
next
  case (bar_raise c e g err)
  show ?thesis unfolding bar_raise(1) by (rule bar_inv_woken [OF inv bar_raise(2,3)]) (simp add: bar_raise)
next
  case (bar_aio a)
  show ?thesis unfolding bar_aio(1) by (rule bar_inv_env [OF inv]) (simp add: bar_aio)
next
  case (bar_new e a)
  show ?thesis unfolding bar_new(1) by (rule bar_inv_env [OF inv, of _ e]) (simp add: bar_new)
next
  case (bar_other l e a)
  show ?thesis unfolding bar_other(1) by (rule bar_inv_env [OF inv, of _ e l]) (use bar_other in blast)
next
  case (bar_wake ws1 w ws2)
  have "events_ok (bar s) (bar_aio s) (pending s)" using inv by (simp add: bar_inv_def)
  note E = events_okD [OF this]
  obtain f k where w: "w = (f, k)" by fastforce
  have "od_has f (pending s)" using bar_wake(2) w by simp
  then have "f < next_evt (bar_aio s)" "\<not> od_has f (b_waiters (bar s))" using E(2,6) by blast+
  then have "events_ok (bar s) (fold wake_ignoring [w] (bar_aio s)) (ws1 @ ws2)"
    by (intro events_ok_wakes [OF \<open>events_ok (bar s) (bar_aio s) (pending s)\<close>]) (auto simp: w bar_wake(2))
  from bar_inv_events [OF inv this] wake_ignoring_mono(1) [of "[w]" "bar_aio s"]
  show ?thesis by (simp add: bar_wake(1))
next
  case (bar_abort b ws)
  then have b: "b = (bar s)\<lparr>b_aborted := True, b_broken := True, b_waiters := []\<rparr>" "ws = b_waiters (bar s)"
    by (simp_all add: barrier_abort_def)
  show ?thesis unfolding bar_abort(1)
  proof (rule bar_inv_emptied [OF inv b(2)])
    have cok: "calls_ok (bar s) (next_evt (bar_aio s)) (calls s)" using inv by (simp add: bar_inv_def)
    note C = calls_okD [OF cok]
    show "calls_ok b (next_evt (bar_aio s)) (calls s)"
      by (rule calls_okI) (use C b in \<open>auto\<close>)
  qed (simp_all add: b)
next
  case (bar_reset b ws)
  then have b: "b = (bar s)\<lparr>b_waiters := [], b_generation := b_generation (bar s) + 1, b_aborted := False,
     b_broken := False\<rparr>" "ws = b_waiters (bar s)"
    by (simp_all add: barrier_reset_def)
  show ?thesis unfolding bar_reset(1)
  proof (rule bar_inv_emptied [OF inv b(2)])
    have cok: "calls_ok (bar s) (next_evt (bar_aio s)) (calls s)" using inv by (simp add: bar_inv_def)
    show "calls_ok b (next_evt (bar_aio s)) (calls s)"
      by (rule calls_ok_next [OF cok]) (simp_all add: b)
  qed (simp_all add: b)
qed

interpretation barriers: invariant_system bar_start bar_step bar_inv
  by unfold_locales (auto intro: bar_inv_start bar_inv_step)

section \<open>Properties\<close>

text \<open>
  C22: a call that returns belongs to a full round.  Whatever calls arrive, are cancelled,
  and whenever the barrier is aborted or reset: if \<open>wait\<close> has returned with index \<open>i\<close>, then
  exactly \<open>parties\<close> calls arrived in its generation, \<open>i\<close> is between 0 and \<open>parties - 1\<close>, and
  no other call of that generation returned with the same index.
\<close>

theorem barrier_round:
  assumes "bar_start s0" and "reach bar_step s0 s" and "calls s c = Returned g r"
  shows "int (card {d. call_gen (calls s d) = Some g}) = b_parties (bar s) \<and>
    r_parties r = b_parties (bar s) \<and> 0 \<le> r_index r \<and> r_index r < b_parties (bar s) \<and>
    (\<forall>d r'. calls s d = Returned g r' \<longrightarrow> r_index r' = r_index r \<longrightarrow> d = c)"
proof -
  have "bar_inv s" using barriers.inv_reach assms(1,2) by blast
  then have "full_round (bar s) (calls s) g"
    using assms(3) by (auto simp: bar_inv_def dead_round_def)
  then obtain cs where cs: "distinct cs" "int (length cs) = b_parties (bar s)"
    "set cs = {d. call_gen (calls s d) = Some g}" "\<And>k. k < length cs \<Longrightarrow> slot (bar s) g k (calls s (cs ! k))"
    unfolding full_round_def by blast
  have at: "\<exists>k < length cs. d = cs ! k \<and> r' = \<lparr>r_parties = b_parties (bar s), r_index = int k\<rparr>"
    if "calls s d = Returned g r'" for d r'
  proof -
    have "d \<in> set cs" using that cs(3) by simp
    then obtain k where k: "k < length cs" "d = cs ! k" by (metis in_set_conv_nth)
    with cs(4) [OF k(1)] that show ?thesis by (auto simp: slot_def)
  qed
  have "card {d. call_gen (calls s d) = Some g} = length cs"
    using cs(1,3) by (metis distinct_card)
  moreover obtain k where "k < length cs" "c = cs ! k" "r = \<lparr>r_parties = b_parties (bar s), r_index = int k\<rparr>"
    using at [OF assms(3)] by blast
  moreover have "d = c" if "calls s d = Returned g r'" "r_index r' = int k" for d r'
    using at [OF that(1)] that(2) calculation(3) by auto
  ultimately show ?thesis using cs(2) by auto
qed

text \<open>A run: two parties, both arrive.\<close>

definition bar_demo :: bar_sys where
  "bar_demo = \<lparr>bar = \<lparr>b_parties = 2, b_generation = 0, b_waiters = [], b_boxes = (\<lambda>_. None),
     b_aborted = False, b_broken = False\<rparr>, bar_aio = aio_init, pending = [], calls = (\<lambda>_. Uncalled)\<rparr>"

lemma bar_demo_run:
  "\<exists>s. reach bar_step bar_demo s \<and> calls s 1 = Returned 0 \<lparr>r_parties = 2, r_index = 0\<rparr> \<and> b_parties (bar s) = 2"
proof -
  let ?b1 = "(bar bar_demo)\<lparr>b_waiters := [(0, 0)]\<rparr>" and ?a1 = "aio_init\<lparr>next_evt := 1\<rparr>"
  let ?s1 = "bar_demo\<lparr>bar := ?b1, bar_aio := ?a1, calls := (calls bar_demo)(0 := Suspended_in 0 0)\<rparr>"
  let ?b2 = "(bar bar_demo)\<lparr>b_boxes := (\<lambda>_. None)(0 := Some 1), b_generation := 1\<rparr>"
  let ?a2 = "fold wake_ignoring [(0, 0)] (aio_init\<lparr>next_evt := 2\<rparr>)"
  let ?r = "\<lparr>r_parties = 2, r_index = 0\<rparr>"
  have e1: "barrier_enter 0 (bar bar_demo) (bar_aio bar_demo) = (Inr (Blocked 0 0), ?b1, ?a1)"
    by (unfold barrier_enter_def bar_demo_def new_event_def aio_init_def Let_def) simp
  have 1: "bar_step bar_demo ?s1"
    by (rule bar_step.bar_block [OF _ e1]) (simp add: bar_demo_def)
  have e2: "barrier_enter 1 (bar ?s1) (bar_aio ?s1) = (Inr (Passed ?r), ?b2, ?a2)"
    by (unfold barrier_enter_def bar_demo_def new_event_def aio_init_def Let_def) (simp add: numeral_2_eq_2)
  have 2: "bar_step ?s1 (?s1\<lparr>bar := ?b2, bar_aio := ?a2,
      calls := (calls ?s1)(1 := Returned (b_generation (bar ?s1)) ?r)\<rparr>)"
    by (rule bar_step.bar_pass [OF _ e2]) (simp add: bar_demo_def)
  show ?thesis
    by (rule exI, rule conjI, rule reach_step [where step = bar_step, OF reach_one [where step = bar_step, OF 1] 2])
      (simp add: bar_demo_def)
qed

theorem barrier_round_witness:
  "\<exists>s :: bar_sys. calls s 1 = Returned 0 \<lparr>r_parties = 2, r_index = 0\<rparr> \<and> int (card {d. call_gen (calls s d) = Some 0}) = 2"
proof -
  obtain s where s: "reach bar_step bar_demo s" "calls s 1 = Returned 0 \<lparr>r_parties = 2, r_index = 0\<rparr>"
    "b_parties (bar s) = 2"
    using bar_demo_run by blast
  have "bar_start bar_demo"
    by (auto simp: bar_start_def bar_demo_def barrier_new_def intro: exI [of _ 2])
  from conjunct1 [OF barrier_round [OF this s(1,2)]] s(3)
  have "int (card {d. call_gen (calls s d) = Some 0}) = 2" by simp
  with s(2) show ?thesis by blast
qed

end
