(* ===== verification/Futures.thy ===== *)
theory Futures
  imports Oneshot
begin

text \<open>
  Futures that one task waits for and others complete through the task's loop
  (\<open>_set_soon\<close>, \<open>_wake_all\<close> of \<open>_channel_base.py\<close>), as events of the model of asyncio; and
  the discipline all queues of futures of the program follow: a queued future has not been
  handed to any loop.
\<close>

section \<open>The code\<close>

text \<open>\<open>dn\<close> is \<open>fut.done()\<close>.  Setting a future that is done already has no effect.\<close>

definition set_soon :: "loop \<Rightarrow> evt \<Rightarrow> aio \<Rightarrow> aio" where
  "set_soon l f a = (case call_soon_set l f a of Some a' \<Rightarrow> a' | None \<Rightarrow> a)"

text \<open>\<open>_wake_all\<close> on a list; on an \<open>OrderedDict\<close>, which it empties; and \<open>_discard_waiter\<close>.\<close>

fun wake_all_list :: "(evt \<Rightarrow> bool) \<Rightarrow> (loop \<times> evt) list \<Rightarrow> aio \<Rightarrow> aio" where
  "wake_all_list dn [] a = a"
| "wake_all_list dn ((l, f) # ws) a =
     (if \<not> dn f then wake_all_list dn ws (set_soon l f a) else wake_all_list dn ws a)"

fun wake_all_dict :: "nat option \<Rightarrow> (evt \<Rightarrow> bool) \<Rightarrow> (evt, loop) odict \<Rightarrow> aio \<Rightarrow> (evt, loop) odict \<times> aio" where
  "wake_all_dict n dn [] a = ([], a)"
| "wake_all_dict n dn ((f, l) # ws) a =
     (if n = Some 0 then ((f, l) # ws, a)
      else if dn f then wake_all_dict n dn ws a
      else wake_all_dict (map_option (\<lambda>n. n - 1) n) dn ws (set_soon l f a))"

definition discard_waiter :: "evt \<Rightarrow> (evt, loop) odict \<Rightarrow> bool \<times> (evt, loop) odict" where
  "discard_waiter f ws = (od_has f ws, od_del f ws)"

section \<open>The discipline of queued futures\<close>

definition fut_ok :: "evt set \<Rightarrow> aio \<Rightarrow> bool" where
  "fut_ok Q a \<longleftrightarrow> (\<forall>e \<in> Q. e \<notin> scheduled a \<and> e < next_evt a) \<and> (\<forall>e \<in> evset a. e \<in> scheduled a) \<and>
     (\<forall>c \<in> set (callbacks a). snd c \<in> scheduled a) \<and> (\<forall>e \<in> scheduled a. e < next_evt a)"

lemma fut_okD:
  assumes "fut_ok Q a"
  shows "e \<in> evset a \<Longrightarrow> e \<notin> Q" "e \<in> Q \<Longrightarrow> e < next_evt a" "e \<in> scheduled a \<Longrightarrow> e < next_evt a"
    "e \<in> Q \<Longrightarrow> e \<notin> scheduled a" "e \<in> evset a \<Longrightarrow> e \<in> scheduled a"
  using assms unfolding fut_ok_def by blast+

lemma fut_ok_init: "fut_ok {} aio_init"
  by (simp add: fut_ok_def aio_init_def)

lemma fut_ok_mono: "fut_ok Q a \<Longrightarrow> Q' \<subseteq> Q \<Longrightarrow> fut_ok Q' a"
  unfolding fut_ok_def by blast

lemma fut_ok_new:
  "fut_ok Q a \<Longrightarrow> new_event a = (e, a') \<Longrightarrow> fut_ok (insert e Q) a' \<and> e \<notin> Q \<and> e = next_evt a \<and> next_evt a' = Suc e"
  by (auto simp: fut_ok_def new_event_eq intro: less_SucI)

lemma set_soon_eq: "set_soon l e a = (if l \<in> closed a then a
     else a\<lparr>callbacks := callbacks a @ [(l, e)], scheduled := insert e (scheduled a)\<rparr>)"
  by (simp add: set_soon_def call_soon_set_def)

lemma fut_ok_set_soon:
  "fut_ok Q a \<Longrightarrow> e < next_evt a \<Longrightarrow> fut_ok (Q - {e}) (set_soon l e a) \<and> next_evt (set_soon l e a) = next_evt a"
  by (auto simp: fut_ok_def set_soon_eq)

lemma fut_ok_wake_list:
  "fut_ok Q a \<Longrightarrow> (\<And>w. w \<in> set ws \<Longrightarrow> snd w < next_evt a) \<Longrightarrow>
   fut_ok (Q - snd ` set ws) (wake_all_list dn ws a) \<and> next_evt (wake_all_list dn ws a) = next_evt a"
proof (induction dn ws a arbitrary: Q rule: wake_all_list.induct)
  case (2 dn l f ws a)
  have s: "fut_ok (Q - {f}) (set_soon l f a)" "next_evt (set_soon l f a) = next_evt a"
    using fut_ok_set_soon [OF 2(3), of f l] 2(4) [of "(l, f)"] by simp_all
  have eq: "Q - snd ` set ((l, f) # ws) = (Q - {f}) - snd ` set ws" by auto
  show ?case
  proof (cases "dn f")
    case False
    then show ?thesis unfolding eq using 2(1) [OF False s(1)] 2(4) s(2) by simp
  next
    case True
    have "fut_ok (Q - {f}) a" by (rule fut_ok_mono [OF 2(3)]) blast
    then show ?thesis unfolding eq using 2(2) [of "Q - {f}"] 2(4) True by simp
  qed
qed simp

lemma fut_ok_wake_dict:
  "fut_ok Q a \<Longrightarrow> (\<And>w. w \<in> set ws \<Longrightarrow> fst w < next_evt a) \<Longrightarrow> wake_all_dict n dn ws a = (ws', a') \<Longrightarrow>
   fut_ok (Q - fst ` set ws) a' \<and> next_evt a' = next_evt a"
proof (induction n dn ws a arbitrary: Q rule: wake_all_dict.induct)
  case (2 n dn f l ws a)
  have s: "fut_ok (Q - {f}) (set_soon l f a)" "next_evt (set_soon l f a) = next_evt a"
    using fut_ok_set_soon [OF 2(3), of f l] 2(4) [of "(f, l)"] by simp_all
  have eq: "Q - fst ` set ((f, l) # ws) = (Q - {f}) - fst ` set ws" by auto
  have d: "fut_ok (Q - {f}) a" by (rule fut_ok_mono [OF 2(3)]) blast
  consider (no) "n = Some 0" | (dn) "n \<noteq> Some 0" "dn f" | (up) "n \<noteq> Some 0" "\<not> dn f" by blast
  then show ?case
  proof cases
    case no
    then have "a' = a" using 2(5) by simp
    then show ?thesis using fut_ok_mono [OF 2(3) Diff_subset] by simp
  next
    case dn
    then show ?thesis unfolding eq using 2(1) [OF dn d] 2(4,5) by simp
  next
    case up
    then show ?thesis unfolding eq using 2(2) [OF up s(1)] 2(4,5) s(2) by simp
  qed
qed simp

text \<open>
  The environment of a component whose tasks wait for the futures \<open>P\<close>: its loops run, other
  components create and complete futures of their own.
\<close>

inductive fut_env :: "evt set \<Rightarrow> aio \<Rightarrow> aio \<Rightarrow> bool" for P where
  fut_env_aio: "aio_step a a' \<Longrightarrow> fut_env P a a'"
| fut_env_new: "new_event a = (e, a') \<Longrightarrow> fut_env P a a'"
| fut_env_set: "call_soon_set l e a = Some a' \<Longrightarrow> e < next_evt a \<Longrightarrow> e \<notin> P \<Longrightarrow> fut_env P a a'"

lemma fut_ok_env:
  assumes ok: "fut_ok Q a" and st: "fut_env P a a'" and "Q \<subseteq> P"
  shows "fut_ok Q a' \<and> next_evt a \<le> next_evt a'"
  using st
proof cases
  case fut_env_aio
  note m = aio_step_mono [OF fut_env_aio]
  have "e \<in> scheduled a'" if "e \<in> evset a'" for e
    using that ok m(1,5) unfolding fut_ok_def by fastforce
  moreover have "\<forall>c \<in> set (callbacks a'). snd c \<in> scheduled a'"
    using ok m(1,4) unfolding fut_ok_def by blast
  ultimately show ?thesis using ok m(1,2) unfolding fut_ok_def by simp
next
  case (fut_env_new e)
  from fut_ok_new [OF ok fut_env_new] have "fut_ok (insert e Q) a'" "next_evt a' = Suc (next_evt a)" by auto
  then show ?thesis using fut_ok_mono [OF _ subset_insertI] by fastforce
next
  case (fut_env_set l e)
  then show ?thesis using ok assms(3) by (auto simp: fut_ok_def call_soon_set_Some)
qed

end
