(* ===== verification/WaitGroups.thy ===== *)
theory WaitGroups
  imports Futures "HOL-Library.Word"
begin

text \<open>
  \<open>multiloop.primitives.AsyncWaitGroup\<close> over \<open>waitgroup.rs\<close>, and the coroutine wrapper of
  \<open>track\<close>.  Proved: the counter never wraps, \<open>add\<close> fails exactly when the sum is out of
  range and then changes nothing, nobody waits for a counter that is zero, and how often a
  tracked coroutine calls \<open>done\<close>.
\<close>

section \<open>The wait group\<close>

text \<open>\<open>WaitGroupInner\<close>: the counter is a \<open>usize\<close> of 64 bits.\<close>

record wait_group =
  g_counter :: "64 word"
  g_generation :: "64 word"
  g_waiters :: "(loop \<times> evt) list"

definition wg_new :: wait_group where
  "wg_new = \<lparr>g_counter = 0, g_generation = 0, g_waiters = []\<rparr>"

definition wg_release :: "wait_group \<Rightarrow> (loop \<times> evt) list option \<times> wait_group" where
  "wg_release g =
     (if g_counter g = 0 then
        (Some (g_waiters g), g\<lparr>g_generation := g_generation g + 1, g_waiters := []\<rparr>)
      else (None, g))"

text \<open>
  \<open>RawAsyncWaitGroup.add\<close>: the Python integer becomes an \<open>isize\<close>, which raises
  \<open>OverflowError\<close> when it does not fit; \<open>unsigned_abs\<close> and \<open>checked_add\<close> work on words.
\<close>

definition wg_raw_add :: "int \<Rightarrow> wait_group \<Rightarrow> (error + (loop \<times> evt) list option) \<times> wait_group" where
  "wg_raw_add delta g =
     (if delta < - (2 ^ 63) \<or> 2 ^ 63 \<le> delta then (Inl OverflowError, g)
      else if delta < 0 then
        (let magnitude = word_of_int (- delta) in
         if g_counter g < magnitude then
           (Inl (RuntimeError ''WaitGroup counter went negative: add() with negative delta''), g)
         else
           (let (ws, g) = wg_release (g\<lparr>g_counter := g_counter g - magnitude\<rparr>) in (Inr ws, g)))
      else
        (let v = g_counter g + word_of_int delta in
         if v < g_counter g then
           (Inl (RuntimeError ''WaitGroup counter overflowed: add() with positive delta''), g)
         else (Inr None, g\<lparr>g_counter := v\<rparr>)))"

definition wg_raw_done :: "wait_group \<Rightarrow> (error + (loop \<times> evt) list option) \<times> wait_group" where
  "wg_raw_done g =
     (if g_counter g = 0 then
        (Inl (RuntimeError ''WaitGroup counter went negative: too many done() calls''), g)
      else (let (ws, g) = wg_release (g\<lparr>g_counter := g_counter g - 1\<rparr>) in (Inr ws, g)))"

text \<open>The methods of \<open>AsyncWaitGroup\<close>: an error, or \<open>None\<close> for a normal return.\<close>

definition wg_wake ::
    "(evt \<Rightarrow> bool) \<Rightarrow> (error + (loop \<times> evt) list option) \<times> wait_group \<Rightarrow> aio \<Rightarrow> error option \<times> wait_group \<times> aio" where
  "wg_wake dn r a =
     (case r of
        (Inl e, g) \<Rightarrow> (Some e, g, a)
      | (Inr (Some waiters), g) \<Rightarrow> (None, g, wake_all_list dn waiters a)
      | (Inr None, g) \<Rightarrow> (None, g, a))"

definition wg_add :: "(evt \<Rightarrow> bool) \<Rightarrow> int \<Rightarrow> wait_group \<Rightarrow> aio \<Rightarrow> error option \<times> wait_group \<times> aio" where
  "wg_add dn delta g a = wg_wake dn (wg_raw_add delta g) a"

definition wg_done :: "(evt \<Rightarrow> bool) \<Rightarrow> wait_group \<Rightarrow> aio \<Rightarrow> error option \<times> wait_group \<times> aio" where
  "wg_done dn g a = wg_wake dn (wg_raw_done g) a"

definition wg_register :: "loop \<times> evt \<Rightarrow> wait_group \<Rightarrow> bool \<times> wait_group" where
  "wg_register w g = (if g_counter g = 0 then (True, g) else (False, g\<lparr>g_waiters := g_waiters g @ [w]\<rparr>))"

definition wg_unregister :: "evt \<Rightarrow> wait_group \<Rightarrow> bool \<times> wait_group" where
  "wg_unregister f g =
     (let g' = g\<lparr>g_waiters := filter (\<lambda>w. snd w \<noteq> f) (g_waiters g)\<rparr>
      in (length (g_waiters g') \<noteq> length (g_waiters g), g'))"

text \<open>\<open>wait\<close> up to its \<open>await\<close>, and when that raises.\<close>

definition wg_wait :: "loop \<Rightarrow> wait_group \<Rightarrow> aio \<Rightarrow> entered \<times> wait_group \<times> aio" where
  "wg_wait l g a =
     (let (f, a) = new_event a; (already_done, g) = wg_register (l, f) g
      in (if already_done then Acquired else Suspended f, g, a))"

definition wg_wait_cancelled :: "evt \<Rightarrow> wait_group \<Rightarrow> wait_group" where
  "wg_wait_cancelled f g = snd (wg_unregister f g)"

section \<open>Tracked coroutines\<close>

text \<open>
  \<open>_TrackedCoroutine\<close>.  The generator of \<open>_run\<close>: not made, made and not started, suspended in
  the target, over.  What the target does when it is resumed is a parameter (\<open>Yields\<close> or
  \<open>Ends\<close>, by a return or an exception).  A generator that is resumed by \<open>throw\<close>, or closed,
  before it started ends without running its body, so also without its \<open>finally\<close>.  The
  second component of a result is how often \<open>wg.done()\<close> was called.
\<close>

datatype gen = NoGen | Fresh | Inside | Over
datatype outcome = Yields | Ends

definition gen_resume :: "outcome \<Rightarrow> gen \<times> nat" where
  "gen_resume out = (case out of Yields \<Rightarrow> (Inside, 0) | Ends \<Rightarrow> (Over, 1))"

fun gen_send :: "outcome \<Rightarrow> gen \<Rightarrow> gen \<times> nat" where
  "gen_send out Fresh = gen_resume out"
| "gen_send out Inside = gen_resume out"
| "gen_send out g = (g, 0)"

fun gen_throw :: "outcome \<Rightarrow> gen \<Rightarrow> gen \<times> nat" where
  "gen_throw out Fresh = (Over, 0)"
| "gen_throw out Inside = gen_resume out"
| "gen_throw out g = (g, 0)"

fun gen_close :: "gen \<Rightarrow> gen \<times> nat" where
  "gen_close Fresh = (Over, 0)"
| "gen_close Inside = (Over, 1)"
| "gen_close g = (g, 0)"

record tracked =
  stepped :: bool
  gen :: gen
  dones :: nat

definition tracked_new :: tracked where
  "tracked_new = \<lparr>stepped = False, gen = NoGen, dones = 0\<rparr>"

definition ensure_gen :: "tracked \<Rightarrow> tracked" where
  "ensure_gen k = (if gen k = NoGen then k\<lparr>gen := Fresh\<rparr> else k)"

definition with_gen :: "(gen \<Rightarrow> gen \<times> nat) \<Rightarrow> tracked \<Rightarrow> tracked" where
  "with_gen f k = (let (g, n) = f (gen k) in k\<lparr>gen := g, dones := dones k + n\<rparr>)"

definition tracked_send :: "outcome \<Rightarrow> tracked \<Rightarrow> tracked" where
  "tracked_send out k = with_gen (gen_send out) (ensure_gen (k\<lparr>stepped := True\<rparr>))"

definition tracked_throw :: "outcome \<Rightarrow> tracked \<Rightarrow> tracked" where
  "tracked_throw out k = with_gen (gen_throw out) (ensure_gen (k\<lparr>stepped := True\<rparr>))"

definition first_done :: "tracked \<Rightarrow> tracked" where
  "first_done k = (if \<not> stepped k then k\<lparr>stepped := True, dones := dones k + 1\<rparr> else k)"

definition tracked_close :: "tracked \<Rightarrow> tracked" where
  "tracked_close k = with_gen gen_close (first_done k)"

text \<open>\<open>__del__\<close>; then the generator is collected with the object, which closes it.\<close>

definition tracked_del :: "tracked \<Rightarrow> tracked" where
  "tracked_del k = with_gen gen_close (first_done k)"

text \<open>\<open>__await__\<close>: the caller of \<open>await\<close> drives the generator itself.\<close>

definition tracked_await :: "tracked \<Rightarrow> tracked" where
  "tracked_await k = ensure_gen k"

datatype drive = Send outcome | Throw outcome | Close

fun drive1 :: "drive \<Rightarrow> tracked \<Rightarrow> tracked" where
  "drive1 (Send out) k = tracked_send out k"
| "drive1 (Throw out) k = tracked_throw out k"
| "drive1 Close k = tracked_close k"

section \<open>Lemmas\<close>

text \<open>\<open>add\<close> on the counter as a natural number.\<close>

lemma word_add_check:
  fixes c :: "64 word"
  assumes "0 \<le> delta" "delta < 2 ^ 63"
  shows "c + word_of_int delta < c \<longleftrightarrow> 2 ^ 64 \<le> uint c + delta"
    and "\<not> c + word_of_int delta < c \<Longrightarrow> uint (c + word_of_int delta) = uint c + delta"
proof -
  have c: "uint c < 2 ^ 64" using unsigned_less [of c, where ?'a = int] by simp
  have d: "uint (word_of_int delta :: 64 word) = delta"
    unfolding unsigned_of_int using assms by (simp add: take_bit_int_eq_self)
  have e: "uint (c + word_of_int delta) = (if uint c + delta < 2 ^ 64 then uint c + delta else uint c + delta - 2 ^ 64)"
    using uint_plus_if' [of c "word_of_int delta"] by (simp add: d)
  show "c + word_of_int delta < c \<longleftrightarrow> 2 ^ 64 \<le> uint c + delta"
    unfolding word_less_def e using c assms by auto
  then show "\<not> c + word_of_int delta < c \<Longrightarrow> uint (c + word_of_int delta) = uint c + delta"
    using e by simp
qed

lemma word_sub_check:
  fixes c :: "64 word"
  assumes "delta < 0" "- (2 ^ 63) \<le> delta"
  shows "c < word_of_int (- delta) \<longleftrightarrow> uint c + delta < 0"
    and "\<not> c < word_of_int (- delta) \<Longrightarrow> uint (c - word_of_int (- delta)) = uint c + delta"
proof -
  have d: "uint (word_of_int (- delta) :: 64 word) = - delta"
    unfolding unsigned_of_int using assms by (simp add: take_bit_int_eq_self)
  show i: "c < word_of_int (- delta) \<longleftrightarrow> uint c + delta < 0" unfolding word_less_def d by auto
  assume "\<not> c < word_of_int (- delta)"
  then have "- delta \<le> uint c" unfolding i by simp
  then show "uint (c - word_of_int (- delta)) = uint c + delta"
    using uint_sub_if' [of c "word_of_int (- delta)"] unfolding d by simp
qed

text \<open>The operations on one wait group, in any order.\<close>

inductive wg_step :: "wait_group \<Rightarrow> wait_group \<Rightarrow> bool" where
  wg_step_add: "wg_raw_add delta g = (r, g') \<Longrightarrow> wg_step g g'"
| wg_step_done: "wg_raw_done g = (r, g') \<Longrightarrow> wg_step g g'"
| wg_step_register: "wg_register w g = (b, g') \<Longrightarrow> wg_step g g'"
| wg_step_unregister: "wg_unregister f g = (b, g') \<Longrightarrow> wg_step g g'"

definition wg_start :: "wait_group \<Rightarrow> bool" where
  "wg_start g \<longleftrightarrow> g = wg_new"

definition wg_inv :: "wait_group \<Rightarrow> bool" where
  "wg_inv g \<longleftrightarrow> (g_counter g = 0 \<longrightarrow> g_waiters g = [])"

lemma wg_release_inv: "wg_release g = (ws, g') \<Longrightarrow> wg_inv g'"
  by (auto simp: wg_release_def wg_inv_def split: if_splits)

lemma wg_add_zero:
  fixes c v :: "64 word"
  shows "c + v = 0 \<Longrightarrow> \<not> c + v < c \<Longrightarrow> c = 0"
  by (metis word_not_simps(2) word_coorder.not_eq_extremum)

interpretation wgs: invariant_system wg_start wg_step wg_inv
proof (unfold_locales)
  show "wg_start s \<Longrightarrow> wg_inv s" for s by (simp add: wg_start_def wg_inv_def wg_new_def)
  fix g g' assume inv: "wg_inv g" and "wg_step g g'"
  from this(2) show "wg_inv g'"
  proof cases
    case (wg_step_add delta r)
    then show ?thesis using inv wg_release_inv wg_add_zero [of "g_counter g" "word_of_int delta"]
      by (auto simp: wg_raw_add_def Let_def wg_inv_def split: if_splits prod.splits)
  next
    case (wg_step_done r)
    then show ?thesis using inv wg_release_inv by (auto simp: wg_raw_done_def split: if_splits prod.splits)
  next
    case (wg_step_register w b)
    then show ?thesis using inv by (auto simp: wg_register_def wg_inv_def split: if_splits)
  next
    case (wg_step_unregister f b)
    then show ?thesis using inv by (auto simp: wg_unregister_def wg_inv_def Let_def)
  qed
qed

text \<open>Tracked coroutines: after the first resumption by \<open>send\<close>, or a first \<open>close\<close>.\<close>

definition tracked_live :: "tracked \<Rightarrow> bool" where
  "tracked_live k \<longleftrightarrow> stepped k \<and> (gen k = Inside \<and> dones k = 0 \<or> gen k = Over \<and> dones k = 1)"

lemma tracked_live_drive: "tracked_live k \<Longrightarrow> tracked_live (drive1 d k)"
  by (cases d; cases "gen k")
    (auto simp: tracked_live_def tracked_send_def tracked_throw_def tracked_close_def first_done_def
      ensure_gen_def with_gen_def gen_resume_def Let_def split: outcome.splits)

lemma tracked_live_drives: "tracked_live k \<Longrightarrow> tracked_live (fold drive1 ds k)"
  by (induction ds arbitrary: k) (auto intro: tracked_live_drive)

section \<open>Properties\<close>

text \<open>
  C21: the counter of a wait group never wraps.  \<open>add\<close> with an integer that fits an \<open>isize\<close>
  succeeds exactly when the sum is between 0 and the largest \<open>usize\<close>; then the counter is
  that sum, and the waiters are handed out exactly when a negative \<open>delta\<close> takes it to zero.
  When it fails nothing changes.
\<close>

theorem wg_add_exact:
  assumes "- (2 ^ 63) \<le> delta" and "delta < 2 ^ 63" and "wg_raw_add delta g = (r, g')"
  shows "(isl r \<longleftrightarrow> uint (g_counter g) + delta < 0 \<or> 2 ^ 64 \<le> uint (g_counter g) + delta) \<and>
    (isl r \<longrightarrow> g' = g) \<and>
    (\<not> isl r \<longrightarrow> uint (g_counter g') = uint (g_counter g) + delta \<and>
      r = Inr (if delta < 0 \<and> g_counter g' = 0 then Some (g_waiters g) else None))"
proof (cases "delta < 0")
  case True
  have "uint (g_counter g) < 2 ^ 64" using unsigned_less [of "g_counter g", where ?'a = int] by simp
  then have "\<not> 2 ^ 64 \<le> uint (g_counter g) + delta" using True by simp
  then show ?thesis
    using True assms word_sub_check [OF True assms(1), of "g_counter g"]
    unfolding wg_raw_add_def wg_release_def Let_def
    by (auto split: if_splits)
next
  case False
  have "\<not> uint (g_counter g) + delta < 0" using False unsigned_greater_eq [of "g_counter g", where ?'a = int] by linarith
  then show ?thesis
    using False assms word_add_check [of delta "g_counter g"]
    unfolding wg_raw_add_def Let_def
    by (auto split: if_splits)
qed

theorem wg_add_exact_witness:
  "wg_raw_add (- 3) (wg_new\<lparr>g_counter := 2\<rparr>) =
     (fst (wg_raw_add (- 3) (wg_new\<lparr>g_counter := 2\<rparr>)), wg_new\<lparr>g_counter := 2\<rparr>)"
  using wg_add_exact [of "- 3" "wg_new\<lparr>g_counter := 2\<rparr>", OF _ _ surjective_pairing]
  by (auto simp: prod_eq_iff)

text \<open>
  When the counter of a wait group is zero, nobody is queued for it, whatever operations
  have been called in whatever order, failed ones included.
\<close>

theorem wg_zero_no_waiters:
  assumes "reach wg_step wg_new g" and "g_counter g = 0"
  shows "g_waiters g = [] \<and> fst (wg_register w g)"
  using wgs.inv_reach [OF assms(1)] assms(2)
  by (simp add: wg_start_def wg_inv_def wg_register_def)

theorem wg_zero_no_waiters_witness:
  "g_waiters (snd (wg_raw_done (wg_new\<lparr>g_counter := 1, g_waiters := [(0, 0)]\<rparr>))) = []"
proof -
  let ?g = "wg_new\<lparr>g_counter := 1\<rparr>" let ?h = "wg_new\<lparr>g_counter := 1, g_waiters := [(0, 0)]\<rparr>"
  have 1: "wg_step wg_new ?g"
    by (rule wg_step.wg_step_add [of 1]) (simp add: wg_raw_add_def wg_new_def)
  have 2: "wg_step ?g ?h"
    by (rule wg_step.wg_step_register [of "(0, 0)" _ False]) (simp add: wg_register_def wg_new_def)
  have 3: "wg_step ?h (snd (wg_raw_done ?h))"
    by (rule wg_step.wg_step_done [OF surjective_pairing])
  have "reach wg_step wg_new (snd (wg_raw_done ?h))"
    using 1 2 3 by (meson reach.intros)
  from wg_zero_no_waiters [OF this] show ?thesis
    by (simp add: wg_raw_done_def wg_release_def)
qed

text \<open>
  \<open>track\<close> balances when it is driven by \<open>send\<close> first, as a task does that is not cancelled
  early, or discarded: whatever follows, once the object is gone \<open>done\<close> has been called exactly
  once.
\<close>

theorem tracked_done_once:
  "dones (tracked_del (fold drive1 ds (tracked_send out tracked_new))) = 1 \<and>
   dones (tracked_del tracked_new) = 1 \<and> dones (tracked_del (tracked_close tracked_new)) = 1"
proof -
  have "tracked_live (tracked_send out tracked_new)"
    by (cases out) (simp_all add: tracked_live_def tracked_send_def tracked_new_def ensure_gen_def
        with_gen_def gen_resume_def)
  then have "tracked_live (fold drive1 ds (tracked_send out tracked_new))" by (rule tracked_live_drives)
  then have "dones (tracked_del (fold drive1 ds (tracked_send out tracked_new))) = 1"
    by (auto simp: tracked_live_def tracked_del_def first_done_def with_gen_def)
  then show ?thesis
    by (simp add: tracked_del_def tracked_close_def tracked_new_def first_done_def with_gen_def)
qed

text \<open>
  And does not balance otherwise.  A tracked coroutine awaited directly calls \<open>done\<close> a second
  time when it is collected; one that is cancelled before it starts, its first resumption
  being a \<open>throw\<close>, never calls it.
\<close>

theorem tracked_unbalanced:
  "dones (tracked_del (with_gen (gen_send Ends) (tracked_await tracked_new))) = 2 \<and>
   dones (tracked_del (fold drive1 ds (tracked_throw out tracked_new))) = 0"
proof -
  have "stepped (fold drive1 ds k) \<and> gen (fold drive1 ds k) = Over \<and> dones (fold drive1 ds k) = 0"
    if "stepped k \<and> gen k = Over \<and> dones k = 0" for k
    using that
  proof (induction ds arbitrary: k)
    case (Cons d ds)
    then show ?case
      by (cases d) (simp_all add: tracked_send_def tracked_throw_def tracked_close_def first_done_def
          ensure_gen_def with_gen_def)
  qed simp
  from this [of "tracked_throw out tracked_new"] show ?thesis
    by (auto simp: tracked_del_def tracked_await_def tracked_new_def first_done_def with_gen_def
        tracked_throw_def ensure_gen_def gen_resume_def)
qed

end
