(* ===== verification/Rwlock.thy ===== *)
theory Rwlock
  imports Futures
begin

text \<open>
  \<open>multiloop.rwlock.AsyncRWMutex\<close>: the lock over \<open>RawAsyncRWMutex\<close> of \<open>rwlock.rs\<close> and the
  fallback over two conditions.  Both are proved to exclude writers from everybody else; a
  grant to a waiter that is cancelled before it runs is proved to be lost for good.
\<close>

section \<open>The contract\<close>

text \<open>A lock with shared and exclusive users, as the callers of both implementations see it.\<close>

locale rw_exclusion = invariant_system start step inv
  for start :: "'s \<Rightarrow> bool" and step :: "'s \<Rightarrow> 's \<Rightarrow> bool" and inv :: "'s \<Rightarrow> bool" +
  fixes reading :: "'s \<Rightarrow> nat \<Rightarrow> bool" and writing :: "'s \<Rightarrow> nat \<Rightarrow> bool"
  assumes no_reader: "inv s \<Longrightarrow> writing s t \<Longrightarrow> \<not> reading s u"
    and one_writer: "inv s \<Longrightarrow> writing s t \<Longrightarrow> writing s u \<Longrightarrow> t = u"
begin

lemma exclusion:
  "reach step s0 s \<Longrightarrow> start s0 \<Longrightarrow> writing s t \<Longrightarrow> reading s u \<or> writing s u \<Longrightarrow> u = t \<and> writing s u"
  using inv_reach no_reader one_writer by metis

end

section \<open>The state machine of rwlock.rs\<close>

record rw_raw =
  readers :: nat
  has_writer :: bool
  pending_writers :: nat
  read_waiters :: "(loop \<times> evt) list"
  write_waiters :: "(loop \<times> evt) list"

definition raw_new :: rw_raw where
  "raw_new = \<lparr>readers = 0, has_writer = False, pending_writers = 0, read_waiters = [], write_waiters = []\<rparr>"

definition try_acquire_read :: "rw_raw \<Rightarrow> bool \<times> rw_raw" where
  "try_acquire_read w = (if \<not> has_writer w \<and> pending_writers w = 0 then (True, w\<lparr>readers := readers w + 1\<rparr>) else (False, w))"

definition read_or_register :: "loop \<times> evt \<Rightarrow> rw_raw \<Rightarrow> bool \<times> rw_raw" where
  "read_or_register lf w =
     (if \<not> has_writer w \<and> pending_writers w = 0 then (True, w\<lparr>readers := readers w + 1\<rparr>)
      else (False, w\<lparr>read_waiters := read_waiters w @ [lf]\<rparr>))"

definition next_writer :: "rw_raw \<Rightarrow> (loop \<times> evt) list \<times> rw_raw" where
  "next_writer w = (case write_waiters w of
       [] \<Rightarrow> ([], w)
     | lf # q \<Rightarrow> ([lf], w\<lparr>write_waiters := q, has_writer := True, pending_writers := pending_writers w - 1\<rparr>))"

definition release_read :: "rw_raw \<Rightarrow> (loop \<times> evt) list \<times> rw_raw" where
  "release_read w =
     (let w = w\<lparr>readers := readers w - 1\<rparr>
      in if readers w = 0 \<and> write_waiters w \<noteq> [] then next_writer w else ([], w))"

definition try_acquire_write :: "rw_raw \<Rightarrow> bool \<times> rw_raw" where
  "try_acquire_write w =
     (if \<not> has_writer w \<and> readers w = 0 \<and> pending_writers w = 0 then (True, w\<lparr>has_writer := True\<rparr>) else (False, w))"

definition write_or_register :: "loop \<times> evt \<Rightarrow> rw_raw \<Rightarrow> bool \<times> rw_raw" where
  "write_or_register lf w =
     (if \<not> has_writer w \<and> readers w = 0 \<and> pending_writers w = 0 then (True, w\<lparr>has_writer := True\<rparr>)
      else (False, w\<lparr>pending_writers := pending_writers w + 1, write_waiters := write_waiters w @ [lf]\<rparr>))"

definition admit_readers :: "rw_raw \<Rightarrow> (loop \<times> evt) list \<times> rw_raw" where
  "admit_readers w =
     (read_waiters w, w\<lparr>read_waiters := [], readers := readers w + length (read_waiters w)\<rparr>)"

definition release_write :: "rw_raw \<Rightarrow> (loop \<times> evt) list \<times> rw_raw" where
  "release_write w =
     (let w = w\<lparr>has_writer := False\<rparr>
      in if write_waiters w \<noteq> [] then next_writer w
         else if read_waiters w \<noteq> [] then admit_readers w else ([], w))"

definition remove_waiter :: "evt \<Rightarrow> bool \<Rightarrow> rw_raw \<Rightarrow> (loop \<times> evt) list \<times> rw_raw" where
  "remove_waiter f is_writer w =
     (if is_writer then
        (let q = filter (\<lambda>lf. snd lf \<noteq> f) (write_waiters w);
             removed = length (write_waiters w) - length q;
             w = w\<lparr>write_waiters := q,
                   pending_writers := (if removed > 0 \<and> pending_writers w \<ge> removed
                     then pending_writers w - removed else pending_writers w)\<rparr>
         in if pending_writers w = 0 \<and> \<not> has_writer w \<and> read_waiters w \<noteq> [] then admit_readers w
            else ([], w))
      else ([], w\<lparr>read_waiters := filter (\<lambda>lf. snd lf \<noteq> f) (read_waiters w)\<rparr>))"

definition snapshot :: "rw_raw \<Rightarrow> nat \<times> bool \<times> nat" where
  "snapshot w = (readers w, has_writer w, pending_writers w)"

section \<open>AsyncRWMutex over it\<close>

text \<open>\<open>depth t\<close> is 0 for a task that is not in \<open>_reader_depth\<close>.\<close>

record rw_mutex =
  raw :: rw_raw
  depth :: "task \<Rightarrow> nat"
  writer_task :: "task option"

definition rw_new :: rw_mutex where
  "rw_new = \<lparr>raw = raw_new, depth = (\<lambda>_. 0), writer_task = None\<rparr>"

text \<open>\<open>reader()\<close>: up to the \<open>await\<close>; after it; when it raises; and leaving the block.\<close>

definition reader_enter :: "task option \<Rightarrow> loop \<Rightarrow> rw_mutex \<Rightarrow> aio \<Rightarrow> (error + entered) \<times> rw_mutex \<times> aio" where
  "reader_enter cur l m a =
     (case cur of
        None \<Rightarrow> (Inl (RuntimeError ''reader() must be used inside an active asyncio task''), m, a)
      | Some t \<Rightarrow>
          if writer_task m = Some t then
            (Inl (RuntimeError ''AsyncRWMutex: reader() cannot be used while the same task holds writer()''), m, a)
          else if depth m t > 0 then (Inr Acquired, m\<lparr>depth := (depth m)(t := depth m t + 1)\<rparr>, a)
          else
            (let (ok, w) = try_acquire_read (raw m) in
             if ok then (Inr Acquired, m\<lparr>raw := w, depth := (depth m)(t := 1)\<rparr>, a)
             else
               (let (f, a) = new_event a; (ok, w) = read_or_register (l, f) w in
                if ok then (Inr Acquired, m\<lparr>raw := w, depth := (depth m)(t := 1)\<rparr>, a)
                else (Inr (Suspended f), m\<lparr>raw := w\<rparr>, a))))"

definition reader_resumed :: "task \<Rightarrow> rw_mutex \<Rightarrow> rw_mutex" where
  "reader_resumed t m = m\<lparr>depth := (depth m)(t := 1)\<rparr>"

definition reader_cancelled :: "(evt \<Rightarrow> bool) \<Rightarrow> evt \<Rightarrow> rw_mutex \<Rightarrow> aio \<Rightarrow> rw_mutex \<times> aio" where
  "reader_cancelled dn f m a =
     (let (ws, w) = remove_waiter f False (raw m) in (m\<lparr>raw := w\<rparr>, wake_all_list dn ws a))"

definition reader_exit :: "(evt \<Rightarrow> bool) \<Rightarrow> task \<Rightarrow> rw_mutex \<Rightarrow> aio \<Rightarrow> rw_mutex \<times> aio" where
  "reader_exit dn t m a =
     (if depth m t > 1 then (m\<lparr>depth := (depth m)(t := depth m t - 1)\<rparr>, a)
      else (let (ws, w) = release_read (raw m)
            in (m\<lparr>raw := w, depth := (depth m)(t := 0)\<rparr>, wake_all_list dn ws a)))"

definition writer_enter :: "task option \<Rightarrow> loop \<Rightarrow> rw_mutex \<Rightarrow> aio \<Rightarrow> (error + entered) \<times> rw_mutex \<times> aio" where
  "writer_enter cur l m a =
     (case cur of
        None \<Rightarrow> (Inl (RuntimeError ''writer() must be used inside an active asyncio task''), m, a)
      | Some t \<Rightarrow>
          if depth m t > 0 then
            (Inl (RuntimeError ''AsyncRWMutex: writer() cannot be used while the same task holds reader()''), m, a)
          else if writer_task m = Some t then
            (Inl (RuntimeError ''AsyncRWMutex: writer() is not reentrant''), m, a)
          else
            (let (ok, w) = try_acquire_write (raw m) in
             if ok then (Inr Acquired, m\<lparr>raw := w, writer_task := Some t\<rparr>, a)
             else
               (let (f, a) = new_event a; (ok, w) = write_or_register (l, f) w in
                if ok then (Inr Acquired, m\<lparr>raw := w, writer_task := Some t\<rparr>, a)
                else (Inr (Suspended f), m\<lparr>raw := w\<rparr>, a))))"

definition writer_resumed :: "task \<Rightarrow> rw_mutex \<Rightarrow> rw_mutex" where
  "writer_resumed t m = m\<lparr>writer_task := Some t\<rparr>"

definition writer_cancelled :: "(evt \<Rightarrow> bool) \<Rightarrow> evt \<Rightarrow> rw_mutex \<Rightarrow> aio \<Rightarrow> rw_mutex \<times> aio" where
  "writer_cancelled dn f m a =
     (let (ws, w) = remove_waiter f True (raw m) in (m\<lparr>raw := w\<rparr>, wake_all_list dn ws a))"

definition writer_exit :: "(evt \<Rightarrow> bool) \<Rightarrow> rw_mutex \<Rightarrow> aio \<Rightarrow> rw_mutex \<times> aio" where
  "writer_exit dn m a =
     (let (ws, w) = release_write (raw m) in (m\<lparr>raw := w, writer_task := None\<rparr>, wake_all_list dn ws a))"

section \<open>Tasks that share a lock\<close>

datatype rw_pc = Out | Read | Read_wait evt | Write | Write_wait evt

record rw_sys =
  rw :: rw_mutex
  rw_aio :: aio
  rw_pcs :: "task \<Rightarrow> rw_pc"

definition waited :: "(task \<Rightarrow> rw_pc) \<Rightarrow> evt set" where
  "waited p = {e. \<exists>t. p t = Read_wait e \<or> p t = Write_wait e}"

text \<open>\<open>fut.done()\<close> is left open: a future may have been cancelled already when it is woken.\<close>

inductive rw_step :: "rw_sys \<Rightarrow> rw_sys \<Rightarrow> bool" where
  rw_reader: "rw_pcs s t \<in> {Out, Read} \<Longrightarrow> reader_enter (Some t) l (rw s) (rw_aio s) = (Inr Acquired, m, a) \<Longrightarrow>
     rw_step s (s\<lparr>rw := m, rw_aio := a, rw_pcs := (rw_pcs s)(t := Read)\<rparr>)"
| rw_reader_wait: "rw_pcs s t \<in> {Out, Read} \<Longrightarrow> reader_enter (Some t) l (rw s) (rw_aio s) = (Inr (Suspended e), m, a) \<Longrightarrow>
     rw_step s (s\<lparr>rw := m, rw_aio := a, rw_pcs := (rw_pcs s)(t := Read_wait e)\<rparr>)"
| rw_reader_resume: "rw_pcs s t = Read_wait e \<Longrightarrow> e \<in> evset (rw_aio s) \<Longrightarrow>
     rw_step s (s\<lparr>rw := reader_resumed t (rw s), rw_pcs := (rw_pcs s)(t := Read)\<rparr>)"
| rw_reader_cancel: "rw_pcs s t = Read_wait e \<Longrightarrow> reader_cancelled dn e (rw s) (rw_aio s) = (m, a) \<Longrightarrow>
     rw_step s (s\<lparr>rw := m, rw_aio := a, rw_pcs := (rw_pcs s)(t := Out)\<rparr>)"
| rw_reader_exit: "rw_pcs s t = Read \<Longrightarrow> reader_exit dn t (rw s) (rw_aio s) = (m, a) \<Longrightarrow>
     rw_step s (s\<lparr>rw := m, rw_aio := a, rw_pcs := (rw_pcs s)(t := if depth m t > 0 then Read else Out)\<rparr>)"
| rw_writer: "rw_pcs s t = Out \<Longrightarrow> writer_enter (Some t) l (rw s) (rw_aio s) = (Inr Acquired, m, a) \<Longrightarrow>
     rw_step s (s\<lparr>rw := m, rw_aio := a, rw_pcs := (rw_pcs s)(t := Write)\<rparr>)"
| rw_writer_wait: "rw_pcs s t = Out \<Longrightarrow> writer_enter (Some t) l (rw s) (rw_aio s) = (Inr (Suspended e), m, a) \<Longrightarrow>
     rw_step s (s\<lparr>rw := m, rw_aio := a, rw_pcs := (rw_pcs s)(t := Write_wait e)\<rparr>)"
| rw_writer_resume: "rw_pcs s t = Write_wait e \<Longrightarrow> e \<in> evset (rw_aio s) \<Longrightarrow>
     rw_step s (s\<lparr>rw := writer_resumed t (rw s), rw_pcs := (rw_pcs s)(t := Write)\<rparr>)"
| rw_writer_cancel: "rw_pcs s t = Write_wait e \<Longrightarrow> writer_cancelled dn e (rw s) (rw_aio s) = (m, a) \<Longrightarrow>
     rw_step s (s\<lparr>rw := m, rw_aio := a, rw_pcs := (rw_pcs s)(t := Out)\<rparr>)"
| rw_writer_exit: "rw_pcs s t = Write \<Longrightarrow> writer_exit dn (rw s) (rw_aio s) = (m, a) \<Longrightarrow>
     rw_step s (s\<lparr>rw := m, rw_aio := a, rw_pcs := (rw_pcs s)(t := Out)\<rparr>)"
| rw_env: "fut_env (waited (rw_pcs s)) (rw_aio s) a \<Longrightarrow> rw_step s (s\<lparr>rw_aio := a\<rparr>)"

definition rw_start :: "rw_sys \<Rightarrow> bool" where
  "rw_start s \<longleftrightarrow> s = \<lparr>rw = rw_new, rw_aio = aio_init, rw_pcs = (\<lambda>_. Out)\<rparr>"

section \<open>Invariant\<close>

text \<open>Who has the lock or has been granted it: \<open>Q\<close> are the futures still queued.\<close>

definition rset :: "(task \<Rightarrow> rw_pc) \<Rightarrow> evt set \<Rightarrow> task set" where
  "rset p Q = {t. p t = Read \<or> (\<exists>e. p t = Read_wait e \<and> e \<notin> Q)}"

definition wset :: "(task \<Rightarrow> rw_pc) \<Rightarrow> evt set \<Rightarrow> task set" where
  "wset p Q = {t. p t = Write \<or> (\<exists>e. p t = Write_wait e \<and> e \<notin> Q)}"

definition rq :: "rw_raw \<Rightarrow> evt set" where "rq w = snd ` set (read_waiters w)"
definition wq :: "rw_raw \<Rightarrow> evt set" where "wq w = snd ` set (write_waiters w)"

definition waits :: "rw_pc \<Rightarrow> evt \<Rightarrow> bool" where
  "waits c e \<longleftrightarrow> c = Read_wait e \<or> c = Write_wait e"

definition queues_ok :: "(task \<Rightarrow> rw_pc) \<Rightarrow> evt set \<Rightarrow> evt set \<Rightarrow> bool" where
  "queues_ok p Q V \<longleftrightarrow> (\<forall>e \<in> Q. \<exists>t. p t = Read_wait e) \<and> (\<forall>e \<in> V. \<exists>t. p t = Write_wait e) \<and>
     (\<forall>t u e. waits (p t) e \<longrightarrow> waits (p u) e \<longrightarrow> t = u) \<and> finite {t. p t \<noteq> Out}"

definition counts_ok :: "(task \<Rightarrow> rw_pc) \<Rightarrow> rw_raw \<Rightarrow> bool" where
  "counts_ok p w \<longleftrightarrow> card (rset p (rq w)) \<le> readers w \<and> card (wset p (wq w)) \<le> of_bool (has_writer w) \<and>
     (has_writer w \<longrightarrow> readers w = 0) \<and> pending_writers w = length (write_waiters w) \<and>
     distinct (map snd (write_waiters w))"

definition rw_core :: "(task \<Rightarrow> rw_pc) \<Rightarrow> rw_raw \<Rightarrow> bool" where
  "rw_core p w \<longleftrightarrow> queues_ok p (rq w) (wq w) \<and> counts_ok p w"

definition rw_inv :: "rw_sys \<Rightarrow> bool" where
  "rw_inv s \<longleftrightarrow> rw_core (rw_pcs s) (raw (rw s)) \<and> fut_ok (rq (raw (rw s)) \<union> wq (raw (rw s))) (rw_aio s) \<and>
     waited (rw_pcs s) \<subseteq> {..<next_evt (rw_aio s)} \<and> (\<forall>t. depth (rw s) t > 0 \<longleftrightarrow> rw_pcs s t = Read) \<and>
     (\<forall>t. writer_task (rw s) = Some t \<longleftrightarrow> rw_pcs s t = Write)"

lemma queues_okD:
  assumes "queues_ok p Q V"
  shows "e \<in> Q \<Longrightarrow> \<exists>t. p t = Read_wait e" "e \<in> V \<Longrightarrow> \<exists>t. p t = Write_wait e"
    "waits (p t) e \<Longrightarrow> waits (p u) e \<Longrightarrow> t = u" "finite {t. p t \<noteq> Out}"
proof -
  have a: "\<forall>t u e. waits (p t) e \<longrightarrow> waits (p u) e \<longrightarrow> t = u"
    using assms unfolding queues_ok_def by (elim conjE)
  show "waits (p t) e \<Longrightarrow> waits (p u) e \<Longrightarrow> t = u" using a by metis
qed (use assms in \<open>unfold queues_ok_def, (elim conjE, blast)+\<close>)

lemma queues_okI:
  assumes "\<And>e. e \<in> Q \<Longrightarrow> \<exists>t. p t = Read_wait e" "\<And>e. e \<in> V \<Longrightarrow> \<exists>t. p t = Write_wait e"
    "\<And>t u e. waits (p t) e \<Longrightarrow> waits (p u) e \<Longrightarrow> t = u" "finite {t. p t \<noteq> Out}"
  shows "queues_ok p Q V"
proof -
  have "\<forall>t u e. waits (p t) e \<longrightarrow> waits (p u) e \<longrightarrow> t = u" using assms(3) by metis
  then show ?thesis using assms(1,2,4) unfolding queues_ok_def by (intro conjI ballI) assumption+
qed

lemma queues_ok_mono: "queues_ok p Q V \<Longrightarrow> Q' \<subseteq> Q \<Longrightarrow> V' \<subseteq> V \<Longrightarrow> queues_ok p Q' V'"
  unfolding queues_ok_def by (intro conjI; (elim conjE)?; blast)

lemma rw_sets_finite: "queues_ok p Q V \<Longrightarrow> finite (rset p Q') \<and> finite (wset p V')"
  by (auto simp: queues_ok_def rset_def wset_def intro: finite_subset [of _ "{t. p t \<noteq> Out}"])

lemma rw_exclusive:
  assumes "rw_core p w" and "t \<in> wset p (wq w)"
  shows "rset p (rq w) = {}" and "wset p (wq w) = {t}"
proof -
  have fin: "finite (rset p (rq w))" "finite (wset p (wq w))"
    using assms(1) rw_sets_finite by (auto simp: rw_core_def)
  have "card (wset p (wq w)) \<noteq> 0" using assms(2) fin by auto
  then have "has_writer w" "card (wset p (wq w)) = 1"
    using assms(1) by (auto simp: rw_core_def counts_ok_def of_bool_def split: if_splits)
  then show "rset p (rq w) = {}" "wset p (wq w) = {t}"
    using assms fin by (auto simp: rw_core_def counts_ok_def card_1_singleton_iff)
qed

text \<open>Handing the lock on.\<close>

lemma rw_core_admit:
  assumes c: "rw_core p w" and nw: "\<not> has_writer w"
  shows "rw_core p (snd (admit_readers w))"
proof -
  let ?H = "{t. \<exists>e \<in> rq w. p t = Read_wait e}"
  have q: "queues_ok p (rq w) (wq w)" using c by (simp add: rw_core_def)
  define h where "h t = (case p t of Read_wait e \<Rightarrow> e | _ \<Rightarrow> 0)" for t
  have "inj_on h ?H"
  proof (rule inj_onI)
    fix t u assume "t \<in> ?H" "u \<in> ?H" "h t = h u"
    then obtain e where "p t = Read_wait e" "p u = Read_wait e" by (auto simp: h_def)
    then show "t = u" using queues_okD(3) [OF q, of t e u] by (simp add: waits_def)
  qed
  moreover have "h ` ?H \<subseteq> rq w" by (auto simp: h_def)
  ultimately have "card ?H \<le> card (rq w)" by (intro card_inj_on_le) (auto simp: rq_def)
  also have "\<dots> \<le> length (read_waiters w)"
    unfolding rq_def by (metis card_length length_map set_map)
  finally have H: "card ?H \<le> length (read_waiters w)" .
  have "rset p {} \<subseteq> rset p (rq w) \<union> ?H" by (auto simp: rset_def)
  moreover have "rset p (rq w) \<union> ?H \<subseteq> {t. p t \<noteq> Out}" by (auto simp: rset_def)
  then have "finite (rset p (rq w) \<union> ?H)" using queues_okD(4) [OF q] by (rule finite_subset)
  ultimately have "card (rset p {}) \<le> card (rset p (rq w)) + card ?H"
    by (meson card_Un_le card_mono order_trans)
  moreover have "queues_ok p {} (wq w)" by (rule queues_ok_mono [OF q]) auto
  ultimately show ?thesis using c nw H
    by (auto simp: rw_core_def counts_ok_def admit_readers_def rq_def wq_def)
qed

lemma rw_core_next_writer:
  assumes c: "rw_core p w" and z: "readers w = 0" and e: "wset p (wq w) = {}"
  shows "rw_core p (snd (next_writer w))"
proof (cases "write_waiters w")
  case Nil
  then show ?thesis using c by (simp add: next_writer_def)
next
  case (Cons lf q)
  obtain l f where lf: "lf = (l, f)" by fastforce
  have q: "queues_ok p (rq w) (wq w)" using c by (simp add: rw_core_def)
  have wqw: "wq w = insert f (snd ` set q)" by (simp add: wq_def Cons lf)
  have "wset p (snd ` set q) \<subseteq> {t. p t = Write_wait f}"
    using e by (auto simp: wset_def wqw)
  moreover obtain u where u: "p u = Write_wait f" using queues_okD(2) [OF q, of f] wqw by auto
  then have "{t. p t = Write_wait f} = {u}" using queues_okD(3) [OF q, of _ f u] by (auto simp: waits_def)
  ultimately have "card (wset p (snd ` set q)) \<le> 1" using card_mono [of "{u}"] by auto
  moreover have "queues_ok p (rq w) (snd ` set q)" by (rule queues_ok_mono [OF q]) (auto simp: wqw)
  ultimately show ?thesis using c z Cons lf
    by (auto simp: rw_core_def counts_ok_def next_writer_def rq_def wq_def)
qed

text \<open>A task changes its phase.\<close>

lemma queues_ok_upd:
  assumes q: "queues_ok p Q V" and sub: "Q' \<subseteq> Q" "V' \<subseteq> V" and x: "\<And>e. \<not> waits x e"
    and out: "\<And>e. waits (p t) e \<Longrightarrow> e \<notin> Q' \<union> V'"
  shows "queues_ok (p(t := x)) Q' V'"
proof (rule queues_okI)
  note D = queues_okD [OF q]
  fix e
  show "\<exists>u. (p(t := x)) u = Read_wait e" if e: "e \<in> Q'"
  proof -
    from e sub D(1) obtain u where "p u = Read_wait e" by blast
    moreover from this have "u \<noteq> t" using out e by (auto simp: waits_def)
    ultimately show ?thesis by (intro exI [of _ u]) simp
  qed
  show "\<exists>u. (p(t := x)) u = Write_wait e" if e: "e \<in> V'"
  proof -
    from e sub D(2) obtain u where "p u = Write_wait e" by blast
    moreover from this have "u \<noteq> t" using out e by (auto simp: waits_def)
    ultimately show ?thesis by (intro exI [of _ u]) simp
  qed
  show "v = w" if "waits ((p(t := x)) v) e" "waits ((p(t := x)) w) e" for v w
    using that x D(3) [of v e w] by (auto split: if_splits)
  show "finite {u. (p(t := x)) u \<noteq> Out}" using D(4) by (rule finite_upd)
qed

lemma queues_ok_wait:
  assumes q: "queues_ok p Q V" and new: "\<And>u. \<not> waits (p u) e" and t: "\<And>e. \<not> waits (p t) e"
  shows "queues_ok (p(t := Read_wait e)) (insert e Q) V" and "queues_ok (p(t := Write_wait e)) Q (insert e V)"
proof -
  note D = queues_okD [OF q]
  have old: "\<exists>v. (p(t := x)) v = c" if "waits c f" "\<exists>u. p u = c" for x c f
  proof -
    from that obtain u where "p u = c" "u \<noteq> t" using t by blast
    then show ?thesis by (intro exI [of _ u]) simp
  qed
  have inj: "v = w" if "waits x f \<longrightarrow> f = e" "waits ((p(t := x)) v) f" "waits ((p(t := x)) w) f" for v w f x
    using that new D(3) [of v f w] by (auto split: if_splits)
  show "queues_ok (p(t := Read_wait e)) (insert e Q) V"
  proof (rule queues_okI)
    show "v = w" if "waits ((p(t := Read_wait e)) v) f" "waits ((p(t := Read_wait e)) w) f" for v w f
      by (rule inj [OF _ that]) (simp add: waits_def)
    show "finite {u. (p(t := Read_wait e)) u \<noteq> Out}" using D(4) by (rule finite_upd)
    show "\<exists>u. (p(t := Read_wait e)) u = Read_wait f" if "f \<in> insert e Q" for f
      using that old [OF _ D(1) [of f], of f] by (cases "f = e") (auto simp: waits_def)
  qed (rule old [OF _ D(2)], auto simp: waits_def)
  show "queues_ok (p(t := Write_wait e)) Q (insert e V)"
  proof (rule queues_okI)
    show "v = w" if "waits ((p(t := Write_wait e)) v) f" "waits ((p(t := Write_wait e)) w) f" for v w f
      by (rule inj [OF _ that]) (simp add: waits_def)
    show "finite {u. (p(t := Write_wait e)) u \<noteq> Out}" using D(4) by (rule finite_upd)
    show "\<exists>u. (p(t := Write_wait e)) u = Write_wait f" if "f \<in> insert e V" for f
      using that old [OF _ D(2) [of f], of f] by (cases "f = e") (auto simp: waits_def)
  qed (rule old [OF _ D(1)], auto simp: waits_def)
qed

text \<open>What each kind of step does to the core.\<close>

lemma rw_coreI: "queues_ok p (rq w) (wq w) \<Longrightarrow> counts_ok p w \<Longrightarrow> rw_core p w"
  by (simp add: rw_core_def)

lemma rw_coreD:
  assumes "rw_core p w"
  shows "queues_ok p (rq w) (wq w)" "card (rset p (rq w)) \<le> readers w" "card (wset p (wq w)) \<le> of_bool (has_writer w)"
    "has_writer w \<Longrightarrow> readers w = 0" "pending_writers w = length (write_waiters w)"
    "finite (rset p Q)" "finite (wset p Q)" "\<not> has_writer w \<Longrightarrow> wset p (wq w) = {}"
    "readers w = 0 \<Longrightarrow> rset p (rq w) = {}"
    "distinct (map snd (write_waiters w))"
  using assms rw_sets_finite [of p "rq w" "wq w"] by (auto simp: rw_core_def counts_ok_def)

lemma rset_simps [simp]:
  "p t = Out \<Longrightarrow> rset (p(t := Read)) Q = insert t (rset p Q)"
  "rset (p(t := Out)) Q = rset p Q - {t}" "rset (p(t := Write)) Q = rset p Q - {t}"
  "rset (p(t := Write_wait e)) Q = rset p Q - {t}"
  by (auto simp: rset_def)

lemma wset_simps [simp]:
  "wset (p(t := Write)) Q = insert t (wset p Q)"
  "wset (p(t := Out)) Q = wset p Q - {t}" "wset (p(t := Read)) Q = wset p Q - {t}"
  "wset (p(t := Read_wait e)) Q = wset p Q - {t}"
  by (auto simp: wset_def)

lemma not_in_sets:
  "p t = Out \<Longrightarrow> t \<notin> rset p Q \<and> t \<notin> wset p Q" "p t = Read \<Longrightarrow> t \<in> rset p Q \<and> t \<notin> wset p Q"
  "p t = Write \<Longrightarrow> t \<in> wset p Q \<and> t \<notin> rset p Q" "p t = Read_wait e \<Longrightarrow> t \<notin> wset p Q"
  "p t = Write_wait e \<Longrightarrow> t \<notin> rset p Q"
  "p t = Read_wait e \<Longrightarrow> e \<notin> Q \<Longrightarrow> t \<in> rset p Q" "p t = Write_wait e \<Longrightarrow> e \<notin> Q \<Longrightarrow> t \<in> wset p Q"
  by (auto simp: rset_def wset_def)

lemma core_read:
  assumes c: "rw_core p w" and t: "p t = Out" and nw: "\<not> has_writer w"
  shows "rw_core (p(t := Read)) (w\<lparr>readers := readers w + 1\<rparr>)"
proof -
  note D = rw_coreD [OF c]
  have "queues_ok (p(t := Read)) (rq w) (wq w)"
    using t by (intro queues_ok_upd [OF D(1)]) (auto simp: waits_def)
  then show ?thesis using D t nw not_in_sets(1) [of p t, OF t]
    by (intro rw_coreI) (simp_all add: rq_def wq_def counts_ok_def card_insert_if)
qed

lemma core_write:
  assumes c: "rw_core p w" and t: "p t = Out" and nw: "\<not> has_writer w" "readers w = 0"
  shows "rw_core (p(t := Write)) (w\<lparr>has_writer := True\<rparr>)"
proof -
  note D = rw_coreD [OF c]
  have "queues_ok (p(t := Write)) (rq w) (wq w)"
    using t by (intro queues_ok_upd [OF D(1)]) (auto simp: waits_def)
  moreover have "wset p (wq w) = {}" "rset p (rq w) = {}" using D nw by auto
  ultimately show ?thesis using D nw
    by (intro rw_coreI) (simp_all add: rq_def wq_def counts_ok_def)
qed

lemma core_wait:
  assumes c: "rw_core p w" and t: "p t = Out" and new: "\<And>u. \<not> waits (p u) e"
  shows "rw_core (p(t := Read_wait e)) (w\<lparr>read_waiters := read_waiters w @ [(l, e)]\<rparr>)"
    and "rw_core (p(t := Write_wait e))
      (w\<lparr>pending_writers := pending_writers w + 1, write_waiters := write_waiters w @ [(l, e)]\<rparr>)"
proof -
  note D = rw_coreD [OF c]
  have nt: "\<not> waits (p t) f" for f using t by (simp add: waits_def)
  note q = queues_ok_wait [OF D(1) new nt]
  have "rset (p(t := Read_wait e)) (insert e (rq w)) = rset p (rq w)"
    "wset (p(t := Write_wait e)) (insert e (wq w)) = wset p (wq w)"
    using t new by (auto simp: rset_def wset_def waits_def)
  moreover have "e \<notin> snd ` set (write_waiters w)"
    using queues_okD(2) [OF D(1), of e] new by (auto simp: wq_def waits_def)
  ultimately show "rw_core (p(t := Read_wait e)) (w\<lparr>read_waiters := read_waiters w @ [(l, e)]\<rparr>)"
    and "rw_core (p(t := Write_wait e))
      (w\<lparr>pending_writers := pending_writers w + 1, write_waiters := write_waiters w @ [(l, e)]\<rparr>)"
    using D q not_in_sets(1) [of p t, OF t] by (auto intro!: rw_coreI simp: rq_def wq_def counts_ok_def)
qed

lemma core_resume:
  assumes c: "rw_core p w"
  shows "p t = Read_wait e \<Longrightarrow> e \<notin> rq w \<Longrightarrow> rw_core (p(t := Read)) w"
    and "p t = Write_wait e \<Longrightarrow> e \<notin> wq w \<Longrightarrow> rw_core (p(t := Write)) w"
proof -
  note D = rw_coreD [OF c]
  have q: "queues_ok (p(t := x)) (rq w) (wq w)"
    if t: "p t = Read_wait e \<and> e \<notin> rq w \<or> p t = Write_wait e \<and> e \<notin> wq w" and x: "\<And>e. \<not> waits x e" for x
  proof (rule queues_ok_upd [OF D(1) order_refl order_refl x])
    fix f assume "waits (p t) f"
    then have f: "f = e" using t by (auto simp: waits_def)
    have "p u \<noteq> Write_wait e" if "p t = Read_wait e" for u
      using queues_okD(3) [OF D(1), of t e u] that by (cases "u = t") (auto simp: waits_def)
    moreover have "p u \<noteq> Read_wait e" if "p t = Write_wait e" for u
      using queues_okD(3) [OF D(1), of t e u] that by (cases "u = t") (auto simp: waits_def)
    ultimately show "f \<notin> rq w \<union> wq w"
      using t queues_okD(1,2) [OF D(1), of e] unfolding f by blast
  qed
  show "rw_core (p(t := Read)) w" if t: "p t = Read_wait e" "e \<notin> rq w"
  proof -
    have "rset (p(t := Read)) (rq w) = rset p (rq w)" "wset p (wq w) - {t} = wset p (wq w)"
      using t by (auto simp: rset_def wset_def)
    then show ?thesis using D q t by (intro rw_coreI) (simp_all add: counts_ok_def waits_def)
  qed
  show "rw_core (p(t := Write)) w" if t: "p t = Write_wait e" "e \<notin> wq w"
  proof -
    have "wset (p(t := Write)) (wq w) = wset p (wq w)" "rset p (rq w) - {t} = rset p (rq w)"
      using t by (auto simp: rset_def wset_def)
    then show ?thesis using D q t by (intro rw_coreI) (simp_all add: counts_ok_def waits_def)
  qed
qed

lemma core_cancel_read:
  assumes c: "rw_core p w" and t: "p t = Read_wait e"
  shows "rw_core (p(t := Out)) (snd (remove_waiter e False w))"
proof -
  note D = rw_coreD [OF c]
  let ?w = "snd (remove_waiter e False w)"
  have q: "rq ?w = rq w - {e}" "wq ?w = wq w" by (auto simp: remove_waiter_def rq_def wq_def)
  have inj: "u = t" if "p u = Read_wait e" for u
    using queues_okD(3) [OF D(1), of t e u] that t by (simp add: waits_def)
  have nw: "e \<notin> wq w"
    using queues_okD(2) [OF D(1), of e] queues_okD(3) [OF D(1), of t e] t by (fastforce simp: waits_def)
  have "rset p (rq w - {e}) - {t} \<subseteq> rset p (rq w)" using inj by (auto simp: rset_def)
  then have "card (rset p (rq w - {e}) - {t}) \<le> card (rset p (rq w))" by (rule card_mono [OF D(6)])
  moreover have "wset p (wq w) - {t} = wset p (wq w)" using t by (auto simp: wset_def)
  ultimately have "counts_ok (p(t := Out)) ?w"
    using D(2-5,10) unfolding counts_ok_def q by (auto simp: remove_waiter_def)
  then show ?thesis using c t nw q
    by (intro rw_coreI queues_ok_upd [OF D(1)]) (auto simp: waits_def)
qed

lemma monus_back: "n \<le> k \<Longrightarrow> (if k - n > 0 \<and> k \<ge> k - n then k - (k - n) else k) = (n::nat)"
  by auto

lemma core_cancel_write:
  assumes c: "rw_core p w" and t: "p t = Write_wait e"
  shows "rw_core (p(t := Out)) (snd (remove_waiter e True w))"
proof -
  note D = rw_coreD [OF c]
  let ?q = "filter (\<lambda>lf. snd lf \<noteq> e) (write_waiters w)"
  let ?w = "w\<lparr>write_waiters := ?q, pending_writers := length ?q\<rparr>"
  have len: "length ?q \<le> length (write_waiters w)" by simp
  have pw: "(if length (write_waiters w) - length ?q > 0 \<and> pending_writers w \<ge> length (write_waiters w) - length ?q
      then pending_writers w - (length (write_waiters w) - length ?q) else pending_writers w) = length ?q"
    unfolding D(5) using len by (rule monus_back)
  have rem: "snd (remove_waiter e True w) =
      (if pending_writers ?w = 0 \<and> \<not> has_writer ?w \<and> read_waiters ?w \<noteq> [] then snd (admit_readers ?w) else ?w)"
    unfolding remove_waiter_def Let_def if_True pw by simp
  have q: "rq ?w = rq w" "wq ?w = wq w - {e}" by (auto simp: rq_def wq_def)
  have inj: "u = t" if "p u = Write_wait e" for u
    using queues_okD(3) [OF D(1), of t e u] that t by (simp add: waits_def)
  have nr: "e \<notin> rq w"
    using queues_okD(1) [OF D(1), of e] queues_okD(3) [OF D(1), of t e] t by (fastforce simp: waits_def)
  have "wset p (wq w - {e}) - {t} \<subseteq> wset p (wq w)" using inj by (auto simp: wset_def)
  then have "card (wset p (wq w - {e}) - {t}) \<le> card (wset p (wq w))" by (rule card_mono [OF D(7)])
  moreover have "rset p (rq w) - {t} = rset p (rq w)" using t by (auto simp: rset_def)
  moreover have dq: "distinct (map snd ?q)" using D(10) by (simp add: distinct_map_filter)
  ultimately have "counts_ok (p(t := Out)) ?w"
    using D(2-5) unfolding counts_ok_def q by auto
  then have "rw_core (p(t := Out)) ?w" using c t nr q
    by (intro rw_coreI queues_ok_upd [OF D(1)]) (auto simp: waits_def)
  then show ?thesis unfolding rem using rw_core_admit by auto
qed

lemma core_exit_read:
  assumes c: "rw_core p w" and t: "p t = Read"
  shows "rw_core (p(t := Out)) (snd (release_read w))"
proof -
  note D = rw_coreD [OF c]
  let ?w = "w\<lparr>readers := readers w - 1\<rparr>"
  have q: "rq ?w = rq w" "wq ?w = wq w" by (simp_all add: rq_def wq_def)
  have tr: "t \<in> rset p (rq w)" using t by (simp add: rset_def)
  then have "readers w \<noteq> 0" using D(9) by auto
  then have nw: "\<not> has_writer w" "wset p (wq w) = {}" using D(4,8) by auto
  have "card (rset p (rq w) - {t}) = card (rset p (rq w)) - 1" using tr by simp
  then have "counts_ok (p(t := Out)) ?w" using D(2,5,10) nw unfolding counts_ok_def q by auto
  then have o': "rw_core (p(t := Out)) ?w"
    using q t by (intro rw_coreI queues_ok_upd [OF D(1)]) (auto simp: waits_def)
  moreover have "wset (p(t := Out)) (wq ?w) = {}" using nw q by simp
  ultimately show ?thesis using rw_core_next_writer [OF o'] by (auto simp: release_read_def Let_def)
qed

lemma core_exit_write:
  assumes c: "rw_core p w" and t: "p t = Write"
  shows "rw_core (p(t := Out)) (snd (release_write w))"
proof -
  note D = rw_coreD [OF c]
  let ?w = "w\<lparr>has_writer := False\<rparr>"
  have q: "rq ?w = rq w" "wq ?w = wq w" by (simp_all add: rq_def wq_def)
  have tw: "t \<in> wset p (wq w)" using t by (simp add: wset_def)
  then have z: "readers w = 0" using D(4,8) by auto
  have ws: "wset p (wq w) = {t}" "rset p (rq w) = {}" using rw_exclusive [OF c tw] by auto
  have "counts_ok (p(t := Out)) ?w" using D(5,10) ws unfolding counts_ok_def q by simp
  then have o': "rw_core (p(t := Out)) ?w"
    using q t by (intro rw_coreI queues_ok_upd [OF D(1)]) (auto simp: waits_def)
  moreover have "wset (p(t := Out)) (wq ?w) = {}" using ws q by simp
  ultimately show ?thesis using rw_core_next_writer [OF o'] rw_core_admit [OF o'] z
    by (auto simp: release_write_def Let_def)
qed

text \<open>The futures an operation wakes were queued.\<close>

lemma raw_woken:
  "release_read w = (ws, w') \<Longrightarrow> rq w' \<union> wq w' \<union> snd ` set ws = rq w \<union> wq w"
  "release_write w = (ws, w') \<Longrightarrow> rq w' \<union> wq w' \<union> snd ` set ws = rq w \<union> wq w"
  "remove_waiter e b w = (ws, w') \<Longrightarrow> rq w' \<union> wq w' \<union> snd ` set ws \<subseteq> rq w \<union> wq w"
  by (auto simp: release_read_def release_write_def remove_waiter_def next_writer_def admit_readers_def
      rq_def wq_def Let_def split: if_splits list.splits)

lemma rw_invI:
  assumes "rw_core p (raw m)" "fut_ok Q a" "rq (raw m) \<union> wq (raw m) \<subseteq> Q" "waited p \<subseteq> {..<next_evt a}"
    "\<And>t. depth m t > 0 \<longleftrightarrow> p t = Read" "\<And>t. writer_task m = Some t \<longleftrightarrow> p t = Write"
  shows "rw_inv (s\<lparr>rw := m, rw_aio := a, rw_pcs := p\<rparr>)"
  using assms fut_ok_mono [OF assms(2,3)] by (simp add: rw_inv_def)

lemma rw_invD:
  assumes "rw_inv s"
  shows "rw_core (rw_pcs s) (raw (rw s))" "fut_ok (rq (raw (rw s)) \<union> wq (raw (rw s))) (rw_aio s)"
    "waited (rw_pcs s) \<subseteq> {..<next_evt (rw_aio s)}" "depth (rw s) t > 0 \<longleftrightarrow> rw_pcs s t = Read"
    "writer_task (rw s) = Some t \<longleftrightarrow> rw_pcs s t = Write"
  using assms unfolding rw_inv_def by (elim conjE; blast)+

lemma waited_upd:
  "(\<And>e. \<not> waits x e) \<Longrightarrow> waited (p(t := x)) \<subseteq> waited p"
  "waited (p(t := Read_wait e)) \<subseteq> insert e (waited p)" "waited (p(t := Write_wait e)) \<subseteq> insert e (waited p)"
  by (auto simp: waited_def waits_def split: if_splits)

text \<open>The ways an entry can end, on the state machine.\<close>

lemma reader_enter_cases:
  assumes "reader_enter (Some t) l m a = (Inr r, m', a')"
  obtains (nested) "r = Acquired" "depth m t > 0" "m' = m\<lparr>depth := (depth m)(t := depth m t + 1)\<rparr>" "a' = a"
  | (taken) "r = Acquired" "depth m t = 0" "writer_task m \<noteq> Some t" "\<not> has_writer (raw m)"
      "m' = m\<lparr>raw := (raw m)\<lparr>readers := readers (raw m) + 1\<rparr>, depth := (depth m)(t := 1)\<rparr>" "a' = a"
  | (queued) "r = Suspended (next_evt a)" "depth m t = 0" "writer_task m \<noteq> Some t"
      "m' = m\<lparr>raw := (raw m)\<lparr>read_waiters := read_waiters (raw m) @ [(l, next_evt a)]\<rparr>\<rparr>"
      "a' = a\<lparr>next_evt := Suc (next_evt a)\<rparr>"
proof -
  have eq: "reader_enter (Some t) l m a =
     (if writer_task m = Some t then
        (Inl (RuntimeError ''AsyncRWMutex: reader() cannot be used while the same task holds writer()''), m, a)
      else if depth m t > 0 then (Inr Acquired, m\<lparr>depth := (depth m)(t := depth m t + 1)\<rparr>, a)
      else if \<not> has_writer (raw m) \<and> pending_writers (raw m) = 0 then
        (Inr Acquired, m\<lparr>raw := (raw m)\<lparr>readers := readers (raw m) + 1\<rparr>, depth := (depth m)(t := 1)\<rparr>, a)
      else (Inr (Suspended (next_evt a)),
        m\<lparr>raw := (raw m)\<lparr>read_waiters := read_waiters (raw m) @ [(l, next_evt a)]\<rparr>\<rparr>, a\<lparr>next_evt := Suc (next_evt a)\<rparr>))"
    by (simp add: reader_enter_def try_acquire_read_def read_or_register_def new_event_def Let_def)
  have w: "writer_task m \<noteq> Some t" using assms unfolding eq by (simp split: if_splits)
  consider "depth m t > 0" | "depth m t = 0" "\<not> has_writer (raw m)" "pending_writers (raw m) = 0"
    | "depth m t = 0" "\<not> (\<not> has_writer (raw m) \<and> pending_writers (raw m) = 0)" by auto
  then show thesis
  proof cases
    case 1
    with assms w show ?thesis unfolding eq by (intro nested) simp_all
  next
    case 2
    with assms w show ?thesis unfolding eq by (intro taken) simp_all
  next
    case 3
    with assms w show ?thesis unfolding eq by (intro queued) simp_all
  qed
qed

lemma writer_enter_cases:
  assumes "writer_enter (Some t) l m a = (Inr r, m', a')"
  obtains (taken) "r = Acquired" "\<not> has_writer (raw m)" "readers (raw m) = 0"
      "m' = m\<lparr>raw := (raw m)\<lparr>has_writer := True\<rparr>, writer_task := Some t\<rparr>" "a' = a"
  | (queued) "r = Suspended (next_evt a)"
      "m' = m\<lparr>raw := (raw m)\<lparr>pending_writers := pending_writers (raw m) + 1,
         write_waiters := write_waiters (raw m) @ [(l, next_evt a)]\<rparr>\<rparr>"
      "a' = a\<lparr>next_evt := Suc (next_evt a)\<rparr>"
proof -
  have eq: "writer_enter (Some t) l m a =
     (if depth m t > 0 then
        (Inl (RuntimeError ''AsyncRWMutex: writer() cannot be used while the same task holds reader()''), m, a)
      else if writer_task m = Some t then (Inl (RuntimeError ''AsyncRWMutex: writer() is not reentrant''), m, a)
      else if \<not> has_writer (raw m) \<and> readers (raw m) = 0 \<and> pending_writers (raw m) = 0 then
        (Inr Acquired, m\<lparr>raw := (raw m)\<lparr>has_writer := True\<rparr>, writer_task := Some t\<rparr>, a)
      else (Inr (Suspended (next_evt a)),
        m\<lparr>raw := (raw m)\<lparr>pending_writers := pending_writers (raw m) + 1,
         write_waiters := write_waiters (raw m) @ [(l, next_evt a)]\<rparr>\<rparr>, a\<lparr>next_evt := Suc (next_evt a)\<rparr>))"
    by (simp add: writer_enter_def try_acquire_write_def write_or_register_def new_event_def Let_def)
  have w: "depth m t = 0" "writer_task m \<noteq> Some t" using assms unfolding eq by (simp_all split: if_splits)
  show thesis
  proof (cases "\<not> has_writer (raw m) \<and> readers (raw m) = 0 \<and> pending_writers (raw m) = 0")
    case True
    with assms w show ?thesis unfolding eq by (intro taken) simp_all
  next
    case False
    with assms w show ?thesis unfolding eq by (intro queued) simp_all
  qed
qed

text \<open>An operation that takes a task out and wakes what it has dequeued.\<close>

lemma rw_inv_out:
  assumes inv: "rw_inv s" and core: "rw_core ((rw_pcs s)(t := Out)) w"
    and woken: "rq w \<union> wq w \<union> snd ` set ws \<subseteq> rq (raw (rw s)) \<union> wq (raw (rw s))"
    and disj: "(rq w \<union> wq w) \<inter> snd ` set ws = {}"
    and m: "raw m = w" "\<And>u. u \<noteq> t \<Longrightarrow> depth m u = depth (rw s) u" "depth m t = 0"
      "\<And>u. writer_task m = Some u \<longleftrightarrow> u \<noteq> t \<and> writer_task (rw s) = Some u"
    and a: "a = wake_all_list dn ws (rw_aio s)"
  shows "rw_inv (s\<lparr>rw := m, rw_aio := a, rw_pcs := (rw_pcs s)(t := Out)\<rparr>)"
proof -
  note D = rw_invD [OF inv]
  have "snd lf < next_evt (rw_aio s)" if "lf \<in> set ws" for lf
    using that woken fut_okD(2) [OF D(2)] by blast
  note f = fut_ok_wake_list [OF D(2) this, of ws dn, folded a]
  show ?thesis
  proof (rule rw_invI)
    show "rw_core ((rw_pcs s)(t := Out)) (raw m)" using core m(1) by simp
    show "fut_ok (rq (raw (rw s)) \<union> wq (raw (rw s)) - snd ` set ws) a" using f by blast
    show "rq (raw m) \<union> wq (raw m) \<subseteq> rq (raw (rw s)) \<union> wq (raw (rw s)) - snd ` set ws"
      using woken disj m(1) by blast
    show "waited ((rw_pcs s)(t := Out)) \<subseteq> {..<next_evt a}"
      using D(3) f waited_upd(1) [of Out "rw_pcs s" t] by (auto simp: waits_def)
    show "depth m u > 0 \<longleftrightarrow> ((rw_pcs s)(t := Out)) u = Read" for u
      using D(4) m(2,3) by (cases "u = t") simp_all
    show "writer_task m = Some u \<longleftrightarrow> ((rw_pcs s)(t := Out)) u = Write" for u
      using D(5) m(4) by (cases "u = t") simp_all
  qed
qed

lemma queue_events_distinct:
  assumes "rw_core p w"
  shows "rq w \<inter> wq w = {}"
proof -
  note q = rw_coreD(1) [OF assms]
  { fix e assume "e \<in> rq w" "e \<in> wq w"
    then obtain t u where "p t = Read_wait e" "p u = Write_wait e"
      using queues_okD(1,2) [OF q] by blast
    moreover from this have "t = u" using queues_okD(3) [OF q, of t e u] by (simp add: waits_def)
    ultimately have False by simp }
  then show ?thesis by blast
qed

lemma raw_woken_disjoint:
  assumes "rw_core p w"
  shows "release_read w = (ws, w') \<Longrightarrow> (rq w' \<union> wq w') \<inter> snd ` set ws = {}"
    and "release_write w = (ws, w') \<Longrightarrow> (rq w' \<union> wq w') \<inter> snd ` set ws = {}"
    and "remove_waiter e b w = (ws, w') \<Longrightarrow> (rq w' \<union> wq w') \<inter> snd ` set ws = {}"
proof -
  have d: "f \<in> rq w \<Longrightarrow> f \<in> wq w \<Longrightarrow> False" for f using queue_events_distinct [OF assms] by blast
  have n: "(rq v \<union> wq v) \<inter> snd ` set ws = {}"
    if "next_writer u = (ws, v)" "write_waiters u = write_waiters w" "read_waiters u = read_waiters w" for u v ws
  proof (cases "write_waiters w")
    case Nil
    then show ?thesis using that by (simp add: next_writer_def)
  next
    case (Cons lf q)
    then have "snd lf \<notin> snd ` set q" using rw_coreD(10) [OF assms] by simp
    moreover have "snd lf \<notin> rq w" using d [of "snd lf"] Cons by (auto simp: wq_def)
    moreover have "rq v = rq w" "wq v = snd ` set q" "ws = [lf]"
      using that Cons by (auto simp: next_writer_def rq_def wq_def)
    ultimately show ?thesis by simp
  qed
  have r: "(rq v \<union> wq v) \<inter> snd ` set ws = {}"
    if "admit_readers u = (ws, v)" "set (write_waiters u) \<subseteq> set (write_waiters w)" "read_waiters u = read_waiters w" for u v ws
  proof -
    have "rq v = {}" "wq v \<subseteq> wq w" "snd ` set ws = rq w"
      using that by (auto simp: admit_readers_def rq_def wq_def)
    then show ?thesis using d by blast
  qed
  show "release_read w = (ws, w') \<Longrightarrow> (rq w' \<union> wq w') \<inter> snd ` set ws = {}"
    using n [of "w\<lparr>readers := readers w - 1\<rparr>"] by (auto simp: release_read_def Let_def split: if_splits)
  show "release_write w = (ws, w') \<Longrightarrow> (rq w' \<union> wq w') \<inter> snd ` set ws = {}"
    using n [of "w\<lparr>has_writer := False\<rparr>"] r [of "w\<lparr>has_writer := False\<rparr>"]
    by (auto simp: release_write_def Let_def split: if_splits)
  show "remove_waiter e b w = (ws, w') \<Longrightarrow> (rq w' \<union> wq w') \<inter> snd ` set ws = {}"
    using r by (auto simp: remove_waiter_def Let_def split: if_splits)
qed

lemma rw_inv_wait:
  assumes inv: "rw_inv s" and t: "rw_pcs s t = Out" and e: "e = next_evt (rw_aio s)" and x: "x = Read_wait e \<or> x = Write_wait e"
    and core: "rw_core ((rw_pcs s)(t := x)) w"
    and q: "rq w \<union> wq w \<subseteq> insert e (rq (raw (rw s)) \<union> wq (raw (rw s)))"
  shows "rw_inv (s\<lparr>rw := (rw s)\<lparr>raw := w\<rparr>, rw_aio := (rw_aio s)\<lparr>next_evt := Suc e\<rparr>, rw_pcs := (rw_pcs s)(t := x)\<rparr>)"
proof -
  note D = rw_invD [OF inv]
  have "new_event (rw_aio s) = (e, (rw_aio s)\<lparr>next_evt := Suc e\<rparr>)" by (simp add: new_event_eq e)
  note f = fut_ok_new [OF D(2) this]
  show ?thesis
  proof (rule rw_invI)
    show "fut_ok (insert e (rq (raw (rw s)) \<union> wq (raw (rw s)))) ((rw_aio s)\<lparr>next_evt := Suc e\<rparr>)" using f by blast
    have "waited ((rw_pcs s)(t := x)) \<subseteq> insert e (waited (rw_pcs s))" using x
      by (elim disjE) (simp_all only: waited_upd(2,3))
    then show "waited ((rw_pcs s)(t := x)) \<subseteq> {..<next_evt ((rw_aio s)\<lparr>next_evt := Suc e\<rparr>)}"
      using D(3) e by fastforce
    show "depth ((rw s)\<lparr>raw := w\<rparr>) u > 0 \<longleftrightarrow> ((rw_pcs s)(t := x)) u = Read" for u
      using D(4) [of u] t x by (cases "u = t") auto
    show "writer_task ((rw s)\<lparr>raw := w\<rparr>) = Some u \<longleftrightarrow> ((rw_pcs s)(t := x)) u = Write" for u
      using D(5) [of u] t x by (cases "u = t") auto
  qed (use core q in simp_all)
qed

lemma rw_fresh:
  assumes "rw_inv s"
  shows "\<not> waits (rw_pcs s u) (next_evt (rw_aio s))"
  using rw_invD(3) [OF assms] by (auto simp: waited_def waits_def)

lemma rw_queued_waited: "rw_core p w \<Longrightarrow> rq w \<union> wq w \<subseteq> waited p"
  using queues_okD(1,2) [OF rw_coreD(1)] unfolding waited_def by blast

text \<open>A change of phase with no future involved.\<close>

lemma rw_inv_plain:
  assumes inv: "rw_inv s" and x: "\<And>e. \<not> waits x e" and core: "rw_core ((rw_pcs s)(t := x)) (raw m)"
    and q: "rq (raw m) = rq (raw (rw s))" "wq (raw m) = wq (raw (rw s))"
    and d: "\<And>u. depth m u > 0 \<longleftrightarrow> ((rw_pcs s)(t := x)) u = Read"
    and wt: "\<And>u. writer_task m = Some u \<longleftrightarrow> ((rw_pcs s)(t := x)) u = Write"
  shows "rw_inv (s\<lparr>rw := m, rw_pcs := (rw_pcs s)(t := x)\<rparr>)"
proof -
  note D = rw_invD [OF inv]
  have "rw_inv (s\<lparr>rw := m, rw_aio := rw_aio s, rw_pcs := (rw_pcs s)(t := x)\<rparr>)"
    by (intro rw_invI [OF core D(2) _ subset_trans [OF waited_upd(1) [OF x] D(3)] d wt]) (simp add: q)
  then show ?thesis by simp
qed

lemma rw_inv_exclusive_pc:
  assumes "rw_inv s" and "rw_pcs s t = Write"
  shows "rw_pcs s u \<noteq> Read" and "rw_pcs s u = Write \<Longrightarrow> u = t"
proof -
  have "t \<in> wset (rw_pcs s) (wq (raw (rw s)))" using assms(2) by (simp add: wset_def)
  note X = rw_exclusive [OF rw_invD(1) [OF assms(1)] this]
  show "rw_pcs s u \<noteq> Read" using X(1) by (auto simp: rset_def)
  assume "rw_pcs s u = Write"
  then have "u \<in> wset (rw_pcs s) (wq (raw (rw s)))" by (simp add: wset_def)
  then show "u = t" using X(2) by simp
qed

lemma rw_inv_step:
  assumes inv: "rw_inv s" and st: "rw_step s s'"
  shows "rw_inv s'"
proof -
  note D = rw_invD [OF inv] and fresh = rw_fresh [OF inv]
  let ?p = "rw_pcs s" and ?w = "raw (rw s)"
  have nw: "writer_task (rw s) = None" if "\<not> has_writer ?w"
  proof -
    have "?p u \<noteq> Write" for u
      using rw_coreD(8) [OF D(1) that] by (auto simp: wset_def)
    then show ?thesis using D(5) by (metis not_None_eq)
  qed
  from st show ?thesis
  proof cases
    case (rw_reader t l m a)
    from rw_reader(3) show ?thesis
    proof (cases rule: reader_enter_cases)
      case nested
      then have r: "?p t = Read" using D(4) by simp
      then have "?p(t := Read) = ?p" by auto
      then show ?thesis unfolding rw_reader(1) nested(3,4)
        using r rw_inv_plain [OF inv, of Read t "(rw s)\<lparr>depth := (depth (rw s))(t := depth (rw s) t + 1)\<rparr>"] D
        by (auto simp: waits_def split: if_splits)
    next
      case taken
      then have "?p t = Out" using rw_reader(2) D(4) [of t] by auto
      then show ?thesis unfolding rw_reader(1) taken(5,6)
        using rw_inv_plain [OF inv, of Read t "(rw s)\<lparr>raw := ?w\<lparr>readers := readers ?w + 1\<rparr>, depth := (depth (rw s))(t := 1)\<rparr>"]
          core_read [OF D(1) _ taken(4), of t] D(4,5) nw taken(4)
        by (auto simp: waits_def rq_def wq_def split: if_splits)
    next
      case queued
      then show ?thesis by simp
    qed
  next
    case (rw_reader_wait t l e m a)
    from rw_reader_wait(3) show ?thesis
    proof (cases rule: reader_enter_cases)
      case queued
      then have t: "?p t = Out" using rw_reader_wait(2) D(4) [of t] by auto
      have e: "e = next_evt (rw_aio s)" using queued(1) by simp
      show ?thesis unfolding rw_reader_wait(1) queued(4,5) e [symmetric]
        by (rule rw_inv_wait [OF inv t e, OF _ core_wait(1) [OF D(1) t]])
          (use e fresh in \<open>auto simp: rq_def wq_def\<close>)
    qed simp_all
  next
    case (rw_reader_resume t e)
    have "e \<notin> rq ?w" using fut_okD(1) [OF D(2) rw_reader_resume(3)] by blast
    from core_resume(1) [OF D(1) rw_reader_resume(2) this] rw_reader_resume(2) D(4,5) show ?thesis
      unfolding rw_reader_resume(1) by (intro rw_inv_plain [OF inv]) (auto simp: reader_resumed_def waits_def split: if_splits)
  next
    case (rw_writer_resume t e)
    have "e \<notin> wq ?w" using fut_okD(1) [OF D(2) rw_writer_resume(3)] by blast
    note c = core_resume(2) [OF D(1) rw_writer_resume(2) this]
    have "t \<in> wset ?p (wq ?w)" using rw_writer_resume(2) \<open>e \<notin> wq ?w\<close> by (simp add: wset_def)
    note X = rw_exclusive [OF D(1) this]
    have "?p u \<noteq> Write" for u
    proof
      assume w: "?p u = Write"
      then have "u \<in> wset ?p (wq ?w)" by (simp add: wset_def)
      then have "u = t" using X(2) by simp
      then show False using w rw_writer_resume(2) by simp
    qed
    then show ?thesis
      unfolding rw_writer_resume(1) using c rw_writer_resume(2) D(4,5)
      by (intro rw_inv_plain [OF inv]) (auto simp: writer_resumed_def waits_def split: if_splits)
  next
    case (rw_writer t l m a)
    from rw_writer(3) show ?thesis
    proof (cases rule: writer_enter_cases)
      case taken
      show ?thesis unfolding rw_writer(1) taken(4,5)
        using rw_inv_plain [OF inv, of Write t "(rw s)\<lparr>raw := ?w\<lparr>has_writer := True\<rparr>, writer_task := Some t\<rparr>"]
          core_write [OF D(1) rw_writer(2) taken(2,3)] D(4,5) nw taken(2) rw_writer(2)
        by (auto simp: waits_def rq_def wq_def split: if_splits)
    qed simp
  next
    case (rw_writer_wait t l e m a)
    from rw_writer_wait(3) show ?thesis
    proof (cases rule: writer_enter_cases)
      case queued
      have e: "e = next_evt (rw_aio s)" using queued(1) by simp
      show ?thesis unfolding rw_writer_wait(1) queued(2,3) e [symmetric]
        by (rule rw_inv_wait [OF inv rw_writer_wait(2) e, OF _ core_wait(2) [OF D(1) rw_writer_wait(2)]])
          (use e fresh in \<open>auto simp: rq_def wq_def\<close>)
    qed simp
  next
    case (rw_env a)
    have "fut_ok (rq ?w \<union> wq ?w) a \<and> next_evt (rw_aio s) \<le> next_evt a"
      by (rule fut_ok_env [OF D(2) rw_env(2)]) (rule rw_queued_waited [OF D(1)])
    then show ?thesis using inv unfolding rw_env(1) rw_inv_def by fastforce
  next
    case (rw_reader_cancel t e dn m a)
    obtain ws w where r: "remove_waiter e False ?w = (ws, w)" by fastforce
    show ?thesis unfolding rw_reader_cancel(1)
      by (rule rw_inv_out [OF inv _ raw_woken(3) [OF r] raw_woken_disjoint(3) [OF D(1) r]])
        (use core_cancel_read [OF D(1) rw_reader_cancel(2)] rw_reader_cancel r D(4,5) [of t] in
          \<open>auto simp: reader_cancelled_def\<close>)
  next
    case (rw_writer_cancel t e dn m a)
    obtain ws w where r: "remove_waiter e True ?w = (ws, w)" by fastforce
    show ?thesis unfolding rw_writer_cancel(1)
      by (rule rw_inv_out [OF inv _ raw_woken(3) [OF r] raw_woken_disjoint(3) [OF D(1) r]])
        (use core_cancel_write [OF D(1) rw_writer_cancel(2)] rw_writer_cancel r D(4,5) [of t] in
          \<open>auto simp: writer_cancelled_def\<close>)
  next
    case (rw_writer_exit t dn m a)
    obtain ws w where r: "release_write ?w = (ws, w)" by fastforce
    have m: "m = (rw s)\<lparr>raw := w, writer_task := None\<rparr>" "a = wake_all_list dn ws (rw_aio s)"
      using rw_writer_exit(3) r by (simp_all add: writer_exit_def)
    have t: "writer_task (rw s) = Some t" "depth (rw s) t = 0"
      using D(4,5) [of t] rw_writer_exit(2) by simp_all
    have core: "rw_core (?p(t := Out)) w"
      using core_exit_write [OF D(1) rw_writer_exit(2)] unfolding r by simp
    show ?thesis unfolding rw_writer_exit(1)
      by (rule rw_inv_out [OF inv core equalityD1 [OF raw_woken(2) [OF r]] raw_woken_disjoint(2) [OF D(1) r]])
        (use t in \<open>auto simp: m\<close>)
  next
    case (rw_reader_exit t dn m a)
    have d: "depth (rw s) t > 0" using D(4) rw_reader_exit(2) by simp
    show ?thesis
    proof (cases "depth (rw s) t > 1")
      case True
      then have m: "m = (rw s)\<lparr>depth := (depth (rw s))(t := depth (rw s) t - 1)\<rparr>" "a = rw_aio s"
        using rw_reader_exit(3) by (simp_all add: reader_exit_def)
      have "?p(t := Read) = ?p" using rw_reader_exit(2) by auto
      then show ?thesis unfolding rw_reader_exit(1) m
        using rw_reader_exit(2) rw_inv_plain [OF inv, of Read t m] D True m by (auto simp: waits_def split: if_splits)
    next
      case False
      obtain ws w where r: "release_read ?w = (ws, w)" by fastforce
      have m: "m = (rw s)\<lparr>raw := w, depth := (depth (rw s))(t := 0)\<rparr>" "a = wake_all_list dn ws (rw_aio s)"
        using rw_reader_exit(3) r False by (simp_all add: reader_exit_def)
      have wt: "writer_task (rw s) \<noteq> Some t" using D(5) [of t] rw_reader_exit(2) by simp
      have core: "rw_core (?p(t := Out)) w"
        using core_exit_read [OF D(1) rw_reader_exit(2)] unfolding r by simp
      have "rw_inv (s\<lparr>rw := m, rw_aio := a, rw_pcs := ?p(t := Out)\<rparr>)"
        by (rule rw_inv_out [OF inv core equalityD1 [OF raw_woken(1) [OF r]] raw_woken_disjoint(1) [OF D(1) r]])
          (use wt in \<open>auto simp: m\<close>)
      then show ?thesis unfolding rw_reader_exit(1) by (simp add: m)
    qed
  qed
qed

interpretation rust_rw: rw_exclusion rw_start rw_step rw_inv
  "\<lambda>s t. rw_pcs s t = Read" "\<lambda>s t. rw_pcs s t = Write"
proof unfold_locales
  show "rw_start s \<Longrightarrow> rw_inv s" for s
    by (simp add: rw_start_def rw_inv_def rw_new_def raw_new_def rw_core_def queues_ok_def counts_ok_def rq_def
        wq_def rset_def wset_def waits_def waited_def fut_ok_init)
qed (use rw_inv_step rw_inv_exclusive_pc in blast)+

section \<open>A lost grant\<close>

definition rw_stuck :: "rw_sys \<Rightarrow> bool" where
  "rw_stuck s \<longleftrightarrow> rw_inv s \<and> has_writer (raw (rw s)) \<and> wset (rw_pcs s) (wq (raw (rw s))) = {}"

lemma rw_stuckD:
  assumes "rw_stuck s"
  shows "rw_inv s" "has_writer (raw (rw s))" "rw_pcs s t \<noteq> Read" "rw_pcs s t \<noteq> Write"
    "rw_pcs s t = Read_wait e \<Longrightarrow> e \<in> rq (raw (rw s))" "rw_pcs s t = Write_wait e \<Longrightarrow> e \<in> wq (raw (rw s))"
    "wset (rw_pcs s) (wq (raw (rw s))) = {}"
proof -
  show i: "rw_inv s" "has_writer (raw (rw s))" "wset (rw_pcs s) (wq (raw (rw s))) = {}"
    using assms by (simp_all add: rw_stuck_def)
  note C = rw_coreD [OF rw_invD(1) [OF i(1)]]
  have "rset (rw_pcs s) (rq (raw (rw s))) = {}" using C(4,9) i(2) by blast
  then show "rw_pcs s t \<noteq> Read" "rw_pcs s t = Read_wait e \<Longrightarrow> e \<in> rq (raw (rw s))"
    by (auto simp: rset_def)
  show "rw_pcs s t \<noteq> Write" "rw_pcs s t = Write_wait e \<Longrightarrow> e \<in> wq (raw (rw s))"
    using i(3) by (auto simp: wset_def)
qed

lemma rw_stuck_step:
  assumes st: "rw_stuck s" and step: "rw_step s s'"
  shows "rw_stuck s'"
proof -
  note S = rw_stuckD [OF st] and D = rw_invD [OF rw_stuckD(1) [OF st]]
  have inv': "rw_inv s'" by (rule rw_inv_step [OF S(1) step])
  from step have "has_writer (raw (rw s')) \<and> wset (rw_pcs s') (wq (raw (rw s'))) = {}"
  proof cases
    case (rw_reader t l m a)
    have "rw_pcs s t = Out" using rw_reader(2) S(3) by auto
    from rw_reader(3) show ?thesis
      by (cases rule: reader_enter_cases) (use S D(4) \<open>rw_pcs s t = Out\<close> in auto)
  next
    case (rw_reader_wait t l e m a)
    from rw_reader_wait(3) show ?thesis
      by (cases rule: reader_enter_cases) (use S rw_reader_wait(1) in \<open>auto simp: wq_def\<close>)
  next
    case (rw_reader_resume t e)
    then show ?thesis using S(5) fut_okD(1) [OF D(2)] by blast
  next
    case (rw_writer_resume t e)
    then show ?thesis using S(6) fut_okD(1) [OF D(2)] by blast
  next
    case (rw_writer t l m a)
    from rw_writer(3) show ?thesis
      by (cases rule: writer_enter_cases) (use S(2) in auto)
  next
    case (rw_writer_wait t l e m a)
    from rw_writer_wait(3) show ?thesis
    proof (cases rule: writer_enter_cases)
      case queued
      have "wset ((rw_pcs s)(t := Write_wait e)) (insert e (wq (raw (rw s)))) \<subseteq> wset (rw_pcs s) (wq (raw (rw s)))"
        by (auto simp: wset_def)
      then show ?thesis using queued S(2,7) rw_writer_wait(1) by (auto simp: wq_def)
    qed simp
  next
    case (rw_reader_cancel t e dn m a)
    then show ?thesis using S(2,7) by (auto simp: reader_cancelled_def remove_waiter_def wq_def)
  next
    case (rw_writer_cancel t e dn m a)
    have inj: "u = t" if "rw_pcs s u = Write_wait e" for u
      using queues_okD(3) [OF rw_coreD(1) [OF D(1)], of t e u] that rw_writer_cancel(2) by (simp add: waits_def)
    have "raw m = snd (remove_waiter e True (raw (rw s)))"
      using rw_writer_cancel(3) by (auto simp: writer_cancelled_def split: prod.splits)
    then have "has_writer (raw m)" "wq (raw m) = wq (raw (rw s)) - {e}"
      using S(2) by (auto simp: remove_waiter_def Let_def wq_def)
    moreover have "wset ((rw_pcs s)(t := Out)) (wq (raw (rw s)) - {e}) \<subseteq> wset (rw_pcs s) (wq (raw (rw s)))"
      using inj by (auto simp: wset_def)
    ultimately show ?thesis using S(7) rw_writer_cancel(1) by simp
  next
    case (rw_reader_exit t dn m a)
    then show ?thesis using S(3) by blast
  next
    case (rw_writer_exit t dn m a)
    then show ?thesis using S(4) by blast
  next
    case (rw_env a)
    then show ?thesis using S by simp
  qed
  then show ?thesis using inv' by (simp add: rw_stuck_def)
qed

lemma rw_stuck_reach: "reach rw_step s s' \<Longrightarrow> rw_stuck s \<Longrightarrow> rw_stuck s'"
  by (induction rule: reach.induct) (auto intro: rw_stuck_step)

lemma rw_stuck_cancel:
  assumes inv: "rw_inv s" and t: "rw_pcs s t = Write_wait e" "e \<notin> wq (raw (rw s))"
    and c: "writer_cancelled dn e (rw s) (rw_aio s) = (m, a)"
  shows "rw_stuck (s\<lparr>rw := m, rw_aio := a, rw_pcs := (rw_pcs s)(t := Out)\<rparr>)"
proof -
  let ?s = "s\<lparr>rw := m, rw_aio := a, rw_pcs := (rw_pcs s)(t := Out)\<rparr>"
  note D = rw_coreD [OF rw_invD(1) [OF inv]]
  have "rw_inv ?s" by (rule rw_inv_step [OF inv rw_step.rw_writer_cancel [OF t(1) c]])
  moreover have tw: "t \<in> wset (rw_pcs s) (wq (raw (rw s)))" using t by (auto simp: wset_def)
  then have h: "has_writer (raw (rw s))" using D(8) by auto
  have "raw m = snd (remove_waiter e True (raw (rw s)))"
    using c by (auto simp: writer_cancelled_def split: prod.splits)
  then have "has_writer (raw m)" "wq (raw m) = wq (raw (rw s))"
    using h t(2) by (auto simp: remove_waiter_def Let_def wq_def)
  moreover have "wset (rw_pcs s) (wq (raw (rw s))) = {t}"
    by (rule rw_exclusive(2) [OF rw_invD(1) [OF inv] tw])
  ultimately show ?thesis by (simp add: rw_stuck_def)
qed

section \<open>The fallback\<close>

text \<open>
  Without the extension the lock is five fields under a \<open>Lock\<close> with two conditions.  One
  definition per stretch of code that runs with the lock held; \<open>None\<close> waits on the condition,
  and the flags say which condition is notified.
\<close>

record rw_fb =
  fb_readers :: nat
  fb_writer :: bool
  fb_pending :: nat
  fb_depth :: "task \<Rightarrow> nat"
  fb_owner :: "task option"

definition fb_new :: rw_fb where
  "fb_new = \<lparr>fb_readers = 0, fb_writer = False, fb_pending = 0, fb_depth = (\<lambda>_. 0), fb_owner = None\<rparr>"

definition fb_reader_try :: "task \<Rightarrow> rw_fb \<Rightarrow> rw_fb option" where
  "fb_reader_try t m =
     (if fb_writer m \<or> fb_pending m > 0 then None
      else Some (m\<lparr>fb_readers := fb_readers m + 1, fb_depth := (fb_depth m)(t := fb_depth m t + 1)\<rparr>))"

definition fb_reader_enter :: "task \<Rightarrow> rw_fb \<Rightarrow> error + rw_fb option" where
  "fb_reader_enter t m =
     (if fb_owner m = Some t then
        Inl (RuntimeError ''AsyncRWMutex: reader() cannot be used while the same task holds writer()'')
      else if fb_depth m t > 0 then Inr (Some (m\<lparr>fb_depth := (fb_depth m)(t := fb_depth m t + 1)\<rparr>))
      else Inr (fb_reader_try t m))"

definition fb_reader_exit :: "task \<Rightarrow> rw_fb \<Rightarrow> rw_fb \<times> bool" where
  "fb_reader_exit t m =
     (if fb_depth m t = 0 then (m, False)
      else if fb_depth m t = 1 then
        (let m = m\<lparr>fb_depth := (fb_depth m)(t := 0), fb_readers := fb_readers m - 1\<rparr> in (m, fb_readers m = 0))
      else (m\<lparr>fb_depth := (fb_depth m)(t := fb_depth m t - 1)\<rparr>, False))"

definition fb_writer_enter :: "task \<Rightarrow> rw_fb \<Rightarrow> error + rw_fb" where
  "fb_writer_enter t m =
     (if fb_depth m t > 0 then
        Inl (RuntimeError ''AsyncRWMutex: writer() cannot be used while the same task holds reader()'')
      else if fb_owner m = Some t then Inl (RuntimeError ''AsyncRWMutex: writer() is not reentrant'')
      else Inr (m\<lparr>fb_pending := fb_pending m + 1\<rparr>))"

text \<open>The \<open>finally\<close> of \<open>writer()\<close>; the flag: \<open>_read_ok\<close> is notified.\<close>

definition fb_settle :: "rw_fb \<Rightarrow> rw_fb \<times> bool" where
  "fb_settle m = (let m = m\<lparr>fb_pending := fb_pending m - 1\<rparr> in (m, fb_pending m = 0 \<and> \<not> fb_writer m))"

definition fb_writer_try :: "task \<Rightarrow> rw_fb \<Rightarrow> (rw_fb \<times> bool) option" where
  "fb_writer_try t m =
     (if fb_writer m \<or> fb_readers m > 0 then None
      else Some (fb_settle (m\<lparr>fb_writer := True, fb_owner := Some t\<rparr>)))"

text \<open>\<open>True\<close> notifies \<open>_write_ok\<close>, \<open>False\<close> \<open>_read_ok\<close>.\<close>

definition fb_writer_exit :: "rw_fb \<Rightarrow> rw_fb \<times> bool" where
  "fb_writer_exit m = (let m = m\<lparr>fb_writer := False, fb_owner := None\<rparr> in (m, fb_pending m > 0))"

datatype fb_pc = F_out | F_read | F_read_wait | F_write | F_write_wait

record fb_sys =
  fb :: rw_fb
  fb_pcs :: "task \<Rightarrow> fb_pc"

text \<open>A task waiting on a condition tests again whenever it is notified, or for no reason.\<close>

inductive fb_step :: "fb_sys \<Rightarrow> fb_sys \<Rightarrow> bool" where
  fb_read: "fb_pcs s t \<in> {F_out, F_read} \<Longrightarrow> fb_reader_enter t (fb s) = Inr (Some m) \<Longrightarrow>
     fb_step s (s\<lparr>fb := m, fb_pcs := (fb_pcs s)(t := F_read)\<rparr>)"
| fb_read_wait: "fb_pcs s t \<in> {F_out, F_read} \<Longrightarrow> fb_reader_enter t (fb s) = Inr None \<Longrightarrow>
     fb_step s (s\<lparr>fb_pcs := (fb_pcs s)(t := F_read_wait)\<rparr>)"
| fb_read_retry: "fb_pcs s t = F_read_wait \<Longrightarrow> fb_reader_try t (fb s) = Some m \<Longrightarrow>
     fb_step s (s\<lparr>fb := m, fb_pcs := (fb_pcs s)(t := F_read)\<rparr>)"
| fb_read_cancel: "fb_pcs s t = F_read_wait \<Longrightarrow> fb_step s (s\<lparr>fb_pcs := (fb_pcs s)(t := F_out)\<rparr>)"
| fb_read_exit: "fb_pcs s t = F_read \<Longrightarrow> fb_reader_exit t (fb s) = (m, n) \<Longrightarrow>
     fb_step s (s\<lparr>fb := m, fb_pcs := (fb_pcs s)(t := if fb_depth m t > 0 then F_read else F_out)\<rparr>)"
| fb_write_enter: "fb_pcs s t = F_out \<Longrightarrow> fb_writer_enter t (fb s) = Inr m \<Longrightarrow>
     fb_step s (s\<lparr>fb := m, fb_pcs := (fb_pcs s)(t := F_write_wait)\<rparr>)"
| fb_write_try: "fb_pcs s t = F_write_wait \<Longrightarrow> fb_writer_try t (fb s) = Some (m, n) \<Longrightarrow>
     fb_step s (s\<lparr>fb := m, fb_pcs := (fb_pcs s)(t := F_write)\<rparr>)"
| fb_write_cancel: "fb_pcs s t = F_write_wait \<Longrightarrow> fb_settle (fb s) = (m, n) \<Longrightarrow>
     fb_step s (s\<lparr>fb := m, fb_pcs := (fb_pcs s)(t := F_out)\<rparr>)"
| fb_write_exit: "fb_pcs s t = F_write \<Longrightarrow> fb_writer_exit (fb s) = (m, n) \<Longrightarrow>
     fb_step s (s\<lparr>fb := m, fb_pcs := (fb_pcs s)(t := F_out)\<rparr>)"

definition fb_start :: "fb_sys \<Rightarrow> bool" where
  "fb_start s \<longleftrightarrow> s = \<lparr>fb = fb_new, fb_pcs = (\<lambda>_. F_out)\<rparr>"

definition fb_inv :: "fb_sys \<Rightarrow> bool" where
  "fb_inv s \<longleftrightarrow> (let m = fb s; p = fb_pcs s in
     finite {t. p t = F_read} \<and> finite {t. p t = F_write_wait} \<and>
     fb_readers m = card {t. p t = F_read} \<and> fb_pending m = card {t. p t = F_write_wait} \<and>
     (\<forall>t. fb_depth m t > 0 \<longleftrightarrow> p t = F_read) \<and> (\<forall>t. fb_owner m = Some t \<longleftrightarrow> p t = F_write) \<and>
     (fb_writer m \<longleftrightarrow> fb_owner m \<noteq> None) \<and> (fb_writer m \<longrightarrow> fb_readers m = 0))"

lemma pcs_add: "p t \<noteq> c \<Longrightarrow> {u. (p(t := c)) u = c} = insert t {u. p u = c}"
  by auto

lemma pcs_del: "c \<noteq> x \<Longrightarrow> {u. (p(t := x)) u = c} = {u. p u = c} - {t}"
  by auto

lemma pcs_card:
  assumes "finite {u. p u = c}"
  shows "finite {u. (p(t := x)) u = c}"
    and "card {u. (p(t := x)) u = c} = (if x = c then if p t = c then card {u. p u = c} else card {u. p u = c} + 1
      else if p t = c then card {u. p u = c} - 1 else card {u. p u = c})"
proof -
  have e: "{u. (p(t := x)) u = c} = (if x = c then insert t {u. p u = c} else {u. p u = c} - {t})" by auto
  show "finite {u. (p(t := x)) u = c}" unfolding e using assms by simp
  show "card {u. (p(t := x)) u = c} = (if x = c then if p t = c then card {u. p u = c} else card {u. p u = c} + 1
      else if p t = c then card {u. p u = c} - 1 else card {u. p u = c})"
    unfolding e using assms by (auto simp: insert_absorb)
qed

lemma fb_invD:
  assumes "fb_inv s"
  shows "fb_readers (fb s) = card {t. fb_pcs s t = F_read}" "fb_pending (fb s) = card {t. fb_pcs s t = F_write_wait}"
    "fb_depth (fb s) t > 0 \<longleftrightarrow> fb_pcs s t = F_read" "fb_owner (fb s) = Some t \<longleftrightarrow> fb_pcs s t = F_write"
    "fb_writer (fb s) \<longleftrightarrow> fb_owner (fb s) \<noteq> None" "fb_writer (fb s) \<Longrightarrow> fb_readers (fb s) = 0"
    "finite {t. fb_pcs s t = F_read}" "finite {t. fb_pcs s t = F_write_wait}"
  using assms unfolding fb_inv_def Let_def by (elim conjE; blast)+

lemma fb_invI:
  assumes inv: "fb_inv s"
    and r: "fb_readers m = (if x = F_read then if fb_pcs s t = F_read then fb_readers (fb s) else fb_readers (fb s) + 1
      else if fb_pcs s t = F_read then fb_readers (fb s) - 1 else fb_readers (fb s))"
    and w: "fb_pending m = (if x = F_write_wait then if fb_pcs s t = F_write_wait then fb_pending (fb s) else fb_pending (fb s) + 1
      else if fb_pcs s t = F_write_wait then fb_pending (fb s) - 1 else fb_pending (fb s))"
    and d: "\<And>u. u \<noteq> t \<Longrightarrow> fb_depth m u = fb_depth (fb s) u" "fb_depth m t > 0 \<longleftrightarrow> x = F_read"
    and ow: "\<And>u. u \<noteq> t \<Longrightarrow> fb_owner m = Some u \<longleftrightarrow> fb_owner (fb s) = Some u" "fb_owner m = Some t \<longleftrightarrow> x = F_write"
    and wr: "fb_writer m \<longleftrightarrow> fb_owner m \<noteq> None" "fb_writer m \<Longrightarrow> fb_readers m = 0"
  shows "fb_inv (s\<lparr>fb := m, fb_pcs := (fb_pcs s)(t := x)\<rparr>)"
proof -
  note D = fb_invD [OF inv]
  let ?p = "(fb_pcs s)(t := x)"
  have "fb_readers m = card {u. ?p u = F_read}" unfolding pcs_card(2) [OF D(7)] r D(1) ..
  moreover have "fb_pending m = card {u. ?p u = F_write_wait}" unfolding pcs_card(2) [OF D(8)] w D(2) ..
  moreover have "fb_depth m u > 0 \<longleftrightarrow> ?p u = F_read" for u using d D(3) [of u] by (cases "u = t") simp_all
  moreover have "fb_owner m = Some u \<longleftrightarrow> ?p u = F_write" for u using ow D(4) [of u] by (cases "u = t") simp_all
  ultimately show ?thesis
    using wr pcs_card(1) [OF D(7), of t x] pcs_card(1) [OF D(8), of t x]
    unfolding fb_inv_def Let_def by (simp del: fun_upd_apply)
qed

lemma fb_inv_stay: "fb_inv s \<Longrightarrow> x \<in> {F_out, F_read_wait} \<Longrightarrow> fb_pcs s t \<in> {F_out, F_read_wait} \<Longrightarrow>
  fb_inv (s\<lparr>fb_pcs := (fb_pcs s)(t := x)\<rparr>)"
  using fb_invI [of s "fb s" x t] fb_invD [of s] by auto

lemma fb_inv_step:
  assumes inv: "fb_inv s" and st: "fb_step s s'"
  shows "fb_inv s'"
proof -
  note D = fb_invD [OF inv]
  have nw: "fb_owner (fb s) = None" if "\<not> fb_writer (fb s)" using that D(5) by simp
  from st show ?thesis
  proof cases
    case (fb_read t m)
    have o: "fb_owner (fb s) \<noteq> Some t" using fb_read(2) D(4) [of t] by auto
    show ?thesis unfolding fb_read(1)
    proof (cases "fb_pcs s t = F_read")
      case True
      then have "m = (fb s)\<lparr>fb_depth := (fb_depth (fb s))(t := fb_depth (fb s) t + 1)\<rparr>"
        using fb_read(3) o D(3) [of t] by (simp add: fb_reader_enter_def)
      then show "fb_inv (s\<lparr>fb := m, fb_pcs := (fb_pcs s)(t := F_read)\<rparr>)"
        using True o D(5,6) by (intro fb_invI [OF inv]) simp_all
    next
      case False
      then have "fb_depth (fb s) t = 0" using D(3) [of t] by simp
      then have "\<not> fb_writer (fb s)" and "m = (fb s)\<lparr>fb_readers := fb_readers (fb s) + 1,
          fb_depth := (fb_depth (fb s))(t := 1)\<rparr>"
        using fb_read(3) o by (simp_all add: fb_reader_enter_def fb_reader_try_def split: if_splits)
      then show "fb_inv (s\<lparr>fb := m, fb_pcs := (fb_pcs s)(t := F_read)\<rparr>)"
        using False o nw fb_read(2) by (intro fb_invI [OF inv]) auto
    qed
  next
    case (fb_read_wait t)
    have "fb_pcs s t = F_out"
      using fb_read_wait(2,3) D(3) [of t] by (auto simp: fb_reader_enter_def split: if_splits)
    then show ?thesis unfolding fb_read_wait(1) using inv by (intro fb_inv_stay) simp_all
  next
    case (fb_read_retry t m)
    have "fb_depth (fb s) t = 0" using D(3) [of t] fb_read_retry(2) by simp
    then have "\<not> fb_writer (fb s)" and "m = (fb s)\<lparr>fb_readers := fb_readers (fb s) + 1,
        fb_depth := (fb_depth (fb s))(t := 1)\<rparr>"
      using fb_read_retry(3) by (simp_all add: fb_reader_try_def split: if_splits)
    then show ?thesis unfolding fb_read_retry(1)
      using nw fb_read_retry(2) by (intro fb_invI [OF inv]) auto
  next
    case (fb_read_cancel t)
    then show ?thesis using fb_inv_stay [OF inv] by simp
  next
    case (fb_read_exit t m n)
    have d: "fb_depth (fb s) t > 0" using D(3) [of t] fb_read_exit(2) by simp
    have o: "fb_owner (fb s) \<noteq> Some t" using D(4) [of t] fb_read_exit(2) by simp
    have "fb_readers (fb s) \<noteq> 0" using D(1,7) fb_read_exit(2) by auto
    then have nwr: "\<not> fb_writer (fb s)" using D(6) by auto
    show ?thesis unfolding fb_read_exit(1)
      by (rule fb_invI [OF inv]) (use d o nwr nw fb_read_exit(2,3) in
        \<open>auto simp: fb_reader_exit_def Let_def split: if_splits\<close>)
  next
    case (fb_write_enter t m)
    then have "m = (fb s)\<lparr>fb_pending := fb_pending (fb s) + 1\<rparr>"
      by (simp add: fb_writer_enter_def split: if_splits)
    then show ?thesis unfolding fb_write_enter(1)
      using fb_write_enter(2) D(3) [of t] D(4) [of t] D(5,6) by (intro fb_invI [OF inv]) auto
  next
    case (fb_write_try t m n)
    then have "\<not> fb_writer (fb s)" "fb_readers (fb s) = 0" and
      "m = (fb s)\<lparr>fb_writer := True, fb_owner := Some t, fb_pending := fb_pending (fb s) - 1\<rparr>"
      by (auto simp: fb_writer_try_def fb_settle_def Let_def split: if_splits)
    then show ?thesis unfolding fb_write_try(1)
      using fb_write_try(2) D(3) [of t] nw by (intro fb_invI [OF inv]) auto
  next
    case (fb_write_cancel t m n)
    then have "m = (fb s)\<lparr>fb_pending := fb_pending (fb s) - 1\<rparr>" by (simp add: fb_settle_def Let_def)
    then show ?thesis unfolding fb_write_cancel(1)
      using fb_write_cancel(2) D(3) [of t] D(4) [of t] D(5,6) by (intro fb_invI [OF inv]) auto
  next
    case (fb_write_exit t m n)
    then have "m = (fb s)\<lparr>fb_writer := False, fb_owner := None\<rparr>" by (simp add: fb_writer_exit_def Let_def)
    moreover have "fb_owner (fb s) = Some t" using D(4) fb_write_exit(2) by simp
    ultimately show ?thesis unfolding fb_write_exit(1)
      using fb_write_exit(2) D(3) [of t] by (intro fb_invI [OF inv]) auto
  qed
qed

interpretation fallback_rw: rw_exclusion fb_start fb_step fb_inv
  "\<lambda>s t. fb_pcs s t = F_read" "\<lambda>s t. fb_pcs s t = F_write"
proof unfold_locales
  show "fb_start s \<Longrightarrow> fb_inv s" for s by (simp add: fb_start_def fb_inv_def fb_new_def)
  show "fb_inv s \<Longrightarrow> fb_step s s' \<Longrightarrow> fb_inv s'" for s s' by (rule fb_inv_step)
  fix s t u assume inv: "fb_inv s" and t: "fb_pcs s t = F_write"
  note D = fb_invD [OF inv]
  have o: "fb_owner (fb s) = Some t" using D(4) t by simp
  then have "fb_readers (fb s) = 0" using D(5,6) by simp
  then show "fb_pcs s u \<noteq> F_read" using D(1,7) by auto
  show "t = u" if "fb_pcs s u = F_write" using D(4) [of u] that o by simp
qed

section \<open>Properties\<close>

text \<open>
  C19: both implementations exclude.  While a task is inside \<open>writer()\<close>, no other task is inside
  \<open>reader()\<close> or \<open>writer()\<close>, with the Rust state machine and with the fallback, whatever tasks
  enter, wait, are cancelled and leave, and however their wake-ups are delivered.
\<close>

theorem rw_exclusive_access:
  "(reach rw_step \<lparr>rw = rw_new, rw_aio = aio_init, rw_pcs = (\<lambda>_. Out)\<rparr> s \<and> rw_pcs s t = Write \<longrightarrow>
      rw_pcs s u \<noteq> Read \<and> (rw_pcs s u = Write \<longrightarrow> u = t)) \<and>
   (reach fb_step \<lparr>fb = fb_new, fb_pcs = (\<lambda>_. F_out)\<rparr> s' \<and> fb_pcs s' t = F_write \<longrightarrow>
      fb_pcs s' u \<noteq> F_read \<and> (fb_pcs s' u = F_write \<longrightarrow> u = t))"
  using rust_rw.exclusion [of "\<lparr>rw = rw_new, rw_aio = aio_init, rw_pcs = (\<lambda>_. Out)\<rparr>" s t u]
    fallback_rw.exclusion [of "\<lparr>fb = fb_new, fb_pcs = (\<lambda>_. F_out)\<rparr>" s' t u]
  by (auto simp: rw_start_def fb_start_def)

text \<open>A run with the Rust state machine: task 0 writes, task 1 queues, task 0 leaves.\<close>

definition rw_demo :: "rw_pc \<Rightarrow> rw_pc \<Rightarrow> rw_raw \<Rightarrow> aio \<Rightarrow> task option \<Rightarrow> rw_sys" where
  "rw_demo p q w a o' = \<lparr>rw = \<lparr>raw = w, depth = (\<lambda>_. 0), writer_task = o'\<rparr>, rw_aio = a,
     rw_pcs = (\<lambda>_. Out)(0 := p, 1 := q)\<rparr>"

definition raw_demo :: "bool \<Rightarrow> (loop \<times> evt) list \<Rightarrow> rw_raw" where
  "raw_demo b q = \<lparr>readers = 0, has_writer = b, pending_writers = length q, read_waiters = [], write_waiters = q\<rparr>"

lemma rw_demo_start: "rw_demo Out Out (raw_demo False []) aio_init None = \<lparr>rw = rw_new, rw_aio = aio_init, rw_pcs = (\<lambda>_. Out)\<rparr>"
  by (simp add: rw_demo_def raw_demo_def rw_new_def raw_new_def fun_eq_iff)

lemma rw_demo_1: "rw_step (rw_demo Out Out (raw_demo False []) aio_init None) (rw_demo Write Out (raw_demo True []) aio_init (Some 0))"
  (is "rw_step ?s ?t")
proof -
  have "writer_enter (Some 0) 0 (rw ?s) (rw_aio ?s) = (Inr Acquired, rw ?t, rw_aio ?t)"
    by (simp add: writer_enter_def rw_demo_def raw_demo_def try_acquire_write_def)
  from rw_step.rw_writer [OF _ this] show ?thesis
    by (simp add: rw_demo_def fun_upd_twist)
qed

lemma rw_demo_2: "rw_step (rw_demo Write Out (raw_demo True []) aio_init (Some 0))
    (rw_demo Write (Write_wait 0) (raw_demo True [(0, 0)]) (aio_init\<lparr>next_evt := 1\<rparr>) (Some 0))"
  (is "rw_step ?s ?t")
proof -
  have "writer_enter (Some 1) 0 (rw ?s) (rw_aio ?s) = (Inr (Suspended 0), rw ?t, rw_aio ?t)"
    by (simp add: writer_enter_def rw_demo_def raw_demo_def try_acquire_write_def write_or_register_def new_event_def
        aio_init_def Let_def)
  from rw_step.rw_writer_wait [OF _ this] show ?thesis
    by (simp add: rw_demo_def fun_upd_twist)
qed

definition aio_demo :: aio where
  "aio_demo = wake_all_list (\<lambda>_. False) [(0, 0)] (aio_init\<lparr>next_evt := 1\<rparr>)"

lemma rw_demo_3: "rw_step (rw_demo Write (Write_wait 0) (raw_demo True [(0, 0)]) (aio_init\<lparr>next_evt := 1\<rparr>) (Some 0))
    (rw_demo Out (Write_wait 0) (raw_demo True []) aio_demo None)"
  (is "rw_step ?s ?t")
proof -
  have "writer_exit (\<lambda>_. False) (rw ?s) (rw_aio ?s) = (rw ?t, rw_aio ?t)"
    by (simp add: writer_exit_def rw_demo_def raw_demo_def release_write_def next_writer_def aio_demo_def Let_def)
  from rw_step.rw_writer_exit [OF _ this, of 0] show ?thesis
    by (simp add: rw_demo_def fun_upd_twist)
qed

lemma fb_demo_run:
  "\<exists>s :: fb_sys. reach fb_step \<lparr>fb = fb_new, fb_pcs = (\<lambda>_. F_out)\<rparr> s \<and> fb_pcs s 0 = F_write"
proof -
  let ?s = "\<lparr>fb = fb_new, fb_pcs = (\<lambda>_. F_out)\<rparr>"
  let ?t = "?s\<lparr>fb := fb_new\<lparr>fb_pending := 1\<rparr>, fb_pcs := (fb_pcs ?s)(0 := F_write_wait)\<rparr>"
  have 1: "fb_step ?s ?t"
    by (rule fb_step.fb_write_enter) (simp_all add: fb_writer_enter_def fb_new_def)
  define m n where "m = fst (fb_settle ((fb ?t)\<lparr>fb_writer := True, fb_owner := Some 0\<rparr>))"
    and "n = snd (fb_settle ((fb ?t)\<lparr>fb_writer := True, fb_owner := Some 0\<rparr>))"
  have m: "fb_writer_try 0 (fb ?t) = Some (m, n)"
    unfolding m_def n_def by (simp add: fb_writer_try_def fb_new_def)
  have 2: "fb_step ?t (?t\<lparr>fb := m, fb_pcs := (fb_pcs ?t)(0 := F_write)\<rparr>)"
    by (rule fb_step.fb_write_try [OF _ m]) simp
  show ?thesis
    by (rule exI, rule conjI, rule reach_step [where step = fb_step, OF reach_one [where step = fb_step, OF 1] 2]) simp
qed

theorem rw_exclusive_access_witness:
  "\<exists>(s :: rw_sys) (s' :: fb_sys). rw_pcs s 0 = Write \<and> rw_pcs s 1 \<noteq> Read \<and> rw_pcs s 1 \<noteq> Write \<and>
     fb_pcs s' 0 = F_write \<and> fb_pcs s' 1 \<noteq> F_read"
proof -
  obtain s' :: fb_sys where s': "reach fb_step \<lparr>fb = fb_new, fb_pcs = (\<lambda>_. F_out)\<rparr> s'" "fb_pcs s' 0 = F_write"
    using fb_demo_run by blast
  let ?s = "rw_demo Write Out (raw_demo True []) aio_init (Some 0)"
  have r: "reach rw_step \<lparr>rw = rw_new, rw_aio = aio_init, rw_pcs = (\<lambda>_. Out)\<rparr> ?s"
    using reach_one [where step = rw_step, OF rw_demo_1] by (simp only: rw_demo_start)
  have w: "rw_pcs ?s 0 = Write" by (simp add: rw_demo_def)
  show ?thesis
    using rw_exclusive_access [of ?s 0 1 s'] r w s' by (intro exI [of _ ?s] exI [of _ s']) auto
qed

text \<open>
  C37: a grant to a cancelled waiter is lost.  When a releasing task hands the lock to a queued
  writer and that writer is cancelled before it resumes, \<open>remove_waiter\<close> does not find it and
  does not give the lock back: the lock stays taken by nobody, and from then on no task ever
  enters \<open>reader()\<close> or \<open>writer()\<close> again.
\<close>

theorem rw_grant_lost:
  assumes "reach rw_step \<lparr>rw = rw_new, rw_aio = aio_init, rw_pcs = (\<lambda>_. Out)\<rparr> s"
    and "rw_pcs s t = Write_wait e" and "e \<notin> snd ` set (write_waiters (raw (rw s)))"
    and "writer_cancelled dn e (rw s) (rw_aio s) = (m, a)"
    and "reach rw_step (s\<lparr>rw := m, rw_aio := a, rw_pcs := (rw_pcs s)(t := Out)\<rparr>) s'"
  shows "has_writer (raw (rw s')) \<and> rw_pcs s' u \<noteq> Read \<and> rw_pcs s' u \<noteq> Write"
proof -
  have "rw_inv s" using rust_rw.inv_reach [OF assms(1)] by (simp add: rw_start_def)
  then have "rw_stuck (s\<lparr>rw := m, rw_aio := a, rw_pcs := (rw_pcs s)(t := Out)\<rparr>)"
    using rw_stuck_cancel assms(2-4) by (simp add: wq_def)
  from rw_stuckD(2-4) [OF rw_stuck_reach [OF assms(5) this]] show ?thesis by blast
qed

theorem rw_grant_lost_witness:
  "(\<exists>s :: rw_sys. has_writer (raw (rw s)) \<and> (\<forall>u. rw_pcs s u \<noteq> Read \<and> rw_pcs s u \<noteq> Write))"
proof -
  let ?s = "rw_demo Out (Write_wait 0) (raw_demo True []) aio_demo None"
  have "reach rw_step (rw_demo Out Out (raw_demo False []) aio_init None) ?s"
    using rw_demo_1 rw_demo_2 rw_demo_3 by (meson reach.intros)
  then have r: "reach rw_step \<lparr>rw = rw_new, rw_aio = aio_init, rw_pcs = (\<lambda>_. Out)\<rparr> ?s"
    by (simp only: rw_demo_start)
  have p: "rw_pcs ?s 1 = Write_wait 0" "0 \<notin> snd ` set (write_waiters (raw (rw ?s)))"
    by (simp_all add: rw_demo_def raw_demo_def)
  from rw_grant_lost [OF r p surjective_pairing [of "writer_cancelled (\<lambda>_. False) 0 (rw ?s) (rw_aio ?s)"] reach.reach_refl]
  show ?thesis by blast
qed

end
