(* ===== verification/Channels.thy ===== *)
theory Channels
  imports Asyncio
begin

text \<open>
  \<open>multiloop.primitives.Channel\<close> over \<open>RawAsyncChannel\<close> of \<open>channel.rs\<close>: the buffer with its
  three queues of futures, the callbacks that complete the futures, the stages of \<open>send\<close> and
  \<open>recv\<close>, and \<open>select_channel\<close>.  Proved: the state machine is a FIFO queue whatever is called
  in whatever order; and where that guarantee ends: past the capacity with select watchers, at
  cancelled receivers, at closed loops, and between two steps of \<open>send\<close>.
\<close>

section \<open>The state machine of channel.rs\<close>

text \<open>
  Waiters are a loop and a future; \<open>maxsize\<close> 0 is unbounded.  \<open>token\<close> is the \<open>Channel\<close> object
  around it, with which a watcher is woken.
\<close>

record 'a chan =
  buffer :: "'a list"
  maxsize :: nat
  is_closed :: bool
  getters :: "(loop \<times> evt) list"
  putters :: "(loop \<times> evt) list"
  watchers :: "(loop \<times> evt) list"
  token :: nat

text \<open>\<open>WakeTarget\<close>: a future gets an item, nothing (a putter), an exception, or the channel.\<close>

datatype 'a wake = Give loop evt 'a | Room loop evt | Fail loop evt | Ready loop evt

definition chan_new :: "nat \<Rightarrow> int \<Rightarrow> 'a chan" where
  "chan_new k n =
     \<lparr>buffer = [], maxsize = nat n, is_closed = False, getters = [], putters = [], watchers = [], token = k\<rparr>"

definition room :: "'a chan \<Rightarrow> bool" where
  "room c \<longleftrightarrow> maxsize c = 0 \<or> length (buffer c) < maxsize c"

definition raw_close :: "'a chan \<Rightarrow> 'a wake list \<times> 'a chan" where
  "raw_close c =
     (if is_closed c then ([], c)
      else (map (\<lambda>(l, f). Fail l f) (getters c) @ map (\<lambda>(l, f). Fail l f) (putters c) @
              map (\<lambda>(l, f). Ready l f) (watchers c),
            c\<lparr>is_closed := True, getters := [], putters := [], watchers := []\<rparr>))"

definition chan_full :: "'a chan \<Rightarrow> bool" where
  "chan_full c \<longleftrightarrow> maxsize c > 0 \<and> length (buffer c) \<ge> maxsize c"

text \<open>The inner loop of \<open>try_send\<close> does not change the buffer: it wakes all putters or none.\<close>

definition raw_try_send :: "'a \<Rightarrow> 'a chan \<Rightarrow> (error + bool) \<times> 'a wake list \<times> 'a chan" where
  "raw_try_send x c =
     (if is_closed c then (Inl (RuntimeError ''Channel is closed''), [], c)
      else
        (case getters c of
           (l, f) # gs \<Rightarrow>
             (if maxsize c > 0 \<and> length (buffer c) < maxsize c then
                (Inr True, Give l f x # map (\<lambda>(l, f). Room l f) (putters c), c\<lparr>getters := gs, putters := []\<rparr>)
              else (Inr True, [Give l f x], c\<lparr>getters := gs\<rparr>))
         | [] \<Rightarrow>
             (case watchers c of
                (l, f) # ws \<Rightarrow> (Inr True, [Ready l f], c\<lparr>watchers := ws, buffer := buffer c @ [x]\<rparr>)
              | [] \<Rightarrow>
                  (if chan_full c then (Inr False, [], c)
                   else (Inr True, [], c\<lparr>buffer := buffer c @ [x]\<rparr>)))))"

definition pop_putter :: "'a chan \<Rightarrow> 'a wake list \<times> 'a chan" where
  "pop_putter c =
     (if maxsize c > 0 then (case putters c of (l, f) # ps \<Rightarrow> ([Room l f], c\<lparr>putters := ps\<rparr>) | [] \<Rightarrow> ([], c))
      else ([], c))"

text \<open>The result: an error, no item, or an item.\<close>

definition raw_try_recv :: "'a chan \<Rightarrow> (error + 'a option) \<times> 'a wake list \<times> 'a chan" where
  "raw_try_recv c =
     (case buffer c of
        x # xs \<Rightarrow> (let (ws, c) = pop_putter (c\<lparr>buffer := xs\<rparr>) in (Inr (Some x), ws, c))
      | [] \<Rightarrow> (if is_closed c then (Inl (RuntimeError ''Channel is closed''), [], c) else (Inr None, [], c)))"

definition register_getter :: "loop \<Rightarrow> evt \<Rightarrow> 'a chan \<Rightarrow> (error + 'a option) \<times> 'a wake list \<times> 'a chan" where
  "register_getter l f c =
     (case buffer c of
        x # xs \<Rightarrow>
          (if getters c = [] then (let (ws, c) = pop_putter (c\<lparr>buffer := xs\<rparr>) in (Inr (Some x), ws, c))
           else if is_closed c then (Inl (RuntimeError ''Channel is closed''), [], c)
           else (Inr None, [], c\<lparr>getters := getters c @ [(l, f)]\<rparr>))
      | [] \<Rightarrow>
          (if is_closed c then (Inl (RuntimeError ''Channel is closed''), [], c)
           else (Inr None, [], c\<lparr>getters := getters c @ [(l, f)]\<rparr>)))"

definition unregister_getter :: "evt \<Rightarrow> 'a chan \<Rightarrow> bool \<times> 'a wake list \<times> 'a chan" where
  "unregister_getter f c =
     (let gs = filter (\<lambda>g. snd g \<noteq> f) (getters c);
          removed = length gs \<noteq> length (getters c);
          c = c\<lparr>getters := gs\<rparr>
      in if \<not> removed \<and> buffer c \<noteq> [] then
           (case getters c of
              (l, g) # gs \<Rightarrow> (removed, [Give l g (hd (buffer c))], c\<lparr>getters := gs, buffer := List.tl (buffer c)\<rparr>)
            | [] \<Rightarrow>
                (case watchers c of
                   (l, g) # ws \<Rightarrow> (removed, [Ready l g], c\<lparr>watchers := ws\<rparr>)
                 | [] \<Rightarrow> (removed, [], c)))
         else (removed, [], c))"

definition register_putter :: "loop \<Rightarrow> evt \<Rightarrow> 'a chan \<Rightarrow> (error + bool) \<times> 'a chan" where
  "register_putter l f c =
     (if is_closed c then (Inl (RuntimeError ''Channel is closed''), c)
      else if putters c = [] \<and> room c then (Inr True, c)
      else (Inr False, c\<lparr>putters := putters c @ [(l, f)]\<rparr>))"

definition unregister_putter :: "evt \<Rightarrow> 'a chan \<Rightarrow> bool \<times> 'a wake list \<times> 'a chan" where
  "unregister_putter f c =
     (let ps = filter (\<lambda>p. snd p \<noteq> f) (putters c);
          removed = length ps \<noteq> length (putters c);
          c = c\<lparr>putters := ps\<rparr>
      in if \<not> removed \<and> room c then
           (case putters c of
              (l, g) # ps \<Rightarrow> (removed, [Room l g], c\<lparr>putters := ps\<rparr>)
            | [] \<Rightarrow> (removed, [], c))
         else (removed, [], c))"

definition register_watcher :: "loop \<Rightarrow> evt \<Rightarrow> 'a chan \<Rightarrow> bool \<times> 'a chan" where
  "register_watcher l f c =
     (if is_closed c \<and> buffer c = [] then (False, c)
      else if buffer c \<noteq> [] then (False, c)
      else (True, c\<lparr>watchers := watchers c @ [(l, f)]\<rparr>))"

definition unregister_watcher :: "evt \<Rightarrow> 'a chan \<Rightarrow> bool \<times> 'a chan" where
  "unregister_watcher f c =
     (let ws = filter (\<lambda>w. snd w \<noteq> f) (watchers c)
      in (length ws \<noteq> length (watchers c), c\<lparr>watchers := ws\<rparr>))"

definition forward_select :: "'a chan \<Rightarrow> 'a wake list \<times> 'a chan" where
  "forward_select c =
     (if buffer c \<noteq> [] \<and> getters c = [] then
        (case watchers c of (l, f) # ws \<Rightarrow> ([Ready l f], c\<lparr>watchers := ws\<rparr>) | [] \<Rightarrow> ([], c))
      else ([], c))"

section \<open>Futures and callbacks\<close>

text \<open>
  The state of each future, and the callbacks the loops have accepted; \<open>dispatch_wake\<close> ignores
  the \<open>RuntimeError\<close> of a closed loop.
\<close>

datatype 'a fut = Pending | Value 'a | Room_made | Closed_error | Ready_channel nat | Fut_cancelled

record 'a futs =
  fut :: "evt \<Rightarrow> 'a fut"
  posted :: "'a wake list"
  loops_closed :: "loop set"

fun wake_loop :: "'a wake \<Rightarrow> loop" where
  "wake_loop (Give l f x) = l" | "wake_loop (Room l f) = l" | "wake_loop (Fail l f) = l" | "wake_loop (Ready l f) = l"

definition dispatch :: "'a wake list \<Rightarrow> 'a futs \<Rightarrow> 'a futs" where
  "dispatch ws e = e\<lparr>posted := posted e @ filter (\<lambda>w. wake_loop w \<notin> loops_closed e) ws\<rparr>"

text \<open>
  \<open>Channel.try_send\<close>: an error becomes \<open>ChannelClosedError\<close>.
\<close>

definition try_send :: "'a \<Rightarrow> 'a chan \<times> 'a futs \<Rightarrow> (error + bool) \<times> 'a chan \<times> 'a futs" where
  "try_send x s =
     (let (r, ws, c) = raw_try_send x (fst s)
      in (case r of Inl e \<Rightarrow> Inl ChannelClosedError | Inr b \<Rightarrow> Inr b, c, dispatch ws (snd s)))"

definition try_recv :: "'a chan \<times> 'a futs \<Rightarrow> (error + 'a) \<times> 'a chan \<times> 'a futs" where
  "try_recv s =
     (let (r, ws, c) = raw_try_recv (fst s)
      in (case r of Inl e \<Rightarrow> Inl ChannelClosedError | Inr (Some x) \<Rightarrow> Inr x | Inr None \<Rightarrow> Inl WouldBlock,
          c, dispatch ws (snd s)))"

text \<open>
  \<open>_wake_fut\<close> and \<open>_select_wake\<close>, run by the loop: a future that is done already makes an item
  go back through \<open>try_send\<close>, whose outcome is ignored, and a watcher's wake-up go on to the next.
\<close>

definition set_fut :: "evt \<Rightarrow> 'a fut \<Rightarrow> 'a futs \<Rightarrow> 'a futs" where
  "set_fut f v e = e\<lparr>fut := (fut e)(f := v)\<rparr>"

fun run_wake :: "'a wake \<Rightarrow> 'a chan \<times> 'a futs \<Rightarrow> 'a chan \<times> 'a futs" where
  "run_wake (Give l f x) (c, e) =
     (if fut e f = Pending then (c, set_fut f (Value x) e)
      else if \<not> is_closed c then snd (try_send x (c, e)) else (c, e))"
| "run_wake (Room l f) (c, e) = (if fut e f = Pending then (c, set_fut f Room_made e) else (c, e))"
| "run_wake (Fail l f) (c, e) = (if fut e f = Pending then (c, set_fut f Closed_error e) else (c, e))"
| "run_wake (Ready l f) (c, e) =
     (if fut e f = Pending then (c, set_fut f (Ready_channel (token c)) e)
      else (let (ws, c) = forward_select c in (c, dispatch ws e)))"

section \<open>send and recv\<close>

text \<open>
  The stages of one turn of the loop of \<open>send\<close>, between which other threads use the channel:
  try; create and register a future; try again if the registration found room; await.
\<close>

datatype turn = Turn_over "error option" | Turn_try | Turn_register | Turn_retry evt | Turn_await evt

definition send_try :: "'a \<Rightarrow> 'a chan \<times> 'a futs \<Rightarrow> turn \<times> 'a chan \<times> 'a futs" where
  "send_try x s =
     (case try_send x s of
        (Inr True, s) \<Rightarrow> (Turn_over None, s)
      | (Inr False, s) \<Rightarrow> (Turn_register, s)
      | (Inl e, s) \<Rightarrow> (Turn_over (Some e), s))"

definition send_register :: "loop \<Rightarrow> evt \<Rightarrow> 'a chan \<times> 'a futs \<Rightarrow> turn \<times> 'a chan \<times> 'a futs" where
  "send_register l f s =
     (case register_putter l f (fst s) of
        (Inl e, c) \<Rightarrow> (Turn_over (Some ChannelClosedError), c, snd s)
      | (Inr True, c) \<Rightarrow> (Turn_retry f, c, snd s)
      | (Inr False, c) \<Rightarrow> (Turn_await f, c, snd s))"

definition send_retry :: "evt \<Rightarrow> 'a \<Rightarrow> 'a chan \<times> 'a futs \<Rightarrow> turn \<times> 'a chan \<times> 'a futs" where
  "send_retry f x s =
     (case try_send x s of
        (Inr True, s) \<Rightarrow> (Turn_over None, s)
      | (Inr False, s) \<Rightarrow> (Turn_await f, s)
      | (Inl e, s) \<Rightarrow> (Turn_over (Some e), s))"

text \<open>\<open>await fut\<close>: \<open>None\<close> while it is pending; a completed putter starts over.\<close>

definition send_await :: "evt \<Rightarrow> 'a futs \<Rightarrow> turn option" where
  "send_await f e =
     (case fut e f of
        Pending \<Rightarrow> None
      | Closed_error \<Rightarrow> Some (Turn_over (Some ChannelClosedError))
      | Fut_cancelled \<Rightarrow> Some (Turn_over (Some CancelledError))
      | _ \<Rightarrow> Some Turn_try)"

definition send_interrupted :: "evt \<Rightarrow> 'a chan \<times> 'a futs \<Rightarrow> 'a chan \<times> 'a futs" where
  "send_interrupted f s = (let (b, ws, c) = unregister_putter f (fst s) in (c, dispatch ws (snd s)))"

text \<open>\<open>_recv_impl\<close>: the same stages.\<close>

datatype 'a got = Got "error + 'a" | Got_register | Got_await evt

definition recv_try :: "'a chan \<times> 'a futs \<Rightarrow> 'a got \<times> 'a chan \<times> 'a futs" where
  "recv_try s =
     (let (r, ws, c) = raw_try_recv (fst s); s = (c, dispatch ws (snd s))
      in (case r of Inl e \<Rightarrow> Got (Inl ChannelClosedError) | Inr (Some x) \<Rightarrow> Got (Inr x) | Inr None \<Rightarrow> Got_register, s))"

definition recv_register :: "loop \<Rightarrow> evt \<Rightarrow> 'a chan \<times> 'a futs \<Rightarrow> 'a got \<times> 'a chan \<times> 'a futs" where
  "recv_register l f s =
     (let (r, ws, c) = register_getter l f (fst s); s = (c, dispatch ws (snd s))
      in (case r of Inl e \<Rightarrow> Got (Inl ChannelClosedError) | Inr (Some x) \<Rightarrow> Got (Inr x) | Inr None \<Rightarrow> Got_await f, s))"

definition recv_await :: "evt \<Rightarrow> 'a futs \<Rightarrow> (error + 'a) option" where
  "recv_await f e =
     (case fut e f of
        Value x \<Rightarrow> Some (Inr x)
      | Closed_error \<Rightarrow> Some (Inl ChannelClosedError)
      | Fut_cancelled \<Rightarrow> Some (Inl CancelledError)
      | _ \<Rightarrow> None)"

definition recv_interrupted :: "evt \<Rightarrow> 'a chan \<times> 'a futs \<Rightarrow> 'a chan \<times> 'a futs" where
  "recv_interrupted f s = (let (b, ws, c) = unregister_getter f (fst s) in (c, dispatch ws (snd s)))"

definition chan_close :: "'a chan \<times> 'a futs \<Rightarrow> 'a chan \<times> 'a futs" where
  "chan_close s = (let (ws, c) = raw_close (fst s) in (c, dispatch ws (snd s)))"

section \<open>Any sequence of operations\<close>

text \<open>
  What the operations of one channel do together: the items they accept and hand out, in
  order, and the futures they wake.
\<close>

datatype 'a operation = Op_send 'a | Op_recv | Op_get loop evt | Op_unget evt | Op_put loop evt | Op_unput evt
  | Op_watch loop evt | Op_unwatch evt | Op_forward | Op_close

record 'a effect =
  accepted :: "'a list"
  handed :: "'a list"
  woken :: "'a wake list"

definition given :: "'a wake list \<Rightarrow> 'a list" where
  "given ws = List.concat (map (\<lambda>w. case w of Give l f x \<Rightarrow> [x] | _ \<Rightarrow> []) ws)"

definition effect_of :: "'a list \<Rightarrow> 'a list \<Rightarrow> 'a wake list \<Rightarrow> 'a effect" where
  "effect_of i out ws = \<lparr>accepted = i, handed = out @ given ws, woken = ws\<rparr>"

definition taken :: "error + 'a option \<Rightarrow> 'a list" where
  "taken r = (case r of Inr (Some x) \<Rightarrow> [x] | _ \<Rightarrow> [])"

fun raw_op :: "'a operation \<Rightarrow> 'a chan \<Rightarrow> 'a effect \<times> 'a chan" where
  "raw_op (Op_send x) c = (let (r, ws, c) = raw_try_send x c in (effect_of (if r = Inr True then [x] else []) [] ws, c))"
| "raw_op Op_recv c = (let (r, ws, c) = raw_try_recv c in (effect_of [] (taken r) ws, c))"
| "raw_op (Op_get l f) c = (let (r, ws, c) = register_getter l f c in (effect_of [] (taken r) ws, c))"
| "raw_op (Op_unget f) c = (let (r, ws, c) = unregister_getter f c in (effect_of [] [] ws, c))"
| "raw_op (Op_put l f) c = (let (r, c) = register_putter l f c in (effect_of [] [] [], c))"
| "raw_op (Op_unput f) c = (let (r, ws, c) = unregister_putter f c in (effect_of [] [] ws, c))"
| "raw_op (Op_watch l f) c = (let (r, c) = register_watcher l f c in (effect_of [] [] [], c))"
| "raw_op (Op_unwatch f) c = (let (r, c) = unregister_watcher f c in (effect_of [] [] [], c))"
| "raw_op Op_forward c = (let (ws, c) = forward_select c in (effect_of [] [] ws, c))"
| "raw_op Op_close c = (let (ws, c) = raw_close c in (effect_of [] [] ws, c))"

fun raw_run :: "'a operation list \<Rightarrow> 'a chan \<Rightarrow> 'a effect \<times> 'a chan" where
  "raw_run [] c = (effect_of [] [] [], c)"
| "raw_run (x # xs) c =
     (let (d, c) = raw_op x c; (e, c) = raw_run xs c
      in (\<lparr>accepted = accepted d @ accepted e, handed = handed d @ handed e, woken = woken d @ woken e\<rparr>, c))"

lemma given_simps [simp]:
  "given [] = []" "given (Give l f x # ws) = x # given ws" "given (Room l f # ws) = given ws"
  "given (Fail l f # ws) = given ws" "given (Ready l f # ws) = given ws" "given (us @ ws) = given us @ given ws"
  by (simp_all add: given_def)

lemma given_map [simp]:
  "given (map (\<lambda>(l, f). Room l f) ps) = []" "given (map (\<lambda>(l, f). Fail l f) ps) = []"
  "given (map (\<lambda>(l, f). Ready l f) ps) = []"
  by (induction ps) auto

lemma effect_of_simps [simp]:
  "accepted (effect_of i out ws) = i" "handed (effect_of i out ws) = out @ given ws" "woken (effect_of i out ws) = ws"
  by (simp_all add: effect_of_def)

lemma pop_putter_simps:
  "given (fst (pop_putter c)) = []" "buffer (snd (pop_putter c)) = buffer c" "getters (snd (pop_putter c)) = getters c"
  by (auto simp: pop_putter_def split: list.splits)

definition getters_wait :: "'a chan \<Rightarrow> bool" where
  "getters_wait c \<longleftrightarrow> getters c = [] \<or> buffer c = []"

text \<open>One operation: a queue takes what it accepts at its end and hands out from its front.\<close>

lemma raw_op_fifo:
  assumes "getters_wait c" and "raw_op p c = (e, c')"
  shows "getters_wait c' \<and> buffer c @ accepted e = handed e @ buffer c'"
proof (cases p)
  case (Op_send x)
  then show ?thesis using assms
    by (auto simp: raw_try_send_def getters_wait_def split: if_splits list.splits)
next
  case Op_recv
  show ?thesis
  proof (cases "buffer c")
    case Nil
    then show ?thesis using assms Op_recv by (auto simp: raw_try_recv_def getters_wait_def taken_def split: if_splits)
  next
    case (Cons x xs)
    with Op_recv assms(2) have "c' = snd (pop_putter (c\<lparr>buffer := xs\<rparr>))"
      "e = effect_of [] [x] (fst (pop_putter (c\<lparr>buffer := xs\<rparr>)))"
      by (auto simp: raw_try_recv_def taken_def Let_def split: prod.splits)
    then show ?thesis using Cons assms(1) by (simp add: getters_wait_def pop_putter_simps)
  qed
next
  case (Op_get l f)
  show ?thesis
  proof (cases "buffer c \<noteq> [] \<and> getters c = []")
    case True
    then obtain x xs where b: "buffer c = x # xs" by (cases "buffer c") auto
    with True Op_get assms(2) have "c' = snd (pop_putter (c\<lparr>buffer := xs\<rparr>))"
      "e = effect_of [] [x] (fst (pop_putter (c\<lparr>buffer := xs\<rparr>)))"
      by (auto simp: register_getter_def taken_def Let_def split: prod.splits)
    then show ?thesis using b True by (simp add: getters_wait_def pop_putter_simps)
  next
    case False
    then show ?thesis using assms Op_get
      by (cases "buffer c") (auto simp: register_getter_def getters_wait_def taken_def split: if_splits)
  qed
next
  case (Op_unget f)
  have "filter (\<lambda>g. snd g \<noteq> f) (getters c) = [] \<or> buffer c = []"
    using assms(1) by (auto simp: getters_wait_def)
  then show ?thesis using assms Op_unget
    by (auto simp: unregister_getter_def getters_wait_def Let_def split: if_splits list.splits)
qed (use assms in \<open>auto simp: getters_wait_def register_putter_def unregister_putter_def register_watcher_def
    unregister_watcher_def forward_select_def raw_close_def Let_def split: if_splits list.splits\<close>)

lemma raw_run_fifo:
  "getters_wait c \<Longrightarrow> raw_run ops c = (e, c') \<Longrightarrow> getters_wait c' \<and> buffer c @ accepted e = handed e @ buffer c'"
proof (induction ops arbitrary: c e)
  case (Cons p ops)
  obtain d c1 where d: "raw_op p c = (d, c1)" by fastforce
  obtain e' where e': "raw_run ops c1 = (e', c')" using Cons.prems(2) d by (auto split: prod.splits)
  have e: "accepted e = accepted d @ accepted e'" "handed e = handed d @ handed e'"
    using Cons.prems(2) d e' by auto
  have 1: "getters_wait c1" "buffer c @ accepted d = handed d @ buffer c1"
    using raw_op_fifo [OF Cons.prems(1) d] by simp_all
  have 2: "getters_wait c'" "buffer c1 @ accepted e' = handed e' @ buffer c'"
    using Cons.IH [OF 1(1) e'] by simp_all
  have "buffer c @ accepted e = (buffer c @ accepted d) @ accepted e'" by (simp add: e)
  also have "\<dots> = handed d @ buffer c1 @ accepted e'" by (simp add: 1)
  also have "\<dots> = handed e @ buffer c'" by (simp add: 2 e)
  finally show ?case using 2 by simp
qed simp

text \<open>The futures a channel knows.\<close>

fun futures :: "(loop \<times> evt) list \<Rightarrow> evt set" where
  "futures [] = {}"
| "futures ((l, f) # ws) = insert f (futures ws)"

definition queued :: "'a chan \<Rightarrow> evt set" where
  "queued c = futures (getters c) \<union> futures (putters c) \<union> futures (watchers c)"

fun wake_fut :: "'a wake \<Rightarrow> evt" where
  "wake_fut (Give l f x) = f" | "wake_fut (Room l f) = f" | "wake_fut (Fail l f) = f" | "wake_fut (Ready l f) = f"

definition wakes :: "'a wake list \<Rightarrow> evt set" where
  "wakes ws = wake_fut ` set ws"

fun registers :: "'a operation \<Rightarrow> evt option" where
  "registers (Op_get l f) = Some f" | "registers (Op_put l f) = Some f" | "registers (Op_watch l f) = Some f"
| "registers _ = None"

lemma futures_append [simp]: "futures (us @ ws) = futures us \<union> futures ws"
  by (induction us rule: futures.induct) auto

lemma futures_filter: "g \<in> futures (filter P ws) \<Longrightarrow> g \<in> futures ws"
  by (induction ws rule: futures.induct) (auto split: if_splits)

lemma wakes_simps [simp]:
  "wakes [] = {}" "wakes (w # ws) = insert (wake_fut w) (wakes ws)" "wakes (us @ ws) = wakes us \<union> wakes ws"
  by (auto simp: wakes_def)

lemma wakes_map [simp]:
  "wakes (map (\<lambda>(l, f). Room l f) ps) = futures ps" "wakes (map (\<lambda>(l, f). Fail l f) ps) = futures ps"
  "wakes (map (\<lambda>(l, f). Ready l f) ps) = futures ps"
  by (induction ps) auto

lemma pop_putter_queued:
  "pop_putter c = (ws, c') \<Longrightarrow> g \<in> queued c' \<union> wakes ws \<Longrightarrow> g \<in> queued c"
  by (auto simp: pop_putter_def queued_def split: list.splits if_splits)

lemma queued_buffer [simp]: "queued (c\<lparr>buffer := b\<rparr>) = queued c"
  by (simp add: queued_def)

lemma raw_op_queued:
  assumes "raw_op p c = (e, c')" and "g \<in> queued c' \<union> wakes (woken e)"
  shows "g \<in> queued c \<or> registers p = Some g"
proof (cases p)
  case (Op_send x)
  then show ?thesis using assms
    by (auto simp: raw_try_send_def queued_def split: if_splits list.splits)
next
  case Op_recv
  then show ?thesis using assms pop_putter_queued [of "c\<lparr>buffer := List.tl (buffer c)\<rparr>"]
    by (auto simp: raw_try_recv_def Let_def split: list.splits if_splits prod.splits)
next
  case (Op_get l f)
  have "g \<in> queued (c\<lparr>getters := getters c @ [(l, f)]\<rparr>) \<Longrightarrow> g \<in> queued c \<or> g = f"
    by (auto simp: queued_def)
  then show ?thesis using Op_get assms pop_putter_queued [of "c\<lparr>buffer := List.tl (buffer c)\<rparr>"]
    by (auto simp: register_getter_def Let_def split: list.splits if_splits prod.splits)
next
  case (Op_unget f)
  have "futures (filter (\<lambda>g. snd g \<noteq> f) (getters c)) \<subseteq> futures (getters c)" using futures_filter by blast
  then show ?thesis using assms Op_unget
    by (auto simp: unregister_getter_def queued_def Let_def split: list.splits if_splits)
next
  case (Op_unput f)
  have "futures (filter (\<lambda>g. snd g \<noteq> f) (putters c)) \<subseteq> futures (putters c)" using futures_filter by blast
  then show ?thesis using assms Op_unput
    by (auto simp: unregister_putter_def queued_def Let_def split: list.splits if_splits)
qed (use assms in \<open>auto simp: queued_def register_putter_def register_watcher_def
    unregister_watcher_def forward_select_def raw_close_def Let_def split: if_splits list.splits dest: futures_filter\<close>)

lemma raw_run_queued:
  "raw_run ops c = (e, c') \<Longrightarrow> g \<notin> queued c \<Longrightarrow> (\<And>p. p \<in> set ops \<Longrightarrow> registers p \<noteq> Some g) \<Longrightarrow>
   g \<notin> queued c' \<and> g \<notin> wakes (woken e)"
proof (induction ops arbitrary: c e)
  case (Cons p ops)
  obtain d c1 where d: "raw_op p c = (d, c1)" by fastforce
  obtain e' where e': "raw_run ops c1 = (e', c')" using Cons.prems(1) d by (auto split: prod.splits)
  have w: "woken e = woken d @ woken e'" using Cons.prems(1) d e' by auto
  have "registers p \<noteq> Some g" using Cons.prems(3) [of p] by simp
  then have 1: "g \<notin> queued c1" "g \<notin> wakes (woken d)"
    using raw_op_queued [OF d, of g] Cons.prems(2) by blast+
  then show ?case using Cons.IH [OF e'] Cons.prems(3) w by auto
qed simp

text \<open>The most a buffer can hold.\<close>

fun watches :: "'a operation \<Rightarrow> bool" where
  "watches (Op_watch l f) = True" | "watches _ = False"

lemma pop_putter_keeps:
  "pop_putter c = (ws, c') \<Longrightarrow> buffer c' = buffer c \<and> watchers c' = watchers c \<and> maxsize c' = maxsize c"
  by (auto simp: pop_putter_def split: list.splits if_splits)

definition held :: "'a chan \<Rightarrow> nat" where
  "held c = length (buffer c) + length (watchers c)"

lemma raw_op_held:
  assumes "raw_op p c = (e, c')" and "maxsize c > 0" and "held c \<le> maxsize c + k"
  shows "maxsize c' = maxsize c \<and> held c' \<le> maxsize c + (if watches p then Suc k else k)"
proof (cases p)
  case (Op_send x)
  then show ?thesis using assms
    by (auto simp: raw_try_send_def held_def chan_full_def split: if_splits list.splits)
next
  case Op_recv
  then show ?thesis using assms
    by (auto simp: raw_try_recv_def held_def Let_def split: list.splits if_splits prod.splits dest!: pop_putter_keeps)
next
  case (Op_get l f)
  then show ?thesis using assms
    by (auto simp: register_getter_def held_def Let_def split: list.splits if_splits prod.splits dest!: pop_putter_keeps)
next
  case (Op_unget f)
  then show ?thesis using assms
    by (auto simp: unregister_getter_def held_def Let_def split: list.splits if_splits)
next
  case (Op_unwatch f)
  have "length (filter (\<lambda>w. snd w \<noteq> f) (watchers c)) \<le> length (watchers c)" by (rule length_filter_le)
  with assms Op_unwatch show ?thesis by (auto simp: unregister_watcher_def held_def Let_def intro: le_trans [rotated])
qed (use assms in \<open>auto simp: held_def register_putter_def unregister_putter_def register_watcher_def
    forward_select_def raw_close_def Let_def split: if_splits list.splits\<close>)

lemma raw_run_held:
  "raw_run ops c = (e, c') \<Longrightarrow> maxsize c > 0 \<Longrightarrow> held c \<le> maxsize c + k \<Longrightarrow>
   held c' \<le> maxsize c + k + length (filter watches ops)"
proof (induction ops arbitrary: c e k)
  case (Cons p ops)
  obtain d c1 where d: "raw_op p c = (d, c1)" by fastforce
  obtain e' where e': "raw_run ops c1 = (e', c')" using Cons.prems(1) d by (auto split: prod.splits)
  from raw_op_held [OF d Cons.prems(2,3)]
  have 1: "maxsize c1 = maxsize c" "held c1 \<le> maxsize c1 + (if watches p then Suc k else k)" by simp_all
  show ?case using Cons.IH [OF e' _ 1(2)] 1(1) Cons.prems(2) by (simp split: if_splits)
qed simp

section \<open>Properties\<close>

text \<open>
  C17: A channel is a FIFO queue: whatever operations are called in whatever order by whatever
  threads, the items handed out (returned by \<open>try_recv\<close> or a registration, or given to a
  waiting receiver), followed by the buffer, are the accepted ones in order; and no receiver
  waits while there is an item.
\<close>

theorem chan_fifo:
  assumes "raw_run ops (chan_new k n) = (e, c)"
  shows "accepted e = handed e @ buffer c \<and> (getters c = [] \<or> buffer c = [])"
  using raw_run_fifo [OF _ assms] by (simp add: chan_new_def getters_wait_def)

definition chan_ops :: "nat operation list" where
  "chan_ops = [Op_send 1, Op_send 2, Op_put 0 5, Op_recv, Op_send 3, Op_recv, Op_recv, Op_get 0 6, Op_get 1 7, Op_send 4]"

lemma chan_ops_run:
  "raw_run chan_ops (chan_new 0 1) =
     (\<lparr>accepted = [1, 3, 4], handed = [1, 3, 4], woken = [Room 0 5, Give 0 6 4]\<rparr>,
      (chan_new 0 1)\<lparr>getters := [(1, 7)]\<rparr>)"
  by (simp add: chan_ops_def chan_new_def raw_try_send_def raw_try_recv_def register_getter_def register_putter_def
      pop_putter_def chan_full_def room_def effect_of_def taken_def)

theorem chan_fifo_witness:
  "\<exists>e c. raw_run chan_ops (chan_new 0 1) = (e, c) \<and> accepted e = handed e @ buffer c \<and> (getters c = [] \<or> buffer c = [])"
  using chan_fifo [OF chan_ops_run] chan_ops_run by blast

text \<open>
  The buffer of a bounded channel holds at most \<open>maxsize\<close> items and one more for every
  registration of a select watcher.
\<close>

theorem chan_capacity:
  assumes "raw_run ops (chan_new k n) = (e, c)" and "n > 0"
  shows "length (buffer c) \<le> nat n + length (filter watches ops)"
proof -
  have "held c \<le> maxsize (chan_new k n) + 0 + length (filter watches ops)"
    using raw_run_held [OF assms(1), of 0] assms(2) by (simp add: chan_new_def held_def)
  then show ?thesis by (simp add: held_def chan_new_def)
qed

theorem chan_capacity_witness:
  "length (buffer ((chan_new 0 1)\<lparr>getters := [(1, 7)]\<rparr> :: nat chan)) \<le> nat 1 + length (filter watches chan_ops)"
  using chan_capacity [OF chan_ops_run] by simp

lemma run_watches:
  "buffer c = [] \<Longrightarrow> \<not> is_closed c \<Longrightarrow>
   accepted (fst (raw_run (map (Op_watch l) fs @ ops) c)) =
     accepted (fst (raw_run ops (c\<lparr>watchers := watchers c @ map (Pair l) fs\<rparr>))) \<and>
   snd (raw_run (map (Op_watch l) fs @ ops) c) = snd (raw_run ops (c\<lparr>watchers := watchers c @ map (Pair l) fs\<rparr>))"
  by (induction fs arbitrary: c) (simp_all add: register_watcher_def case_prod_beta)

lemma run_sends:
  "\<not> is_closed c \<Longrightarrow> getters c = [] \<Longrightarrow> length (watchers c) = length xs \<Longrightarrow>
   accepted (fst (raw_run (map Op_send xs) c)) = xs \<and> buffer (snd (raw_run (map Op_send xs) c)) = buffer c @ xs"
proof (induction xs arbitrary: c)
  case (Cons x xs)
  obtain w ws where w: "watchers c = w # ws" using Cons.prems(3) by (cases "watchers c") auto
  let ?c = "c\<lparr>watchers := ws, buffer := buffer c @ [x]\<rparr>"
  have "raw_op (Op_send x) c = (effect_of [x] [] [Ready (fst w) (snd w)], ?c)"
    using Cons.prems w by (simp add: raw_try_send_def case_prod_beta)
  then show ?case using Cons.IH [of ?c] Cons.prems w by (simp add: case_prod_beta del: raw_op.simps)
qed simp

text \<open>
  The capacity is exceeded in fact: while \<open>m\<close> select watchers are registered, \<open>m\<close> calls of
  \<open>try_send\<close> succeed and leave \<open>m\<close> items in the buffer, whatever the capacity.
\<close>

theorem chan_overflow:
  assumes "raw_run (map (Op_watch l) fs @ map Op_send xs) (chan_new k n) = (e, c)" and "length fs = length xs"
  shows "accepted e = xs \<and> buffer c = xs"
  using run_watches [of "chan_new k n" l fs "map Op_send xs"]
    run_sends [of "(chan_new k n)\<lparr>watchers := map (Pair l) fs\<rparr>" xs] assms
  by (simp add: chan_new_def)

theorem chan_overflow_witness:
  "\<exists>c. snd (raw_run [Op_watch 0 1, Op_watch 0 2, Op_send True, Op_send False] (chan_new 0 1)) = c \<and>
     buffer c = [True, False] \<and> maxsize c = 1"
proof -
  obtain e c where r: "raw_run (map (Op_watch 0) [1, 2] @ map Op_send [True, False]) (chan_new 0 1) = (e, c)" by fastforce
  from chan_overflow [OF this] have "buffer c = [True, False]" by simp
  moreover have "maxsize c = 1"
    using r by (auto simp: register_watcher_def raw_try_send_def chan_new_def)
  ultimately show ?thesis using r by simp
qed

text \<open>
  C38: An item given to a receiver whose future is done already (cancelled, timed out) goes to
  the end of the queue, behind later items; it is dropped when the channel is full or closed,
  or when the loop of the receiver is closed; and a receiver that is cancelled after its future
  got the item leaves a channel that has the item nowhere.
\<close>

theorem chan_item_lost:
  assumes "fut e f \<noteq> Pending" and "getters c = []" and "watchers c = []" and "putters c = []"
  shows "run_wake (Give l f x) (c, e) =
      (if is_closed c \<or> chan_full c then (c, e) else (c\<lparr>buffer := buffer c @ [x]\<rparr>, e)) \<and>
    dispatch [Give h f x] (e\<lparr>loops_closed := insert h H\<rparr>) = e\<lparr>loops_closed := insert h H\<rparr> \<and>
    recv_interrupted f (c, set_fut f (Value x) e) = (c, set_fut f (Value x) e)"
  using assms by (auto simp: try_send_def raw_try_send_def dispatch_def recv_interrupted_def unregister_getter_def
      Let_def)

definition fut_cancelled :: "nat futs" where
  "fut_cancelled = \<lparr>fut = (\<lambda>f. if f = 7 then Fut_cancelled else Pending), posted = [], loops_closed = {}\<rparr>"

definition chan_one :: "nat chan" where
  "chan_one = (chan_new 0 1)\<lparr>buffer := [5]\<rparr>"

theorem chan_item_lost_witness: "run_wake (Give 0 7 3) (chan_one, fut_cancelled) = (chan_one, fut_cancelled)"
  using chan_item_lost [of fut_cancelled 7 chan_one 0 3 0 "{}"]
  by (simp add: fut_cancelled_def chan_one_def chan_new_def chan_full_def)

text \<open>
  A sender can wait for ever on a channel with room: another sender fills the last place
  between its registration, which found room and so did not register its future, and its
  second try; after that, whatever operations follow without registering that future, nothing
  wakes it.
\<close>

theorem sender_lost:
  assumes "\<not> is_closed c" and "putters c = []" and "getters c = []" and "watchers c = []"
    and "maxsize c = Suc (length (buffer c))" and "posted e = []" and "fut e f = Pending"
  shows "send_register l f (c, e) = (Turn_retry f, c, e) \<and>
    (\<exists>c1. try_send y (c, e) = (Inr True, c1, e) \<and> send_retry f x (c1, e) = (Turn_await f, c1, e) \<and>
      send_await f e = None \<and>
      (\<forall>ops d c2. raw_run ops c1 = (d, c2) \<and> (\<forall>p \<in> set ops. registers p \<noteq> Some f) \<longrightarrow> f \<notin> wakes (woken d)))"
proof -
  have "f \<notin> queued c" using assms by (simp add: queued_def)
  let ?c = "c\<lparr>buffer := buffer c @ [y]\<rparr>"
  have 0: "send_register l f (c, e) = (Turn_retry f, c, e)" "send_await f e = None"
    using assms by (simp_all add: send_register_def register_putter_def room_def send_await_def)
  have 1: "try_send y (c, e) = (Inr True, ?c, e)"
    using assms by (simp add: try_send_def raw_try_send_def chan_full_def dispatch_def)
  have 2: "send_retry f x (?c, e) = (Turn_await f, ?c, e)"
    using assms by (simp add: send_retry_def try_send_def raw_try_send_def chan_full_def dispatch_def)
  have 3: "\<forall>ops d c2. raw_run ops ?c = (d, c2) \<and> (\<forall>p \<in> set ops. registers p \<noteq> Some f) \<longrightarrow> f \<notin> wakes (woken d)"
  proof (intro allI impI, elim conjE)
    fix ops d c2
    assume "raw_run ops ?c = (d, c2)" "\<forall>p \<in> set ops. registers p \<noteq> Some f"
    then show "f \<notin> wakes (woken d)" using raw_run_queued [of ops ?c d c2 f] \<open>f \<notin> queued c\<close> by simp
  qed
  from 0 1 2 3 show ?thesis by blast
qed

theorem sender_lost_witness:
  "\<exists>c1. send_retry 7 2 (c1, fut_cancelled\<lparr>fut := \<lambda>f. Pending\<rparr>) = (Turn_await 7, c1, fut_cancelled\<lparr>fut := \<lambda>f. Pending\<rparr>) \<and>
     7 \<notin> wakes (woken (fst (raw_run [Op_recv, Op_recv, Op_close] c1)))"
proof -
  let ?e = "fut_cancelled\<lparr>fut := \<lambda>f. Pending\<rparr>"
  have h: "\<not> is_closed (chan_new 0 1 :: nat chan)" "putters (chan_new 0 1 :: nat chan) = []"
    "getters (chan_new 0 1 :: nat chan) = []" "watchers (chan_new 0 1 :: nat chan) = []"
    "maxsize (chan_new 0 1 :: nat chan) = Suc (length (buffer (chan_new 0 1 :: nat chan)))"
    "posted ?e = []" "fut ?e 7 = Pending"
    by (simp_all add: chan_new_def fut_cancelled_def)
  from sender_lost [OF h, of 0 1 2] obtain c1 where c1: "send_retry 7 2 (c1, ?e) = (Turn_await 7, c1, ?e)"
    and w: "\<forall>ops d c2. raw_run ops c1 = (d, c2) \<and> (\<forall>p \<in> set ops. registers p \<noteq> Some 7) \<longrightarrow> 7 \<notin> wakes (woken d)"
    by blast
  have "7 \<notin> wakes (woken (fst (raw_run [Op_recv, Op_recv, Op_close] c1)))"
    using w [rule_format, of "[Op_recv, Op_recv, Op_close]", OF conjI [OF surjective_pairing]] by simp
  with c1 show ?thesis by blast
qed

end
