(* ===== verification/Selects.thy ===== *)
theory Selects
  imports Channels
begin

text \<open>
  \<open>select_channel\<close> of \<open>primitives.py\<close>, one access to a channel per step, so that other threads
  use the channels between any two steps.  Proved: a call takes one item from one channel or
  none at all, and when it is over no channel knows its future.
\<close>

section \<open>The code\<close>

text \<open>
  The outcome of a call, and its stages: the probe of the channels in rotated order, the
  default, the check for closed channels and the deadline, the registration, the wait, and the
  \<open>finally\<close> that unregisters.  A stage that leaves without an outcome starts over.
\<close>

datatype 'a outcome = Selected nat 'a | Default | Select_error error

datatype 'a stage = Sel_begin | Sel_probe "nat list" | Sel_check | Sel_register evt "nat list" "nat list"
  | Sel_closed evt "nat list" | Sel_await evt "nat list" | Sel_receive evt "nat list" nat
  | Sel_leave evt "nat list" "'a outcome option" | Sel_over "'a outcome"

type_synonym 'a channels = "(nat \<Rightarrow> 'a chan) \<times> 'a futs"

text \<open>
  What the environment supplies to a step: the rotation (from the clock and the loop), whether
  the deadline has passed, the future \<open>create_future\<close> returns, and an exception \<open>await\<close> raises
  (the timeout of \<open>wait_for\<close>, a cancellation).
\<close>

record tick =
  start_idx :: nat
  expired :: bool
  fresh :: evt
  raised :: "error option"

definition rotation :: "nat \<Rightarrow> nat \<Rightarrow> nat list" where
  "rotation start n = map (\<lambda>i. (start + i) mod n) [0..<n]"

definition at_channel :: "nat \<Rightarrow> ('a chan \<times> 'a futs \<Rightarrow> 'r \<times> 'a chan \<times> 'a futs) \<Rightarrow> 'a channels \<Rightarrow> 'r \<times> 'a channels" where
  "at_channel i f s = (let (r, c, e) = f (fst s i, snd s) in (r, (fst s)(i := c), e))"

definition drained :: "nat \<Rightarrow> 'a channels \<Rightarrow> bool" where
  "drained n s \<longleftrightarrow> list_all (\<lambda>i. is_closed (fst s i) \<and> buffer (fst s i) = []) [0..<n]"

definition sel_timeout :: error where
  "sel_timeout = TimeoutError ''select_channel timed out''"

definition sel_raised :: "error \<Rightarrow> error" where
  "sel_raised e = (case e of TimeoutError _ \<Rightarrow> sel_timeout | _ \<Rightarrow> e)"

text \<open>\<open>except (ChannelClosedError, WouldBlock)\<close> covers all that \<open>try_recv\<close> raises.\<close>

fun sel_step :: "loop \<Rightarrow> nat \<Rightarrow> bool \<Rightarrow> tick \<Rightarrow> 'a stage \<Rightarrow> 'a channels \<Rightarrow> 'a stage \<times> 'a channels" where
  "sel_step l n dflt t Sel_begin s = (if n = 0 then Sel_over (Select_error (ValueError ''select_channel requires at least one channel'')) else Sel_probe (rotation (start_idx t) n), s)"
| "sel_step l n dflt t (Sel_probe []) s = (if dflt then Sel_over Default else Sel_check, s)"
| "sel_step l n dflt t (Sel_probe (i # js)) s =
     (case at_channel i try_recv s of
        (Inr x, s) \<Rightarrow> (Sel_over (Selected i x), s)
      | (Inl _, s) \<Rightarrow> (Sel_probe js, s))"
| "sel_step l n dflt t Sel_check s =
     (if drained n s then Sel_over (Select_error ChannelClosedError)
      else if expired t then Sel_over (Select_error sel_timeout)
      else Sel_register (fresh t) (rotation (start_idx t) n) [], s)"
| "sel_step l n dflt t (Sel_register f [] regs) s = (Sel_closed f regs, s)"
| "sel_step l n dflt t (Sel_register f (i # js) regs) s =
     (case at_channel i (\<lambda>(c, e). let (b, c) = register_watcher l f c in (b, c, e)) s of
        (True, s) \<Rightarrow> (Sel_register f js (regs @ [i]), s)
      | (False, s) \<Rightarrow>
          (if fut (snd s) f = Pending then
             (case at_channel i try_recv s of
                (Inr x, s) \<Rightarrow> (Sel_leave f regs (Some (Selected i x)), s)
              | (Inl _, s) \<Rightarrow> (Sel_register f js regs, s))
           else (Sel_register f js regs, s)))"
| "sel_step l n dflt t (Sel_closed f regs) s =
     (if drained n s then Sel_leave f regs (Some (Select_error ChannelClosedError)) else Sel_await f regs, s)"
| "sel_step l n dflt t (Sel_await f regs) s =
     (case raised t of
        Some e \<Rightarrow> (Sel_leave f regs (Some (Select_error (sel_raised e))), s)
      | None \<Rightarrow> (case fut (snd s) f of Ready_channel i \<Rightarrow> (Sel_receive f regs i, s) | _ \<Rightarrow> (Sel_await f regs, s)))"
| "sel_step l n dflt t (Sel_receive f regs i) s =
     (case at_channel i try_recv s of
        (Inr x, s) \<Rightarrow> (Sel_leave f regs (Some (Selected i x)), s)
      | (Inl _, s) \<Rightarrow> (Sel_leave f regs None, s))"
| "sel_step l n dflt t (Sel_leave f [] r) s = (case r of Some r \<Rightarrow> Sel_over r | None \<Rightarrow> Sel_begin, s)"
| "sel_step l n dflt t (Sel_leave f (i # js) r) s =
     (Sel_leave f js r, (fst s)(i := snd (unregister_watcher f (fst s i))), snd s)"
| "sel_step l n dflt t (Sel_over r) s = (Sel_over r, s)"

text \<open>A call among other threads: they use the channels and complete futures as they like.\<close>

datatype 'a happening = Mine tick | Theirs nat "'a operation" | Completes evt "'a fut"

fun sel_run :: "loop \<Rightarrow> nat \<Rightarrow> bool \<Rightarrow> 'a happening list \<Rightarrow> 'a stage \<times> 'a channels \<Rightarrow> 'a stage \<times> 'a channels" where
  "sel_run l n dflt [] q = q"
| "sel_run l n dflt (Mine t # hs) (st, s) = sel_run l n dflt hs (sel_step l n dflt t st s)"
| "sel_run l n dflt (Theirs i p # hs) (st, s) = sel_run l n dflt hs (st, (fst s)(i := snd (raw_op p (fst s i))), snd s)"
| "sel_run l n dflt (Completes f v # hs) (st, s) = sel_run l n dflt hs (st, fst s, set_fut f v (snd s))"

section \<open>Which channels know the future\<close>

fun at_hand :: "'a stage \<Rightarrow> (evt \<times> nat) set" where
  "at_hand (Sel_register f js regs) = {(g, i). g = f \<and> i \<in> set regs}" | "at_hand (Sel_closed f regs) = {(g, i). g = f \<and> i \<in> set regs}"
| "at_hand (Sel_await f regs) = {(g, i). g = f \<and> i \<in> set regs}" | "at_hand (Sel_receive f regs j) = {(g, i). g = f \<and> i \<in> set regs}"
| "at_hand (Sel_leave f regs r) = {(g, i). g = f \<and> i \<in> set regs}" | "at_hand _ = {}"

definition lined :: "'a chan \<Rightarrow> evt set" where
  "lined c = futures (getters c) \<union> futures (putters c)"

definition tidy :: "evt set \<Rightarrow> 'a stage \<Rightarrow> 'a channels \<Rightarrow> bool" where
  "tidy F st s \<longleftrightarrow> (\<forall>f \<in> F. \<forall>i. f \<notin> lined (fst s i) \<and> (f \<in> futures (watchers (fst s i)) \<longrightarrow> (f, i) \<in> at_hand st))"

lemma queued_lined: "queued c = lined c \<union> futures (watchers c)"
  by (simp add: queued_def lined_def)

lemma futures_filter_Cons: "filter P ws = (a, b) # us \<Longrightarrow> g \<in> futures us \<Longrightarrow> g \<in> futures ws"
  using futures_filter [of g P ws] by simp

lemma raw_op_lined:
  assumes "raw_op p c = (e, c')" and "g \<in> lined c'" and "registers p \<noteq> Some g"
  shows "g \<in> lined c"
  using assms
  by (cases p) (auto simp: lined_def raw_try_send_def raw_try_recv_def register_getter_def unregister_getter_def
      register_putter_def unregister_putter_def register_watcher_def unregister_watcher_def forward_select_def
      raw_close_def pop_putter_def Let_def split: if_splits list.splits prod.splits dest: futures_filter futures_filter_Cons)

lemma try_recv_queues:
  "try_recv (c, e) = (r, c', e') \<Longrightarrow> lined c' \<subseteq> lined c \<and> watchers c' = watchers c \<and>
     (case r of Inr x \<Rightarrow> buffer c = x # buffer c' | Inl _ \<Rightarrow> buffer c' = buffer c)"
  by (auto simp: try_recv_def raw_try_recv_def pop_putter_def lined_def Let_def
      split: if_splits list.splits prod.splits option.splits)

lemma unwatched [simp]: "f \<notin> futures (filter (\<lambda>w. snd w \<noteq> f) ws)"
  by (induction ws rule: futures.induct) auto

lemma register_watcher_queues:
  "register_watcher l f c = (b, c') \<Longrightarrow> lined c' = lined c \<and> buffer c' = buffer c \<and>
     futures (watchers c') = (if b then insert f (futures (watchers c)) else futures (watchers c))"
  by (auto simp: register_watcher_def lined_def split: if_splits)

lemma unregister_watcher_queues:
  "lined (snd (unregister_watcher f c)) = lined c" "buffer (snd (unregister_watcher f c)) = buffer c"
  "g \<in> futures (watchers (snd (unregister_watcher f c))) \<Longrightarrow> g \<in> futures (watchers c) \<and> g \<noteq> f"
  by (auto simp: unregister_watcher_def lined_def Let_def dest: futures_filter)

lemma tidy_mono:
  assumes "tidy F st s" and "\<And>i. lined (fst s' i) \<subseteq> lined (fst s i)"
    and "\<And>i. futures (watchers (fst s' i)) \<subseteq> futures (watchers (fst s i))" and "at_hand st \<subseteq> at_hand st'"
  shows "tidy F st' s'"
  using assms unfolding tidy_def by blast

text \<open>One access to one channel, and what follows for the call.\<close>

lemma at_channel_recv:
  assumes "at_channel i try_recv s = (r, s')" and "tidy F st s" and "at_hand st \<subseteq> at_hand st'"
  shows "tidy F st' s'"
proof (rule tidy_mono [OF assms(2) _ _ assms(3)])
  fix j
  obtain c e where c: "try_recv (fst s i, snd s) = (r, c, e)" "s' = ((fst s)(i := c), e)"
    using assms(1) by (auto simp: at_channel_def split: prod.splits)
  show "lined (fst s' j) \<subseteq> lined (fst s j)" "futures (watchers (fst s' j)) \<subseteq> futures (watchers (fst s j))"
    using try_recv_queues [OF c(1)] c(2) by auto
qed

lemma at_channel_cases:
  obtains (item) x s' where "at_channel i try_recv s = (Inr x, s')" | (none) e s' where "at_channel i try_recv s = (Inl e, s')"
proof -
  let ?q = "at_channel i try_recv s"
  show thesis using item [of _ "snd ?q"] none [of _ "snd ?q"] by (cases "fst ?q") (simp_all add: prod_eq_iff)
qed

lemma probe_tidy:
  "tidy F (Sel_probe (i # js)) s \<Longrightarrow> sel_step l n d t (Sel_probe (i # js)) s = (st', s') \<Longrightarrow> tidy F st' s'"
  by (cases rule: at_channel_cases [of i s]) (auto intro: at_channel_recv)

lemma receive_tidy:
  "tidy F (Sel_receive f regs i) s \<Longrightarrow> sel_step l n d t (Sel_receive f regs i) s = (st', s') \<Longrightarrow> tidy F st' s'"
  by (cases rule: at_channel_cases [of i s]) (auto intro: at_channel_recv)

lemma register_tidy:
  assumes "tidy F (Sel_register f (i # js) regs) s" and "sel_step l n d t (Sel_register f (i # js) regs) s = (st', s')"
  shows "tidy F st' s'"
proof (cases "register_watcher l f (fst s i)")
  case (Pair b c)
  note q = register_watcher_queues [OF Pair]
  let ?s = "((fst s)(i := c), snd s)"
  have a: "at_channel i (\<lambda>(c, e). let (b, c) = register_watcher l f c in (b, c, e)) s = (b, ?s)"
    using Pair by (simp add: at_channel_def)
  show ?thesis
  proof (cases b)
    case True
    with assms(2) a have "st' = Sel_register f js (regs @ [i])" "s' = ?s" by auto
    then show ?thesis using assms(1) q True by (auto simp: tidy_def)
  next
    case False
    have 1: "tidy F (Sel_register f (i # js) regs) ?s" using assms(1) q False by (auto simp: tidy_def)
    have 2: "tidy F (Sel_register f js regs) ?s" by (rule tidy_mono [OF 1]) simp_all
    show ?thesis
    proof (cases "fut (snd s) f = Pending")
      case True
      then show ?thesis using assms(2) a False 1
        by (cases rule: at_channel_cases [of i ?s]) (auto intro: at_channel_recv)
    qed (use assms(2) a False 2 in auto)
  qed
qed

lemma leave_tidy:
  assumes "tidy F (Sel_leave f (i # js) r) s" and "sel_step l n d t (Sel_leave f (i # js) r) s = (st', s')"
  shows "tidy F st' s'"
  unfolding tidy_def
proof (intro ballI allI)
  fix g k
  assume "g \<in> F"
  with assms(1) have g: "g \<notin> lined (fst s k)" "g \<in> futures (watchers (fst s k)) \<Longrightarrow> g = f \<and> (k = i \<or> k \<in> set js)"
    by (auto simp: tidy_def)
  have "st' = Sel_leave f js r" "fst s' = (fst s)(i := snd (unregister_watcher f (fst s i)))" using assms(2) by auto
  with g show "g \<notin> lined (fst s' k) \<and> (g \<in> futures (watchers (fst s' k)) \<longrightarrow> (g, k) \<in> at_hand st')"
    using unregister_watcher_queues(1) [of f "fst s i"] unregister_watcher_queues(3) [of g f "fst s i"]
    by (cases "k = i") auto
qed

lemma sel_step_tidy:
  assumes "tidy F st s" and "sel_step l n d t st s = (st', s')"
  shows "tidy F st' s'"
proof (cases st)
  case (Sel_probe js)
  show ?thesis
  proof (cases js)
    case (Cons i js')
    then show ?thesis using assms probe_tidy Sel_probe by blast
  qed (use assms Sel_probe in \<open>auto simp: tidy_def split: if_splits\<close>)
next
  case (Sel_register f js regs)
  show ?thesis
  proof (cases js)
    case (Cons i js')
    then show ?thesis using assms register_tidy Sel_register by blast
  qed (use assms Sel_register in \<open>auto simp: tidy_def\<close>)
next
  case (Sel_receive f regs i)
  then show ?thesis using assms receive_tidy by blast
next
  case (Sel_leave f js r)
  show ?thesis
  proof (cases js)
    case (Cons i js')
    then show ?thesis using assms leave_tidy Sel_leave by blast
  qed (use assms Sel_leave in \<open>auto simp: tidy_def split: option.splits\<close>)
qed (use assms in \<open>auto simp: tidy_def split: if_splits option.splits fut.splits\<close>)

text \<open>The others' operations register futures of their own.\<close>

definition stranger :: "evt set \<Rightarrow> 'a happening \<Rightarrow> bool" where
  "stranger F h \<longleftrightarrow> (case h of Theirs i p \<Rightarrow> (case registers p of Some g \<Rightarrow> g \<notin> F | None \<Rightarrow> True) | _ \<Rightarrow> True)"

lemma their_step_tidy:
  assumes t: "tidy F st s" and o: "stranger F (Theirs i p)"
  shows "tidy F st ((fst s)(i := snd (raw_op p (fst s i))), e)"
proof -
  have r: "raw_op p (fst s i) = (fst (raw_op p (fst s i)), snd (raw_op p (fst s i)))" by simp
  have n: "registers p \<noteq> Some g" if "g \<in> F" for g using o that by (auto simp: stranger_def)
  have 1: "g \<notin> lined (snd (raw_op p (fst s i)))" if "g \<in> F" for g
    using raw_op_lined [OF r, of g] n [OF that] t that unfolding tidy_def by blast
  have 2: "g \<in> futures (watchers (fst s i))" if "g \<in> F" "g \<in> futures (watchers (snd (raw_op p (fst s i))))" for g
    using raw_op_queued [OF r, of g] n [OF that(1)] t that unfolding tidy_def queued_lined by blast
  from t 1 2 show ?thesis unfolding tidy_def by simp
qed

lemma sel_run_tidy:
  "tidy F (fst q) (snd q) \<Longrightarrow> list_all (stranger F) hs \<Longrightarrow> sel_run l n d hs q = (st', s') \<Longrightarrow> tidy F st' s'"
proof (induction l n d hs q rule: sel_run.induct)
  case (2 l n d t hs st s)
  obtain st1 s1 where s: "sel_step l n d t st s = (st1, s1)" by (cases "sel_step l n d t st s")
  show ?case using 2(1) [unfolded s] sel_step_tidy [OF _ s, of F] 2(2-) s by simp
next
  case (3 l n d i p hs st s)
  show ?case using 3(1) their_step_tidy [of F st s i p "snd s"] 3(2-) by simp
next
  case (4 l n d f v hs st s)
  then show ?case by (simp add: tidy_def)
qed simp

section \<open>What a step takes out\<close>

fun sel_item :: "'a stage \<Rightarrow> (nat \<times> 'a) list" where
  "sel_item (Sel_over (Selected i x)) = [(i, x)]"
| "sel_item (Sel_leave f regs (Some (Selected i x))) = [(i, x)]"
| "sel_item _ = []"

definition same_items :: "'a channels \<Rightarrow> 'a channels \<Rightarrow> bool" where
  "same_items s s' \<longleftrightarrow> (\<forall>j. buffer (fst s' j) = buffer (fst s j))"

definition takes_item :: "'a channels \<Rightarrow> nat \<Rightarrow> 'a \<Rightarrow> 'a channels \<Rightarrow> bool" where
  "takes_item s i x s' \<longleftrightarrow> buffer (fst s i) = x # buffer (fst s' i) \<and> (\<forall>j. j \<noteq> i \<longrightarrow> buffer (fst s' j) = buffer (fst s j))"

lemma at_channel_items:
  "at_channel i try_recv s = (Inr x, s') \<Longrightarrow> takes_item s i x s'"
  "at_channel i try_recv s = (Inl e, s') \<Longrightarrow> same_items s s'"
  by (auto simp: at_channel_def takes_item_def same_items_def split: prod.splits dest!: try_recv_queues)

lemma sel_item_cases: "sel_item (Sel_leave f regs R) = sel_item (Sel_leave g regs' R)"
  by (cases R; cases "the R") auto

lemma sel_step_items:
  assumes "sel_step l n d t st s = (st', s')"
  shows "sel_item st' = sel_item st \<and> same_items s s' \<or>
    (\<exists>i x. sel_item st = [] \<and> sel_item st' = [(i, x)] \<and> takes_item s i x s')"
proof (cases st)
  case (Sel_probe js)
  show ?thesis
  proof (cases js)
    case (Cons i js')
    then show ?thesis using assms Sel_probe
      by (cases rule: at_channel_cases [of i s]) (auto dest: at_channel_items)
  qed (use assms Sel_probe in \<open>auto simp: same_items_def\<close>)
next
  case (Sel_register f js regs)
  show ?thesis
  proof (cases js)
    case (Cons i js')
    obtain b c where r: "register_watcher l f (fst s i) = (b, c)" by fastforce
    let ?s = "((fst s)(i := c), snd s)"
    have a: "at_channel i (\<lambda>(c, e). let (b, c) = register_watcher l f c in (b, c, e)) s = (b, ?s)"
      using r by (simp add: at_channel_def)
    have 1: "same_items s ?s" using register_watcher_queues [OF r] by (simp add: same_items_def)
    have "takes_item ?s i x s' \<Longrightarrow> takes_item s i x s'" "same_items ?s s' \<Longrightarrow> same_items s s'" for x
      using 1 by (auto simp: takes_item_def same_items_def split: if_splits)
    with assms Cons Sel_register a 1 show ?thesis
      by (cases rule: at_channel_cases [of i ?s]) (auto dest!: at_channel_items split: if_splits bool.splits)
  qed (use assms Sel_register in \<open>auto simp: same_items_def\<close>)
next
  case (Sel_receive f regs i)
  then show ?thesis using assms
    by (cases rule: at_channel_cases [of i s]) (auto dest: at_channel_items)
next
  case (Sel_leave f js R)
  show ?thesis
  proof (cases js)
    case Nil
    then show ?thesis using assms Sel_leave by (cases R; cases "the R") (auto simp: same_items_def)
  next
    case (Cons i js')
    then show ?thesis using assms Sel_leave sel_item_cases [of f js' R f js]
      by (auto simp: same_items_def unregister_watcher_queues split: if_splits)
  qed
qed (use assms in \<open>auto simp: same_items_def sel_raised_def split: if_splits option.splits fut.splits error.splits\<close>)

section \<open>Properties\<close>

text \<open>
  C18: When a call of \<open>select_channel\<close> is over, returned, timed out or cancelled, no channel has
  any of its futures in a queue, whatever other threads did in between.
\<close>

theorem select_cleans_up:
  assumes "sel_run l n dflt hs (Sel_begin, s) = (Sel_over r, s')"
    and "\<forall>i. queued (fst s i) \<inter> F = {}" and "list_all (stranger F) hs" and "f \<in> F"
  shows "f \<notin> queued (fst s' i)"
proof -
  have "tidy F (fst (Sel_begin, s)) (snd (Sel_begin, s))"
    using assms(2) by (auto simp: tidy_def queued_lined)
  from sel_run_tidy [OF this assms(3,1)] assms(4) show ?thesis
    by (auto simp: tidy_def queued_lined)
qed

definition quiet :: "nat futs" where
  "quiet = \<lparr>fut = (\<lambda>f. Pending), posted = [], loops_closed = {}\<rparr>"

definition ticks :: "nat \<Rightarrow> nat happening list" where
  "ticks n = replicate n (Mine \<lparr>start_idx = 0, expired = False, fresh = 7, raised = None\<rparr>)"

definition select_trace :: "nat happening list" where
  "select_trace = ticks 9 @ [Theirs 1 (Op_send 5), Completes 7 (Ready_channel 1)] @ ticks 5"

definition two_channels :: "nat channels" where
  "two_channels = (\<lambda>i. chan_new i 1, quiet)"

lemma select_trace_run:
  "\<exists>s. sel_run 0 2 False select_trace (Sel_begin, two_channels) = (Sel_over (Selected 1 5), s)"
  by (simp add: select_trace_def ticks_def numeral_eq_Suc rotation_def at_channel_def try_recv_def raw_try_recv_def
      register_watcher_def unregister_watcher_def raw_try_send_def drained_def chan_new_def quiet_def dispatch_def
      set_fut_def effect_of_def two_channels_def pop_putter_def)

theorem select_cleans_up_witness: "\<exists>s. snd (sel_run 0 2 False select_trace (Sel_begin, two_channels)) = s \<and> 7 \<notin> queued (fst s 0)"
proof -
  obtain s where s: "sel_run 0 2 False select_trace (Sel_begin, two_channels) = (Sel_over (Selected 1 5), s)"
    using select_trace_run by blast
  have "list_all (stranger {7}) select_trace" by (simp add: select_trace_def ticks_def stranger_def numeral_eq_Suc)
  moreover have "\<forall>i. queued (fst two_channels i) \<inter> {7} = {}" by (simp add: two_channels_def chan_new_def queued_def)
  ultimately have "7 \<notin> queued (fst s 0)" using select_cleans_up [OF s, of "{7}" 7 0] by simp
  with s show ?thesis by simp
qed

text \<open>
  A call of \<open>select_channel\<close> takes out of the channels exactly what it returns: the step of
  a call that changes a buffer takes the first item of one channel, and that channel with that
  item is the outcome it keeps until it returns.
\<close>

theorem select_takes_one:
  assumes "sel_step l n dflt t st s = (st', s')"
  shows "sel_item st' = sel_item st \<and> (\<forall>j. buffer (fst s' j) = buffer (fst s j)) \<or>
    (\<exists>i x. sel_item st = [] \<and> sel_item st' = [(i, x)] \<and> buffer (fst s i) = x # buffer (fst s' i) \<and>
       (\<forall>j. j \<noteq> i \<longrightarrow> buffer (fst s' j) = buffer (fst s j)))"
  using sel_step_items [OF assms] by (simp add: same_items_def takes_item_def)

theorem select_takes_one_witness:
  "\<exists>s'. sel_step 0 2 False \<lparr>start_idx = 0, expired = False, fresh = 7, raised = None\<rparr> (Sel_probe [1, 0])
      (\<lambda>i. (chan_new i 1)\<lparr>buffer := [5]\<rparr>, quiet) = (Sel_over (Selected 1 5), s') \<and>
    buffer (fst s' 1) = [] \<and> buffer (fst s' 0) = [5]"
proof -
  let ?t = "\<lparr>start_idx = 0, expired = False, fresh = 7, raised = None\<rparr>"
  let ?s = "(\<lambda>i. (chan_new i 1)\<lparr>buffer := [5]\<rparr>, quiet)"
  obtain s' where s': "sel_step 0 2 False ?t (Sel_probe [1, 0]) ?s = (Sel_over (Selected 1 5), s')"
    by (simp add: at_channel_def try_recv_def raw_try_recv_def pop_putter_def chan_new_def)
  from select_takes_one [OF this] have "buffer (fst s' 1) = []" "buffer (fst s' 0) = [5]"
    by (auto simp: chan_new_def)
  with s' show ?thesis by blast
qed

text \<open>
  A wake-up can be lost: a call \<open>f\<close> that found an item in its second channel while the first
  one had already popped it as a watcher returns without passing the wake-up on, because its
  future is still pending when the callback runs; the item it was woken for stays in the first
  channel, where another call \<open>g\<close> goes on waiting with nothing posted for it.
\<close>

theorem select_wakeup_lost:
  assumes "watchers a = [(l, f), (l', g)]" and "getters a = []" and "buffer a = []" and "\<not> is_closed a"
    and "buffer b = y # ys" and "fut e f = Pending" and "posted e = []" and "loops_closed e = {}" and "f \<noteq> g"
    and send: "try_send x (a, e) = (r, c, e1)"
    and find: "sel_step l 2 dflt t (Sel_register f [1] [0]) ((\<lambda>_. b)(0 := c), e1) = (st, s1)"
    and leave: "sel_step l 2 dflt t st s1 = (st2, s2)"
    and wake: "run_wake (Ready l f) (fst s2 0, snd s2\<lparr>posted := []\<rparr>) = (c', e')"
  shows "posted e1 = [Ready l f] \<and> st2 = Sel_leave f [] (Some (Selected 1 y)) \<and>
    buffer c' = [x] \<and> watchers c' = [(l', g)] \<and> posted e' = [] \<and> fut e' g = fut e g"
proof -
  have c: "c = a\<lparr>watchers := [(l', g)], buffer := [x]\<rparr>" "e1 = e\<lparr>posted := [Ready l f]\<rparr>"
    using send assms(1-9) by (auto simp: try_send_def raw_try_send_def dispatch_def)
  obtain ws d where d: "pop_putter (b\<lparr>buffer := ys\<rparr>) = (ws, d)" by fastforce
  have st: "st = Sel_leave f [0] (Some (Selected 1 y))" and s1: "fst s1 0 = c" "fut (snd s1) = fut e"
    "loops_closed (snd s1) = {}"
    using find assms(1-9) c d
    by (auto simp: at_channel_def register_watcher_def try_recv_def raw_try_recv_def dispatch_def)
  have s2: "st2 = Sel_leave f [] (Some (Selected 1 y))" "fst s2 0 = c" "fut (snd s2) = fut e"
    using leave st s1 assms(9) c by (auto simp: unregister_watcher_def)
  with wake assms(6) have "c' = c" "e' = set_fut f (Ready_channel (token c)) (snd s2\<lparr>posted := []\<rparr>)" by auto
  with c s2 assms(9) show ?thesis by (simp add: set_fut_def)
qed

definition two_watched :: "nat chan" where
  "two_watched = (chan_new 0 1)\<lparr>watchers := [(0, 7), (0, 8)]\<rparr>"

theorem select_wakeup_lost_witness:
  "\<exists>c e. snd (try_send 5 (two_watched, quiet)) = (c, e) \<and> posted e = [Ready 0 7]"
proof -
  let ?t = "\<lparr>start_idx = 0, expired = False, fresh = 7, raised = None\<rparr>"
  let ?b = "(chan_new 1 1)\<lparr>buffer := [6]\<rparr>"
  obtain r c e1 where 1: "try_send 5 (two_watched, quiet) = (r, c, e1)" by (metis surj_pair)
  obtain st s1 where 2: "sel_step 0 2 False ?t (Sel_register 7 [1] [0]) ((\<lambda>_. ?b)(0 := c), e1) = (st, s1)"
    by (metis surj_pair)
  obtain st2 s2 where 3: "sel_step 0 2 False ?t st s1 = (st2, s2)" by (metis surj_pair)
  obtain c' e' where 4: "run_wake (Ready 0 7) (fst s2 0, snd s2\<lparr>posted := []\<rparr>) = (c', e')" by (metis surj_pair)
  have h: "watchers two_watched = [(0, 7), (0, 8)]" "getters two_watched = []" "buffer two_watched = []"
    "\<not> is_closed two_watched" "buffer ?b = 6 # []" "fut quiet 7 = Pending" "posted quiet = []"
    "loops_closed quiet = {}" "(7::nat) \<noteq> 8"
    by (simp_all add: two_watched_def chan_new_def quiet_def)
  from select_wakeup_lost [OF h 1 2 3 4] 1 show ?thesis by simp
qed

end
