(* ===== verification/TaskGroups.thy ===== *)
theory TaskGroups
  imports Cancel
begin

text \<open>
  \<open>multiloop._taskgroup\<close>: \<open>TaskGroup\<close> with its children, the wait at its end with the
  cancellation of siblings, the drain after an interruption, \<open>start_soon\<close>, \<open>start\<close>,
  \<open>cancel_all\<close>, and \<open>TaskHandle\<close>.  The scope of a group is one of \<^theory_text>\<open>Cancel\<close>, its children are
  tasks there.
\<close>

section \<open>State\<close>

text \<open>
  \<open>_children\<close> lists the tasks of the handles; Python iterates its set in some order, which
  the operations below take as an argument where it matters.
\<close>

record group =
  g_scope :: sid
  g_loop :: "nat option"
  children :: "task list"
  exited :: bool
  consumed :: "task set"

definition group_new :: "sid \<Rightarrow> group" where
  "group_new i = \<lparr>g_scope = i, g_loop = None, children = [], exited = False, consumed = {}\<rparr>"

text \<open>
  The exception a finished task ended with, \<open>CancelledError\<close> standing for \<open>cancelled()\<close>.
\<close>

type_synonym endings = "task \<Rightarrow> error option"

definition cancel_tasks :: "task set \<Rightarrow> cstate \<Rightarrow> cstate" where
  "cancel_tasks ts c = c\<lparr>hosts := (\<lambda>t. if t \<in> ts then snd (task_cancel (hosts c t)) else hosts c t)\<rparr>"

definition unfinished :: "group \<Rightarrow> cstate \<Rightarrow> task set" where
  "unfinished g c = {t \<in> set (children g). \<not> t_done (hosts c t)}"

section \<open>Handles\<close>

datatype task_status = PENDING | STARTED | FINISHED

text \<open>\<open>started\<close> is \<open>None\<close> without a start event.\<close>

definition handle_status :: "task \<Rightarrow> bool option \<Rightarrow> cstate \<Rightarrow> task_status" where
  "handle_status t started c =
     (if t_done (hosts c t) then FINISHED else if started = Some True then STARTED else PENDING)"

definition handle_result :: "task \<Rightarrow> (task \<Rightarrow> 'v) \<Rightarrow> endings \<Rightarrow> cstate \<Rightarrow> error + 'v" where
  "handle_result t val fin c =
     (if \<not> t_done (hosts c t) then Inl (RuntimeError ''Task is not finished'')
      else (case fin t of Some e \<Rightarrow> Inl e | None \<Rightarrow> Inr (val t)))"

definition handle_exception :: "task \<Rightarrow> endings \<Rightarrow> cstate \<Rightarrow> error + error option" where
  "handle_exception t fin c =
     (if \<not> t_done (hosts c t) then Inl (RuntimeError ''Task is not finished'') else Inr (fin t))"

section \<open>Entering, spawning\<close>

definition group_aenter :: "task option \<Rightarrow> nat \<Rightarrow> rat \<Rightarrow> group \<Rightarrow> cstate \<Rightarrow> error option \<times> group \<times> cstate" where
  "group_aenter current l now g c =
     (if cancel_called (scopes c (g_scope g)) then (Some (RuntimeError ''TaskGroup is not reusable after failure''), g, c)
      else
        (let was_exited = exited g;
             g = g\<lparr>g_loop := Some l, exited := False\<rparr>;
             g = (if was_exited then g\<lparr>children := [], consumed := {}\<rparr> else g);
             (r, c) = scope_aenter current now (g_scope g) c
         in (r, g, c)))"

definition foreign_loop :: error where
  "foreign_loop = RuntimeError ''TaskGroup is physically scoped to a single event loop''"

text \<open>
  \<open>start_soon\<close> and the first part of \<open>start\<close>, whose task \<open>t\<close> has just been created; the messages
  are shortened.
\<close>

definition group_spawn :: "nat \<Rightarrow> task \<Rightarrow> group \<Rightarrow> cstate \<Rightarrow> error option \<times> group \<times> cstate" where
  "group_spawn l t g c =
     (if g_loop g \<noteq> None \<and> g_loop g \<noteq> Some l then (Some foreign_loop, g, c)
      else if exited g then (Some (RuntimeError ''TaskGroup is not active''), g, cancel_tasks {t} c)
      else (None, g\<lparr>children := children g @ [t]\<rparr>, c))"

text \<open>
  The second part of \<open>start\<close>: the \<open>finally\<close> after the wait for the start event, which ended
  with \<open>exc\<close>; \<open>called\<close>: the child has called \<open>started()\<close>.
\<close>

definition start_failure :: "bool \<Rightarrow> task \<Rightarrow> endings \<Rightarrow> error option" where
  "start_failure called t fin =
     (case fin t of
        Some CancelledError \<Rightarrow> if called then None else Some CancelledError
      | r \<Rightarrow> r)"

definition group_started :: "bool \<Rightarrow> error option \<Rightarrow> task \<Rightarrow> endings \<Rightarrow> group \<Rightarrow> cstate \<Rightarrow> error option \<times> group \<times> cstate" where
  "group_started called exc t fin g c =
     (if t_done (hosts c t) then
        (if fin t = None \<and> \<not> called then
           (Some (RuntimeError ''Child exited without calling task_status.started()''), g, c)
         else
           (case start_failure called t fin of
              None \<Rightarrow> (exc, g, c)
            | Some e \<Rightarrow> (Some e, g\<lparr>consumed := insert t (consumed g)\<rparr>, cancel_tasks (unfinished g c - {t}) c)))
      else (exc, g, c))"

text \<open>\<open>cancel_all\<close> schedules \<open>cancel\<close> on the loops that are open.\<close>

definition cancel_all :: "(task \<Rightarrow> nat) \<Rightarrow> nat set \<Rightarrow> group \<Rightarrow> task list" where
  "cancel_all lp cl g = filter (\<lambda>t. lp t \<notin> cl) (children g)"

section \<open>Waiting for the children\<close>

text \<open>
  The local variables of \<open>_wait_children\<close>; an exception is kept with the task it comes from.
\<close>

record waiting =
  w_pending :: "task set"
  w_processed :: "task set"
  w_by_scope :: "task set"
  w_cancelled :: bool
  w_exceptions :: "(task \<times> error) list"

definition waiting_new :: "task set \<Rightarrow> waiting" where
  "waiting_new pre = \<lparr>w_pending = {}, w_processed = {}, w_by_scope = pre, w_cancelled = False, w_exceptions = []\<rparr>"

definition cancel_siblings :: "task \<Rightarrow> group \<Rightarrow> waiting \<times> cstate \<Rightarrow> waiting \<times> cstate" where
  "cancel_siblings host g = (\<lambda>(w, c).
     (let c = cancel_tasks (w_pending w) c;
          c = snd (scope_cancel True (g_scope g) c);
          (inj, c) = take_injected (g_scope g) c;
          c = (if inj then upd_host host task_uncancel c else c)
      in (w\<lparr>w_by_scope := w_by_scope w \<union> w_pending w, w_cancelled := True\<rparr>, c)))"

definition collect_one :: "task \<Rightarrow> group \<Rightarrow> endings \<Rightarrow> task \<Rightarrow> waiting \<times> cstate \<Rightarrow> waiting \<times> cstate" where
  "collect_one host g fin t = (\<lambda>(w, c).
     (if t \<in> consumed g then (w, c)
      else
        (case fin t of
           None \<Rightarrow> (w, c)
         | Some e \<Rightarrow>
             (if e = CancelledError \<and> (t \<in> w_by_scope w \<or> t_cancelling (hosts c t) > 0) then (w, c)
              else
                (let w = w\<lparr>w_exceptions := w_exceptions w @ [(t, e)]\<rparr>
                 in if \<not> w_cancelled w then cancel_siblings host g (w, c) else (w, c))))))"

definition absorb_one :: "task \<Rightarrow> group \<Rightarrow> endings \<Rightarrow> task \<Rightarrow> waiting \<times> cstate \<Rightarrow> waiting \<times> cstate" where
  "absorb_one host g fin t = (\<lambda>(w, c).
     (if t \<in> w_processed w \<or> t \<in> w_pending w then (w, c)
      else if t_done (hosts c t) then
        (let (w, c) = collect_one host g fin t (w, c) in (w\<lparr>w_processed := insert t (w_processed w)\<rparr>, c))
      else if w_cancelled w then
        (w\<lparr>w_by_scope := insert t (w_by_scope w), w_pending := insert t (w_pending w)\<rparr>, cancel_tasks {t} c)
      else (w\<lparr>w_pending := insert t (w_pending w)\<rparr>, c)))"

definition absorb :: "task \<Rightarrow> group \<Rightarrow> endings \<Rightarrow> task list \<Rightarrow> waiting \<times> cstate \<Rightarrow> waiting \<times> cstate" where
  "absorb host g fin ts q = fold (absorb_one host g fin) ts q"

text \<open>\<open>asyncio.wait\<close> has returned with the tasks \<open>ds\<close> done.\<close>

definition collect_done :: "task \<Rightarrow> group \<Rightarrow> endings \<Rightarrow> task list \<Rightarrow> waiting \<times> cstate \<Rightarrow> waiting \<times> cstate" where
  "collect_done host g fin ds = (\<lambda>(w, c).
     fold (\<lambda>t (w, c). collect_one host g fin t (w\<lparr>w_processed := insert t (w_processed w)\<rparr>, c)) ds
       (w\<lparr>w_pending := w_pending w - set ds\<rparr>, c))"

section \<open>Leaving\<close>

text \<open>What leaves the \<open>async with\<close> of a group: nothing, one exception, or a group of them.\<close>

datatype leaves = Leaves_normally | Leaves_error error | Leaves_group string "error list"

text \<open>A call of the scope's \<open>__aexit__\<close> that raises replaces what the group was to do.\<close>

definition group_result :: "error option \<Rightarrow> (task \<times> error) list \<Rightarrow> group \<Rightarrow> cstate \<Rightarrow> leaves \<times> cstate" where
  "group_result exc excs g c =
     (let errs = map snd excs;
          plain = (\<lambda>r. case r of Swallowed \<Rightarrow> Leaves_normally | Left None \<Rightarrow> Leaves_normally | Left (Some e) \<Rightarrow> Leaves_error e)
      in if exc = Some CancelledError then
           (let (r, c) = scope_aexit exc (g_scope g) c
            in (case r of Left (Some e) \<Rightarrow> Leaves_error e | _ \<Rightarrow> Leaves_error CancelledError, c))
         else if errs = [] then (let (r, c) = scope_aexit exc (g_scope g) c in (plain r, c))
         else if exc = None \<and> list_all (\<lambda>e. e = CancelledError) errs then
           (let (r, c) = scope_aexit None (g_scope g) c
            in (if length errs = 1 then Leaves_error (hd errs) else Leaves_group ''taskgroup soft exit'' errs, c))
         else
           (let c = snd (scope_cancel True (g_scope g) c);
                (r, c) = scope_aexit exc (g_scope g) c;
                all = (case exc of None \<Rightarrow> errs | Some e \<Rightarrow> e # errs)
            in (if length all = 1 then Leaves_error (hd all) else Leaves_group ''taskgroup crashed'' all, c)))"

text \<open>
  The stages of a group: its block runs; \<open>_wait_children\<close> waits, inside its shielded scope; it
  was interrupted and drains; it is over.
\<close>

datatype gstage = G_body | G_wait "error option" waiting | G_drain error "task set" | G_over leaves

definition group_close :: "group \<Rightarrow> group" where
  "group_close g = g\<lparr>exited := True, g_loop := None\<rparr>"

text \<open>After a turn of the loop: wait again, or leave the shielded scope \<open>sh\<close> and the group.\<close>

definition group_turn :: "sid \<Rightarrow> error option \<Rightarrow> group \<Rightarrow> waiting \<times> cstate \<Rightarrow> gstage \<times> group \<times> cstate" where
  "group_turn sh exc g = (\<lambda>(w, c).
     (if w_pending w \<noteq> {} then (G_wait exc w, g, c)
      else
        (let c = snd (scope_aexit None sh c);
             (r, c) = group_result exc (w_exceptions w) g c
         in (G_over r, group_close g, c))))"

text \<open>\<open>__aexit__\<close> up to its first suspension; \<open>order\<close> lists the children.\<close>

definition group_aexit :: "task \<Rightarrow> rat \<Rightarrow> sid \<Rightarrow> task list \<Rightarrow> error option \<Rightarrow> endings \<Rightarrow> group \<Rightarrow> cstate \<Rightarrow> gstage \<times> group \<times> cstate" where
  "group_aexit host now sh order exc fin g c =
     (let pre = (if exc \<noteq> None then unfinished g c else {});
          c = cancel_tasks pre c;
          c = snd (scope_aenter (Some host) now sh c)
      in group_turn sh exc g (absorb host g fin order (waiting_new pre, c)))"

definition group_woken :: "task \<Rightarrow> sid \<Rightarrow> task list \<Rightarrow> task list \<Rightarrow> error option \<Rightarrow> endings \<Rightarrow> waiting \<Rightarrow> group \<Rightarrow> cstate \<Rightarrow> gstage \<times> group \<times> cstate" where
  "group_woken host sh ds order exc fin w g c =
     group_turn sh exc g (absorb host g fin order (collect_done host g fin ds (w, c)))"

text \<open>The wait raised \<open>e\<close>: cancel what is left and drain it.  The group's own scope is not left.\<close>

definition group_drained :: "error \<Rightarrow> task set \<Rightarrow> group \<Rightarrow> cstate \<Rightarrow> gstage \<times> group \<times> cstate" where
  "group_drained e ts g c =
     (let ts = {t \<in> ts. \<not> t_done (hosts c t)}
      in if ts \<noteq> {} then (G_drain e ts, g, c) else (G_over (Leaves_error e), group_close g, c))"

definition group_interrupted :: "sid \<Rightarrow> error \<Rightarrow> group \<Rightarrow> cstate \<Rightarrow> gstage \<times> group \<times> cstate" where
  "group_interrupted sh e g c =
     (let c = snd (scope_aexit (Some e) sh c);
          g = g\<lparr>exited := True\<rparr>;
          remaining = unfinished g c
      in group_drained e remaining g (cancel_tasks remaining c))"

section \<open>A group among its tasks\<close>

text \<open>
  The system: the group, all scopes and tasks, how tasks ended, the stage of the host; and two
  history variables, the exception the block ended with and whether the wait was interrupted.
\<close>

record nursery =
  grp :: group
  cst :: cstate
  fin :: endings
  stg :: gstage
  block_exc :: "error option"
  was_hit :: bool

text \<open>
  Tasks are spawned, fail, return and are cancelled at any time a task other than the host can
  run, and by the host while its block runs.
\<close>

inductive tg_step :: "task \<Rightarrow> sid \<Rightarrow> nursery \<Rightarrow> nursery \<Rightarrow> bool" for h sh where
  tg_spawn: "group_spawn l t (grp n) (cst n) = (r, g, c) \<Longrightarrow> t \<notin> set (children (grp n)) \<Longrightarrow> \<not> t_done (hosts (cst n) t) \<Longrightarrow>
     tg_step h sh n (n\<lparr>grp := g, cst := c\<rparr>)"
| tg_started: "group_started called exc t (fin n) (grp n) (cst n) = (r, g, c) \<Longrightarrow> tg_step h sh n (n\<lparr>grp := g, cst := c\<rparr>)"
| tg_finish: "\<not> t_done (hosts (cst n) t) \<Longrightarrow>
     tg_step h sh n (n\<lparr>cst := upd_host t (\<lambda>h. h\<lparr>t_done := True\<rparr>) (cst n), fin := (fin n)(t := e)\<rparr>)"
| tg_hosts: "(\<And>t. t_done (hs t) = t_done (hosts (cst n) t)) \<Longrightarrow> tg_step h sh n (n\<lparr>cst := (cst n)\<lparr>hosts := hs\<rparr>\<rparr>)"
| tg_exit: "stg n = G_body \<Longrightarrow> set order = set (children (grp n)) \<Longrightarrow>
     group_aexit h now sh order exc (fin n) (grp n) (cst n) = (st, g, c) \<Longrightarrow>
     tg_step h sh n (n\<lparr>grp := g, cst := c, stg := st, block_exc := exc\<rparr>)"
| tg_wake: "stg n = G_wait exc w \<Longrightarrow> set ds = {t \<in> w_pending w. t_done (hosts (cst n) t)} \<Longrightarrow> ds \<noteq> [] \<Longrightarrow>
     set order = set (children (grp n)) \<Longrightarrow>
     group_woken h sh ds order exc (fin n) w (grp n) (cst n) = (st, g, c) \<Longrightarrow>
     tg_step h sh n (n\<lparr>grp := g, cst := c, stg := st\<rparr>)"
| tg_hit: "stg n = G_wait exc w \<Longrightarrow> group_interrupted sh e (grp n) (cst n) = (st, g, c) \<Longrightarrow>
     tg_step h sh n (n\<lparr>grp := g, cst := c, stg := st, was_hit := True\<rparr>)"
| tg_drain: "stg n = G_drain e ts \<Longrightarrow> (\<And>t. t \<in> ts \<Longrightarrow> t_done (hosts (cst n) t)) \<Longrightarrow>
     group_drained e ts (grp n) (cst n) = (st, g, c) \<Longrightarrow>
     tg_step h sh n (n\<lparr>grp := g, cst := c, stg := st\<rparr>)"

definition tg_start :: "nursery \<Rightarrow> bool" where
  "tg_start n \<longleftrightarrow> stg n = G_body \<and> \<not> was_hit n"

section \<open>Cancelling finishes no task\<close>

lemma cancel_tasks_done [simp]: "t_done (hosts (cancel_tasks ts c) t) = t_done (hosts c t)"
  by (simp add: cancel_tasks_def)

lemma cancel_tasks_simps [simp]: "scopes (cancel_tasks ts c) = scopes c" "stack (cancel_tasks ts c) = stack c"
  by (simp_all add: cancel_tasks_def)

lemma scope_cancel_done [simp]: "t_done (hosts (snd (scope_cancel b i c)) t) = t_done (hosts c t)"
  by (simp add: scope_cancel_def scope_deliver_def Let_def case_prod_beta split: option.splits)

lemma restore_saved_done [simp]: "t_done (hosts (restore_saved i u c) t) = t_done (hosts c t)"
  by (auto simp: restore_saved_def Let_def split: option.splits)

lemma inject_on_entry_done [simp]: "t_done (hosts (inject_on_entry i u c) t) = t_done (hosts c t)"
  by (simp add: inject_on_entry_def Let_def case_prod_beta)

lemma rollback_aenter_done [simp]: "hosts (rollback_aenter i c) = hosts c"
  by (simp add: rollback_aenter_def)

lemma aenter_push_done [simp]: "t_done (hosts (aenter_push i u c) t) = t_done (hosts c t)"
  by (simp add: aenter_push_def Let_def)

lemma scope_aenter_done [simp]: "t_done (hosts (snd (scope_aenter cur now i c)) t) = t_done (hosts c t)"
  by (auto simp: scope_aenter_def aenter_deadline_def aenter_check_def Let_def split: option.splits if_splits)

lemma scope_aexit_done [simp]: "t_done (hosts (snd (scope_aexit e i c)) t) = t_done (hosts c t)"
  by (auto simp: scope_aexit_def uncancel_injected_def Let_def split: option.splits prod.splits if_splits)

lemma group_result_done [simp]: "t_done (hosts (snd (group_result exc excs g c)) t) = t_done (hosts c t)"
  by (simp add: group_result_def Let_def case_prod_beta)

section \<open>Collecting\<close>

text \<open>
  What the variables of the wait say at every suspension: what was processed is done, every
  failure among it that nobody has consumed is among the exceptions, these are failures of
  children, and after the first one everything waited for has been cancelled.
\<close>

definition wait_ok :: "group \<Rightarrow> endings \<Rightarrow> cstate \<Rightarrow> waiting \<Rightarrow> bool" where
  "wait_ok g f c w \<longleftrightarrow>
     (\<forall>t \<in> w_processed w. t_done (hosts c t) \<and> t \<in> set (children g)) \<and> w_pending w \<subseteq> set (children g) \<and>
     (\<forall>t \<in> w_processed w. \<forall>e. f t = Some e \<longrightarrow> e \<noteq> CancelledError \<longrightarrow> t \<in> consumed g \<or> (t, e) \<in> set (w_exceptions w)) \<and>
     (\<forall>(t, e) \<in> set (w_exceptions w). f t = Some e \<and> t_done (hosts c t) \<and> t \<in> set (children g)) \<and>
     (w_cancelled w \<longleftrightarrow> w_exceptions w \<noteq> []) \<and> (w_cancelled w \<longrightarrow> w_pending w \<subseteq> w_by_scope w) \<and>
     w_pending w \<inter> w_processed w = {}"

lemma wait_ok_keep:
  "wait_ok g f c w \<Longrightarrow> (\<And>t. t_done (hosts c' t) = t_done (hosts c t)) \<Longrightarrow> wait_ok g f c' w"
  by (simp add: wait_ok_def)

lemma cancel_siblings_simps [simp]:
  "t_done (hosts (snd (cancel_siblings h g (w, c))) t) = t_done (hosts c t)"
  "fst (cancel_siblings h g (w, c)) = w\<lparr>w_by_scope := w_by_scope w \<union> w_pending w, w_cancelled := True\<rparr>"
  by (simp_all add: cancel_siblings_def take_injected_def Let_def case_prod_beta)

lemma collect_one_done [simp]: "t_done (hosts (snd (collect_one h g f t q)) u) = t_done (hosts (snd q) u)"
  by (cases q) (simp add: collect_one_def Let_def split: option.splits)

lemma collect_one_sets [simp]:
  "w_processed (fst (collect_one h g f t q)) = w_processed (fst q)"
  "w_pending (fst (collect_one h g f t q)) = w_pending (fst q)"
  by (cases q, simp add: collect_one_def Let_def split: option.splits)+

lemma collect_one_processed:
  "collect_one h g f t (w\<lparr>w_processed := P\<rparr>, c) =
     ((fst (collect_one h g f t (w, c)))\<lparr>w_processed := P\<rparr>, snd (collect_one h g f t (w, c)))"
  by (auto simp: collect_one_def cancel_siblings_def Let_def case_prod_beta split: option.splits)

lemma collect_one_ok:
  assumes "wait_ok g f c w" and "t_done (hosts c t)" and "t \<in> set (children g) - w_pending w"
    and "collect_one h g f t (w\<lparr>w_processed := insert t (w_processed w)\<rparr>, c) = (w', c')"
  shows "wait_ok g f c' w' \<and> w_processed w' = insert t (w_processed w) \<and> w_pending w' = w_pending w"
proof -
  let ?w = "w\<lparr>w_processed := insert t (w_processed w)\<rparr>"
  have c': "t_done (hosts c' u) = t_done (hosts c u)" for u
    using collect_one_done [of h g f t "(?w, c)" u] assms(4) by simp
  have sets: "w_processed w' = insert t (w_processed w)" "w_pending w' = w_pending w"
    using collect_one_sets [of h g f t "(?w, c)"] assms(4) by simp_all
  have "wait_ok g f c w'"
  proof (cases "t \<in> consumed g \<or> f t = None \<or> f t = Some CancelledError \<and> (t \<in> w_by_scope w \<or> t_cancelling (hosts c t) > 0)")
    case True
    then have "w' = ?w" using assms(4) by (auto simp: collect_one_def split: if_splits)
    with True assms(1-3) show ?thesis by (auto simp: wait_ok_def)
  next
    case False
    then obtain e where e: "f t = Some e" "t \<notin> consumed g" by auto
    have "w' = (if w_cancelled w then ?w\<lparr>w_exceptions := w_exceptions w @ [(t, e)]\<rparr>
        else ?w\<lparr>w_exceptions := w_exceptions w @ [(t, e)], w_by_scope := w_by_scope w \<union> w_pending w, w_cancelled := True\<rparr>)"
      using assms(4) e False
      by (auto simp: collect_one_def Let_def cancel_siblings_def take_injected_def case_prod_beta split: if_splits)
    with e assms(1-3) show ?thesis by (auto simp: wait_ok_def)
  qed
  then have "wait_ok g f c' w'" by (rule wait_ok_keep) (rule c')
  with sets show ?thesis by simp
qed

lemma absorb_one_ok:
  assumes "wait_ok g f c w" and "t \<in> set (children g)" and "absorb_one h g f t (w, c) = (w', c')"
  shows "wait_ok g f c' w' \<and> (\<forall>u. t_done (hosts c' u) = t_done (hosts c u)) \<and>
    w_processed w \<subseteq> w_processed w' \<and> w_pending w \<subseteq> w_pending w' \<and> t \<in> w_processed w' \<union> w_pending w'"
proof -
  consider (old) "t \<in> w_processed w \<or> t \<in> w_pending w"
    | (over) "t \<notin> w_processed w" "t \<notin> w_pending w" "t_done (hosts c t)"
    | (live) "t \<notin> w_processed w" "t \<notin> w_pending w" "\<not> t_done (hosts c t)" by blast
  then show ?thesis
  proof cases
    case old
    then show ?thesis using assms by (auto simp: absorb_one_def)
  next
    case over
    let ?q = "collect_one h g f t (w\<lparr>w_processed := insert t (w_processed w)\<rparr>, c)"
    have "fst (collect_one h g f t (w, c))\<lparr>w_processed := insert t (w_processed w)\<rparr> = fst ?q"
      "snd (collect_one h g f t (w, c)) = snd ?q" by (simp_all add: collect_one_processed)
    then have "?q = (w', c')" using assms(3) over by (simp add: absorb_one_def case_prod_beta prod_eq_iff)
    note o = collect_one_ok [OF assms(1) over(3) _ this]
    have "t_done (hosts c' u) = t_done (hosts c u)" for u
      using collect_one_done [of h g f t "(w\<lparr>w_processed := insert t (w_processed w)\<rparr>, c)" u] \<open>?q = (w', c')\<close> by simp
    with o assms(2) over show ?thesis by simp blast
  next
    case live
    then have w': "w' = (if w_cancelled w then w\<lparr>w_by_scope := insert t (w_by_scope w), w_pending := insert t (w_pending w)\<rparr>
        else w\<lparr>w_pending := insert t (w_pending w)\<rparr>)" and c': "\<And>u. t_done (hosts c' u) = t_done (hosts c u)"
      using assms(3) by (auto simp: absorb_one_def split: if_splits)
    from live assms(1,2) have "wait_ok g f c w'" unfolding w' by (auto simp: wait_ok_def)
    then have "wait_ok g f c' w'" by (rule wait_ok_keep) (rule c')
    with c' w' show ?thesis by auto
  qed
qed

lemma absorb_ok:
  "wait_ok g f c w \<Longrightarrow> set ts \<subseteq> set (children g) \<Longrightarrow> absorb h g f ts (w, c) = (w', c') \<Longrightarrow>
   wait_ok g f c' w' \<and> (\<forall>u. t_done (hosts c' u) = t_done (hosts c u)) \<and>
   w_processed w \<subseteq> w_processed w' \<and> set ts \<subseteq> w_processed w' \<union> w_pending w'"
proof -
  have "wait_ok g f c w \<Longrightarrow> set ts \<subseteq> set (children g) \<Longrightarrow> fold (absorb_one h g f) ts (w, c) = (w', c') \<Longrightarrow>
     wait_ok g f c' w' \<and> (\<forall>u. t_done (hosts c' u) = t_done (hosts c u)) \<and>
     w_processed w \<subseteq> w_processed w' \<and> w_pending w \<subseteq> w_pending w' \<and> set ts \<subseteq> w_processed w' \<union> w_pending w'"
  proof (induction ts arbitrary: w c)
    case (Cons t ts)
    obtain w1 c1 where 1: "absorb_one h g f t (w, c) = (w1, c1)" by (cases "absorb_one h g f t (w, c)")
    note a = absorb_one_ok [OF Cons.prems(1) _ 1]
    have "fold (absorb_one h g f) ts (w1, c1) = (w', c')" using Cons.prems(3) 1 by simp
    with Cons.IH [of c1 w1] a Cons.prems(2) show ?case by auto
  qed simp
  then show "wait_ok g f c w \<Longrightarrow> set ts \<subseteq> set (children g) \<Longrightarrow> absorb h g f ts (w, c) = (w', c') \<Longrightarrow> ?thesis"
    unfolding absorb_def by blast
qed

lemma collect_done_ok:
  assumes "wait_ok g f c w" and "set ds \<subseteq> set (children g)" and "\<And>t. t \<in> set ds \<Longrightarrow> t_done (hosts c t)"
    and "collect_done h g f ds (w, c) = (w', c')"
  shows "wait_ok g f c' w' \<and> (\<forall>u. t_done (hosts c' u) = t_done (hosts c u)) \<and>
    w_processed w' = w_processed w \<union> set ds \<and> w_pending w' = w_pending w - set ds"
proof -
  let ?f = "\<lambda>t (w, c). collect_one h g f t (w\<lparr>w_processed := insert t (w_processed w)\<rparr>, c)"
  have "wait_ok g f c w \<Longrightarrow> set ds \<subseteq> set (children g) - w_pending w \<Longrightarrow> (\<And>t. t \<in> set ds \<Longrightarrow> t_done (hosts c t)) \<Longrightarrow>
     fold ?f ds (w, c) = (w', c') \<Longrightarrow> wait_ok g f c' w' \<and> (\<forall>u. t_done (hosts c' u) = t_done (hosts c u)) \<and>
     w_processed w' = w_processed w \<union> set ds \<and> w_pending w' = w_pending w" for w
  proof (induction ds arbitrary: w c)
    case (Cons t ds)
    let ?w = "w\<lparr>w_processed := insert t (w_processed w)\<rparr>"
    obtain w1 c1 where 1: "collect_one h g f t (?w, c) = (w1, c1)" by (cases "collect_one h g f t (?w, c)")
    have "t_done (hosts c t)" "t \<in> set (children g) - w_pending w" using Cons.prems(2,3) by simp_all
    note a = collect_one_ok [OF Cons.prems(1) this 1]
    have d: "t_done (hosts c1 u) = t_done (hosts c u)" for u
      using collect_one_done [of h g f t "(?w, c)" u] 1 by simp
    have "fold ?f ds (w1, c1) = (w', c')" using Cons.prems(4) 1 by simp
    with Cons.IH [of c1 w1] a d Cons.prems(2,3) show ?case by auto
  qed simp
  moreover have "wait_ok g f c (w\<lparr>w_pending := w_pending w - set ds\<rparr>)" using assms(1) by (auto simp: wait_ok_def)
  ultimately show ?thesis using assms(2-4) unfolding collect_done_def by fastforce
qed

section \<open>The invariant of a group\<close>

text \<open>The errors that leave a group, and that they report every failure of its children.\<close>

fun reported :: "leaves \<Rightarrow> error set" where
  "reported Leaves_normally = {}" | "reported (Leaves_error e) = {e}" | "reported (Leaves_group m es) = set es"

definition all_reported :: "group \<Rightarrow> endings \<Rightarrow> leaves \<Rightarrow> bool" where
  "all_reported g f r \<longleftrightarrow> (\<forall>t \<in> set (children g). \<forall>e. f t = Some e \<longrightarrow> e \<noteq> CancelledError \<longrightarrow> t \<notin> consumed g \<longrightarrow> e \<in> reported r)"

definition all_done :: "group \<Rightarrow> cstate \<Rightarrow> bool" where
  "all_done g c \<longleftrightarrow> (\<forall>t \<in> set (children g). t_done (hosts c t))"

fun stage_ok :: "group \<Rightarrow> endings \<Rightarrow> cstate \<Rightarrow> error option \<Rightarrow> bool \<Rightarrow> gstage \<Rightarrow> bool" where
  "stage_ok g f c b hit G_body = (\<not> hit)"
| "stage_ok g f c b hit (G_wait exc w) = (wait_ok g f c w \<and> w_pending w \<noteq> {} \<and> exc = b \<and> \<not> hit)"
| "stage_ok g f c b hit (G_drain e ts) = (exited g \<and> hit \<and> unfinished g c \<subseteq> ts)"
| "stage_ok g f c b hit (G_over r) =
     (exited g \<and> all_done g c \<and> (hit \<or> b = Some CancelledError \<or> all_reported g f r))"

definition tg_inv :: "nursery \<Rightarrow> bool" where
  "tg_inv n \<longleftrightarrow> stage_ok (grp n) (fin n) (cst n) (block_exc n) (was_hit n) (stg n)"

lemma group_result_reported:
  assumes "exc \<noteq> Some CancelledError" and "(t, e) \<in> set excs"
  shows "e \<in> reported (fst (group_result exc excs g c))"
proof -
  have "map snd excs \<noteq> []" "e \<in> set (map snd excs)" using assms(2) by (auto intro: rev_image_eqI)
  then show ?thesis using assms(1)
    by (auto simp: group_result_def Let_def case_prod_beta length_Suc_conv split: option.splits list.splits)
qed

lemma group_turn_ok:
  assumes w: "wait_ok g f c w" and all: "set (children g) \<subseteq> w_processed w \<union> w_pending w"
    and t: "group_turn sh exc g (w, c) = (st, g', c')"
  shows "stage_ok g' f c' exc False st"
proof (cases "w_pending w = {}")
  case False
  then show ?thesis using t w by (auto simp: group_turn_def)
next
  case True
  let ?q = "group_result exc (w_exceptions w) g (snd (scope_aexit None sh c))"
  have st: "st = G_over (fst ?q)" "g' = group_close g" "\<And>u. t_done (hosts c' u) = t_done (hosts c u)"
    using t True by (auto simp: group_turn_def Let_def case_prod_beta)
  have "all_done g' c'" using w all True st by (auto simp: all_done_def wait_ok_def group_close_def)
  moreover have "all_reported g' f (fst ?q)" if "exc \<noteq> Some CancelledError"
    unfolding all_reported_def
  proof (intro ballI allI impI)
    fix t e
    assume "t \<in> set (children g')" "f t = Some e" "e \<noteq> CancelledError" "t \<notin> consumed g'"
    then have "(t, e) \<in> set (w_exceptions w)" using w all True st(2) by (auto simp: wait_ok_def group_close_def)
    then show "e \<in> reported (fst ?q)" by (rule group_result_reported [OF that])
  qed
  ultimately show ?thesis using st by (auto simp: group_close_def)
qed

lemma stage_ok_mono:
  assumes "stage_ok g f c b hit st" and "\<And>t. t_done (hosts c t) \<Longrightarrow> t_done (hosts c' t) \<and> f' t = f t"
    and "children g' = children g" and "exited g' = exited g" and "consumed g \<subseteq> consumed g'"
  shows "stage_ok g' f' c' b hit st"
proof (cases st)
  case (G_wait exc w)
  then show ?thesis using assms by (fastforce simp: wait_ok_def)
next
  case (G_drain e ts)
  then show ?thesis using assms by (auto simp: unfinished_def)
next
  case (G_over r)
  have "all_done g c \<Longrightarrow> all_done g' c'" using assms(2,3) by (simp add: all_done_def)
  moreover have "all_done g c \<Longrightarrow> all_reported g f r \<Longrightarrow> all_reported g' f' r"
    using assms(2,3,5) unfolding all_done_def all_reported_def by (metis subset_iff)
  ultimately show ?thesis using assms(1,4) G_over by auto
qed (use assms in simp)

lemma group_drained_ok:
  assumes "group_drained e ts g c = (st, g', c')" and "exited g" and "unfinished g c \<subseteq> ts"
  shows "stage_ok g' f c' b True st"
proof -
  have "all_done g c" if "{t \<in> ts. \<not> t_done (hosts c t)} = {}" using that assms(3) by (auto simp: all_done_def unfinished_def)
  then show ?thesis using assms
    by (auto simp: group_drained_def Let_def unfinished_def group_close_def all_done_def split: if_splits)
qed

lemma tg_inv_step:
  assumes inv: "tg_inv n" and st: "tg_step h sh n n'"
  shows "tg_inv n'"
  using st
proof cases
  case (tg_spawn l t r g c)
  have ok: "stage_ok (grp n) (fin n) (cst n) (block_exc n) (was_hit n) (stg n)" using inv by (simp add: tg_inv_def)
  show ?thesis
  proof (cases "exited (grp n) \<or> g_loop (grp n) \<noteq> None \<and> g_loop (grp n) \<noteq> Some l")
    case True
    then have "g = grp n" "\<And>u. t_done (hosts c u) = t_done (hosts (cst n) u)" using tg_spawn(2) by (auto simp: group_spawn_def split: if_splits)
    with tg_spawn(1) show ?thesis using stage_ok_mono [OF ok, of c "fin n" g] by (simp add: tg_inv_def)
  next
    case False
    then have "g = grp n\<lparr>children := children (grp n) @ [t]\<rparr>" "c = cst n" using tg_spawn(2) by (auto simp: group_spawn_def split: if_splits)
    with False ok tg_spawn(1) show ?thesis by (cases "stg n") (auto simp: tg_inv_def wait_ok_def)
  qed
next
  case (tg_started called exc t r g c)
  have ok: "stage_ok (grp n) (fin n) (cst n) (block_exc n) (was_hit n) (stg n)" using inv by (simp add: tg_inv_def)
  have "children g = children (grp n)" "exited g = exited (grp n)" "consumed (grp n) \<subseteq> consumed g"
    "\<And>u. t_done (hosts c u) = t_done (hosts (cst n) u)"
    using tg_started(2) by (auto simp: group_started_def split: if_splits option.splits)
  with tg_started(1) show ?thesis using stage_ok_mono [OF ok, of c "fin n" g] by (simp add: tg_inv_def)
next
  case (tg_finish t e)
  have ok: "stage_ok (grp n) (fin n) (cst n) (block_exc n) (was_hit n) (stg n)" using inv by (simp add: tg_inv_def)
  have "stage_ok (grp n) ((fin n)(t := e)) (upd_host t (\<lambda>h. h\<lparr>t_done := True\<rparr>) (cst n)) (block_exc n) (was_hit n) (stg n)"
    by (rule stage_ok_mono [OF ok]) (use tg_finish(2) in auto)
  then show ?thesis by (simp add: tg_inv_def tg_finish(1))
next
  case (tg_hosts hs)
  have ok: "stage_ok (grp n) (fin n) (cst n) (block_exc n) (was_hit n) (stg n)" using inv by (simp add: tg_inv_def)
  show ?thesis unfolding tg_inv_def tg_hosts(1)
    using stage_ok_mono [OF ok, of "cst n\<lparr>hosts := hs\<rparr>" "fin n" "grp n"] tg_hosts(2) by auto
next
  case (tg_exit order now exc st g c)
  have hit: "\<not> was_hit n" using inv tg_exit(2) by (simp add: tg_inv_def)
  let ?pre = "if exc \<noteq> None then unfinished (grp n) (cst n) else {}"
  let ?c = "snd (scope_aenter (Some h) now sh (cancel_tasks ?pre (cst n)))"
  obtain w1 c1 where 1: "absorb h (grp n) (fin n) order (waiting_new ?pre, ?c) = (w1, c1)"
    by (cases "absorb h (grp n) (fin n) order (waiting_new ?pre, ?c)")
  have "wait_ok (grp n) (fin n) ?c (waiting_new ?pre)" by (simp add: wait_ok_def waiting_new_def)
  from absorb_ok [OF this _ 1] tg_exit(3) have "wait_ok (grp n) (fin n) c1 w1" "set (children (grp n)) \<subseteq> w_processed w1 \<union> w_pending w1"
    by auto
  from group_turn_ok [OF this, of sh exc st g c] tg_exit(4) 1 have "stage_ok g (fin n) c exc False st"
    by (simp add: group_aexit_def Let_def)
  then show ?thesis using tg_exit(1) hit by (simp add: tg_inv_def)
next
  case (tg_wake exc w ds order st g c)
  have ok: "wait_ok (grp n) (fin n) (cst n) w" "exc = block_exc n" "\<not> was_hit n" using inv tg_wake(2) by (auto simp: tg_inv_def)
  obtain w1 c1 where 1: "collect_done h (grp n) (fin n) ds (w, cst n) = (w1, c1)"
    by (cases "collect_done h (grp n) (fin n) ds (w, cst n)")
  obtain w2 c2 where 2: "absorb h (grp n) (fin n) order (w1, c1) = (w2, c2)" by (cases "absorb h (grp n) (fin n) order (w1, c1)")
  have "set ds \<subseteq> set (children (grp n))" "\<And>t. t \<in> set ds \<Longrightarrow> t_done (hosts (cst n) t)" using ok(1) tg_wake(3) by (auto simp: wait_ok_def)
  then have "wait_ok (grp n) (fin n) c1 w1" using collect_done_ok [OF ok(1) _ _ 1] by blast
  from absorb_ok [OF this _ 2] tg_wake(5) have "wait_ok (grp n) (fin n) c2 w2" "set (children (grp n)) \<subseteq> w_processed w2 \<union> w_pending w2"
    by auto
  from group_turn_ok [OF this, of sh exc st g c] tg_wake(6) 1 2 have "stage_ok g (fin n) c exc False st"
    by (simp add: group_woken_def)
  then show ?thesis using tg_wake(1) ok by (simp add: tg_inv_def)
next
  case (tg_hit exc w e st g c)
  let ?c = "snd (scope_aexit (Some e) sh (cst n))" and ?g = "grp n\<lparr>exited := True\<rparr>"
  have "group_drained e (unfinished ?g ?c) ?g (cancel_tasks (unfinished ?g ?c) ?c) = (st, g, c)"
    using tg_hit(3) by (simp add: group_interrupted_def Let_def)
  then have "stage_ok g (fin n) c (block_exc n) True st" by (rule group_drained_ok) (simp_all add: unfinished_def)
  then show ?thesis using tg_hit(1) by (simp add: tg_inv_def)
next
  case (tg_drain e ts st g c)
  have ok: "exited (grp n)" "was_hit n" "unfinished (grp n) (cst n) \<subseteq> ts" using inv tg_drain(2) by (auto simp: tg_inv_def)
  from group_drained_ok [OF tg_drain(4) ok(1,3)] show ?thesis using tg_drain(1) ok(2) by (simp add: tg_inv_def)
qed

interpretation nurseries: invariant_system tg_start "tg_step h sh" tg_inv for h sh
  by unfold_locales (simp add: tg_start_def tg_inv_def, rule tg_inv_step)

section \<open>Properties\<close>

text \<open>
  C9: Structured concurrency: when the \<open>async with\<close> of a group is over, however its block ended
  and whatever interrupted the wait, every child is finished, and the group takes no new one.
\<close>

theorem group_structured:
  assumes "tg_start n0" and "reach (tg_step h sh) n0 n" and "stg n = G_over r"
  shows "(\<forall>t \<in> set (children (grp n)). t_done (hosts (cst n) t)) \<and>
    (\<exists>e c. group_spawn l t (grp n) (cst n) = (Some e, grp n, c))"
proof -
  have "stage_ok (grp n) (fin n) (cst n) (block_exc n) (was_hit n) (G_over r)"
    using nurseries.inv_reach [OF assms(2,1)] assms(3) by (simp add: tg_inv_def)
  then show ?thesis by (simp add: all_done_def group_spawn_def)
qed

text \<open>
  No failure is lost: a group that was not interrupted while it waited, and whose block was
  not cancelled, ends with every exception of its children (cancellations and those \<open>start\<close> has
  raised apart) among the ones it raises.
\<close>

theorem group_failures_reported:
  assumes "tg_start n0" and "reach (tg_step h sh) n0 n" and "stg n = G_over r"
    and "\<not> was_hit n" and "block_exc n \<noteq> Some CancelledError"
    and "t \<in> set (children (grp n))" and "fin n t = Some e" and "e \<noteq> CancelledError" and "t \<notin> consumed (grp n)"
  shows "e \<in> reported r"
proof -
  have "stage_ok (grp n) (fin n) (cst n) (block_exc n) (was_hit n) (G_over r)"
    using nurseries.inv_reach [OF assms(2,1)] assms(3) by (simp add: tg_inv_def)
  then have "all_reported (grp n) (fin n) r" using assms(4,5) by simp
  then show ?thesis using assms(6-9) unfolding all_reported_def by blast
qed

lemma absorb_pending:
  "absorb h g f ts (w, c) = (w', c') \<Longrightarrow> w_pending w' \<subseteq> w_pending w \<union> {t \<in> set ts. \<not> t_done (hosts c t)}"
  unfolding absorb_def
proof (induction ts arbitrary: w c)
  case (Cons t ts)
  obtain w1 c1 where 1: "absorb_one h g f t (w, c) = (w1, c1)" by (cases "absorb_one h g f t (w, c)")
  have "w_pending w1 \<subseteq> w_pending w \<union> {u \<in> {t}. \<not> t_done (hosts c u)}" "\<And>u. t_done (hosts c1 u) = t_done (hosts c u)"
    using 1 by (auto simp: absorb_one_def case_prod_beta split: if_splits)
  moreover have "fold (absorb_one h g f) ts (w1, c1) = (w', c')" using Cons.prems 1 by simp
  ultimately show ?case using Cons.IH [of w1 c1] by auto
qed simp

text \<open>
  C10: The wait terminates: whenever it wakes, the number of children not yet processed has gone
  down, so it wakes at most once per child; and when all children are finished it is over.
\<close>

theorem group_wait_terminates:
  assumes "tg_start n0" and "reach (tg_step h sh) n0 n" and "stg n = G_wait exc w"
    and "set ds = {t \<in> w_pending w. t_done (hosts (cst n) t)}" and "ds \<noteq> []" and "set order = set (children (grp n))"
    and "group_woken h sh ds order exc (fin n) w (grp n) (cst n) = (st, g, c)"
  shows "(case st of
      G_wait _ w' \<Rightarrow> card (set (children g) - w_processed w') < card (set (children (grp n)) - w_processed w) \<and>
        (\<exists>t \<in> set (children g). \<not> t_done (hosts c t))
    | G_over _ \<Rightarrow> True | _ \<Rightarrow> False)"
proof -
  have "stage_ok (grp n) (fin n) (cst n) (block_exc n) (was_hit n) (G_wait exc w)"
    using nurseries.inv_reach [OF assms(2,1)] assms(3) by (simp add: tg_inv_def)
  then have ok: "wait_ok (grp n) (fin n) (cst n) w" by simp
  obtain w1 c1 where 1: "collect_done h (grp n) (fin n) ds (w, cst n) = (w1, c1)"
    by (cases "collect_done h (grp n) (fin n) ds (w, cst n)")
  obtain w2 c2 where 2: "absorb h (grp n) (fin n) order (w1, c1) = (w2, c2)" by (cases "absorb h (grp n) (fin n) order (w1, c1)")
  have ds: "set ds \<subseteq> set (children (grp n))" "\<And>t. t \<in> set ds \<Longrightarrow> t_done (hosts (cst n) t)" using ok assms(4) by (auto simp: wait_ok_def)
  note cd = collect_done_ok [OF ok ds 1]
  then have ok1: "wait_ok (grp n) (fin n) c1 w1" and p1: "w_processed w1 = w_processed w \<union> set ds"
    "w_pending w1 = w_pending w - set ds" and d1: "\<forall>u. t_done (hosts c1 u) = t_done (hosts (cst n) u)" by blast+
  from absorb_ok [OF ok1 _ 2] assms(6) have p2: "w_processed w1 \<subseteq> w_processed w2" and d2: "\<forall>u. t_done (hosts c2 u) = t_done (hosts c1 u)"
    by simp_all
  show ?thesis
  proof (cases "w_pending w2 = {}")
    case True
    then have "\<exists>r. st = G_over r" using assms(7) 1 2 by (auto simp: group_woken_def group_turn_def Let_def case_prod_beta)
    then show ?thesis by auto
  next
    case False
    then have st: "st = G_wait exc w2" "g = grp n" "c = c2" using assms(7) 1 2 by (auto simp: group_woken_def group_turn_def)
    obtain t where t: "t \<in> set ds" using assms(5) by (cases ds) auto
    then have "t \<notin> w_processed w" "t \<in> w_processed w2" "w_processed w \<subseteq> w_processed w2" "t \<in> set (children (grp n))"
      using ok assms(4) ds(1) p1(1) p2 by (auto simp: wait_ok_def)
    then have "set (children (grp n)) - w_processed w2 \<subset> set (children (grp n)) - w_processed w" by blast
    then have "card (set (children (grp n)) - w_processed w2) < card (set (children (grp n)) - w_processed w)"
      by (rule psubset_card_mono [rotated]) simp
    moreover have "\<exists>t \<in> set (children (grp n)). \<not> t_done (hosts c2 t)"
    proof (rule ccontr)
      assume "\<not> ?thesis"
      then have d: "\<forall>t \<in> set (children (grp n)). t_done (hosts (cst n) t)" using d1 d2 by metis
      then have "w_pending w1 = {}" using p1(2) ok assms(4) by (auto simp: wait_ok_def)
      moreover have "{t \<in> set order. \<not> t_done (hosts c1 t)} = {}" using d d1 assms(6) by auto
      ultimately show False using absorb_pending [OF 2] False by auto
    qed
    ultimately show ?thesis using st by simp
  qed
qed

text \<open>
  The first failure cancels the siblings and nothing else: every child waited for that is
  not finished gets one more cancellation request, the group's scope is cancelled, and the
  request this puts on the host is taken back.
\<close>

theorem group_cancels_siblings:
  assumes "c_task (scopes c (g_scope g)) = Some h" and "\<not> cancel_called (scopes c (g_scope g))"
    and "\<not> injected (scopes c (g_scope g))" and "h \<notin> w_pending w"
    and "cancel_siblings h g (w, c) = (w', c')"
  shows "w_pending w \<subseteq> w_by_scope w' \<and> w_cancelled w' \<and> cancel_called (scopes c' (g_scope g)) \<and>
    \<not> injected (scopes c' (g_scope g)) \<and> t_cancelling (hosts c' h) = t_cancelling (hosts c h) \<and>
    (\<forall>t. t \<noteq> h \<longrightarrow> t_cancelling (hosts c' t) =
       t_cancelling (hosts c t) + (if t \<in> w_pending w \<and> \<not> t_done (hosts c t) then 1 else 0))"
proof -
  let ?c = "cancel_tasks (w_pending w) c"
  have h: "hosts ?c h = hosts c h" using assms(4) by (simp add: cancel_tasks_def)
  show ?thesis using assms h
    by (cases "t_done (hosts c h)")
      (auto simp: cancel_siblings_def take_injected_def scope_cancel_def scope_deliver_def Let_def case_prod_beta cancel_tasks_def)
qed

text \<open>
  A group interrupted while it waits leaves its scope behind: whereas a wait that ends puts
  the scope stack back, an interrupted one raises with the group's scope still on the stack of
  the host; and if a child had failed, so that the scope is cancelled, every later checkpoint of
  the host raises \<open>CancelledError\<close>.
\<close>

theorem group_scope_left:
  assumes "stack c = st @ [g_scope g, sh]" and "g_scope g \<noteq> sh" and "g_scope g \<notin> set st"
  shows "(w_pending w = {} \<longrightarrow> stack (snd (snd (group_turn sh exc g (w, c)))) = st) \<and>
    stack (snd (snd (group_interrupted sh e g c))) = st @ [g_scope g] \<and>
    (cancel_called (scopes c (g_scope g)) \<longrightarrow>
       fst (checkpoint cur (snd (snd (group_interrupted sh e g c)))) = Some CancelledError)"
proof -
  have pop: "pop_scope sh (st @ [g_scope g, sh]) = st @ [g_scope g]" using pop_scope_push [of sh "st @ [g_scope g]"] by simp
  have ex: "stack (snd (scope_aexit x i d)) = pop_scope i (stack d)" for x i d
    by (simp add: scope_aexit_def uncancel_injected_def Let_def case_prod_beta split: option.splits)
  have sc: "stack (snd (scope_cancel b i d)) = stack d" for b i d
    by (simp add: scope_cancel_def scope_deliver_def Let_def case_prod_beta split: option.splits)
  have called: "cancel_called (scopes (snd (scope_aexit x sh c)) (g_scope g)) = cancel_called (scopes c (g_scope g))" for x
    by (auto simp: scope_aexit_def uncancel_injected_def Let_def split: option.splits if_splits)
  have 1: "w_pending w = {} \<longrightarrow> stack (snd (snd (group_turn sh exc g (w, c)))) = st"
    by (auto simp: group_turn_def group_result_def Let_def case_prod_beta ex sc assms(1) pop)
  have 2: "stack (snd (snd (group_interrupted sh e g c))) = st @ [g_scope g]"
    by (simp add: group_interrupted_def group_drained_def Let_def ex assms(1) pop)
  have 3: "cancel_called (scopes (snd (snd (group_interrupted sh e g c))) (g_scope g)) = cancel_called (scopes c (g_scope g))"
    by (simp add: group_interrupted_def group_drained_def Let_def called)
  have 4: "fst (checkpoint cur d) = Some CancelledError" if "stack d = st @ [g_scope g]" "cancel_called (scopes d (g_scope g))" for d
    using that by (simp add: checkpoint_def effectively_cancelled_def)
  from 1 2 3 4 [of "snd (snd (group_interrupted sh e g c))"] show ?thesis by blast
qed

section \<open>A run\<close>

definition group_scopes :: cstate where
  "group_scopes = \<lparr>scopes = (\<lambda>_. plain_scope)(1 := plain_scope\<lparr>c_task := Some 0\<rparr>, 2 := plain_scope\<lparr>shield := True\<rparr>),
     hosts = (\<lambda>_. idle_host), stack = [1]\<rparr>"

definition nursery0 :: nursery where
  "nursery0 = \<lparr>grp = (group_new 1)\<lparr>g_loop := Some 0, children := [5]\<rparr>, cst = group_scopes, fin = (\<lambda>_. None),
     stg = G_body, block_exc = None, was_hit = False\<rparr>"

lemma nursery_waits:
  "\<exists>n w. reach (tg_step 0 2) nursery0 n \<and> stg n = G_wait None w \<and> w_pending w = {5} \<and> w_processed w = {} \<and>
     w_exceptions w = [] \<and> \<not> w_cancelled w \<and> grp n = grp nursery0 \<and> fin n = (\<lambda>_. None) \<and> block_exc n = None \<and> \<not> was_hit n \<and>
     \<not> t_done (hosts (cst n) 5)"
proof -
  let ?q = "group_aexit 0 0 2 [5] None (fin nursery0) (grp nursery0) (cst nursery0)"
  let ?n = "nursery0\<lparr>grp := fst (snd ?q), cst := snd (snd ?q), stg := fst ?q, block_exc := None\<rparr>"
  have "tg_step 0 2 nursery0 ?n"
    by (rule tg_step.tg_exit [where order = "[5]"]) (simp_all add: nursery0_def group_new_def)
  then have r: "reach (tg_step 0 2) nursery0 ?n" by (rule reach_one)
  let ?c = "snd (scope_aenter (Some 0) 0 2 (cancel_tasks {} (cst nursery0)))"
  have d: "\<not> t_done (hosts ?c 5)" by (simp add: nursery0_def group_scopes_def idle_host_def)
  then have "?q = (G_wait None ((waiting_new {})\<lparr>w_pending := {5}\<rparr>), grp nursery0, ?c)"
    by (simp add: group_aexit_def absorb_def absorb_one_def group_turn_def waiting_new_def Let_def)
  then have q: "fst ?q = G_wait None ((waiting_new {})\<lparr>w_pending := {5}\<rparr>)" "fst (snd ?q) = grp nursery0" "snd (snd ?q) = ?c"
    by simp_all
  show ?thesis
    by (rule exI [of _ ?n], rule exI [of _ "(waiting_new {})\<lparr>w_pending := {5}\<rparr>"], intro conjI)
      (use r q d in \<open>simp_all add: waiting_new_def nursery0_def\<close>)
qed

text \<open>The child fails, the host wakes, and the group is over.\<close>

lemma nursery_over:
  "\<exists>n r. reach (tg_step 0 2) nursery0 n \<and> stg n = G_over r \<and> \<not> was_hit n \<and> block_exc n = None \<and>
     children (grp n) = [5] \<and> fin n 5 = Some (ValueError ''x'') \<and> consumed (grp n) = {}"
proof -
  obtain n w where n: "reach (tg_step 0 2) nursery0 n" "stg n = G_wait None w" "w_pending w = {5}" "grp n = grp nursery0"
    "block_exc n = None" "\<not> was_hit n" "\<not> t_done (hosts (cst n) 5)"
    using nursery_waits by blast
  let ?n1 = "n\<lparr>cst := upd_host 5 (\<lambda>h. h\<lparr>t_done := True\<rparr>) (cst n), fin := (fin n)(5 := Some (ValueError ''x''))\<rparr>"
  let ?q = "group_woken 0 2 [5] [5] None (fin ?n1) w (grp ?n1) (cst ?n1)"
  let ?n2 = "?n1\<lparr>grp := fst (snd ?q), cst := snd (snd ?q), stg := fst ?q\<rparr>"
  have c: "children (grp n) = [5]" "consumed (grp n) = {}" using n(4) by (simp_all add: nursery0_def group_new_def)
  have "tg_step 0 2 n ?n1" by (rule tg_step.tg_finish [OF n(7)])
  with n(1) have r1: "reach (tg_step 0 2) nursery0 ?n1" by (rule reach_step)
  have "tg_step 0 2 ?n1 ?n2"
    by (rule tg_step.tg_wake [where exc = None and w = w and ds = "[5]" and order = "[5]"]) (use n c in auto)
  with r1 have r2: "reach (tg_step 0 2) nursery0 ?n2" by (rule reach_step)
  obtain w1 c1 where 0: "collect_done 0 (grp n) (fin ?n1) [5] (w, cst ?n1) = (w1, c1)" by (metis surj_pair)
  have "w_pending w1 = {}" "5 \<in> w_processed w1"
    using collect_one_sets [of 0 "grp n" "fin ?n1" 5 "(w\<lparr>w_pending := {}, w_processed := insert 5 (w_processed w)\<rparr>, cst ?n1)"] 0 n(3)
    by (simp_all del: collect_one_sets add: collect_done_def)
  note 1 = 0 this
  have "absorb 0 (grp n) (fin ?n1) [5] (w1, c1) = (w1, c1)" using 1(3) by (simp add: absorb_def absorb_one_def)
  with 1 have "fst ?q = G_over (fst (group_result None (w_exceptions w1) (grp n) (snd (scope_aexit None 2 c1))))"
    "fst (snd ?q) = group_close (grp n)"
    by (simp_all add: group_woken_def group_turn_def Let_def case_prod_beta)
  with r2 n(5,6) c show ?thesis by (intro exI [of _ ?n2]) (auto simp: group_close_def)
qed

lemma nursery0_start: "tg_start nursery0"
  by (simp add: tg_start_def nursery0_def)

theorem group_structured_witness:
  "\<exists>n r. reach (tg_step 0 2) nursery0 n \<and> stg n = G_over r \<and> t_done (hosts (cst n) 5)"
proof -
  obtain n r where n: "reach (tg_step 0 2) nursery0 n" "stg n = G_over r" "children (grp n) = [5]" using nursery_over by blast
  from group_structured [OF nursery0_start n(1,2), of 0 9] n(3) have "t_done (hosts (cst n) 5)" by simp
  with n show ?thesis by blast
qed

theorem group_failures_reported_witness:
  "\<exists>n r. reach (tg_step 0 2) nursery0 n \<and> stg n = G_over r \<and> ValueError ''x'' \<in> reported r"
proof -
  obtain n r where n: "reach (tg_step 0 2) nursery0 n" "stg n = G_over r" "\<not> was_hit n" "block_exc n = None"
    "children (grp n) = [5]" "fin n 5 = Some (ValueError ''x'')" "consumed (grp n) = {}"
    using nursery_over by blast
  from group_failures_reported [OF nursery0_start n(1,2,3), of 5 "ValueError ''x''"] n have "ValueError ''x'' \<in> reported r" by simp
  with n show ?thesis by blast
qed

theorem group_wait_terminates_witness:
  "\<exists>n w st. reach (tg_step 0 2) nursery0 n \<and> stg n = G_wait None w \<and>
     fst (group_woken 0 2 [5] [5] None (fin n) w (grp n) (cst n)) = st \<and> (\<exists>r. st = G_over r)"
proof -
  obtain n w where n: "reach (tg_step 0 2) nursery0 n" "stg n = G_wait None w" "w_pending w = {5}" "grp n = grp nursery0"
    "\<not> t_done (hosts (cst n) 5)"
    using nursery_waits by blast
  let ?n1 = "n\<lparr>cst := upd_host 5 (\<lambda>h. h\<lparr>t_done := True\<rparr>) (cst n), fin := (fin n)(5 := None)\<rparr>"
  have r: "reach (tg_step 0 2) nursery0 ?n1" using n(1) tg_step.tg_finish [OF n(5)] by (rule reach_step)
  have c: "children (grp ?n1) = [5]" using n(4) by (simp add: nursery0_def group_new_def)
  obtain st g c where q: "group_woken 0 2 [5] [5] None (fin ?n1) w (grp ?n1) (cst ?n1) = (st, g, c)" by (metis surj_pair)
  have ds: "set [5] = {t \<in> w_pending w. t_done (hosts (cst ?n1) t)}" using n(3) by auto
  have w: "stg ?n1 = G_wait None w" using n(2) by simp
  have ord: "set [5] = set (children (grp ?n1))" using c by simp
  have "tg_step 0 2 ?n1 (?n1\<lparr>grp := g, cst := c, stg := st\<rparr>)" by (rule tg_step.tg_wake [OF w ds _ ord q]) simp
  from group_wait_terminates [OF nursery0_start r w ds _ ord q]
  have t: "case st of G_wait _ w' \<Rightarrow> card (set (children g) - w_processed w') < card (set (children (grp ?n1)) - w_processed w) \<and>
        (\<exists>t \<in> set (children g). \<not> t_done (hosts c t)) | G_over _ \<Rightarrow> True | _ \<Rightarrow> False" by simp
  have "\<nexists>exc w'. st = G_wait exc w'"
  proof
    assume "\<exists>exc w'. st = G_wait exc w'"
    then obtain exc w' where st: "st = G_wait exc w'" by blast
    have "g = grp ?n1" "\<And>t. t_done (hosts c t) = t_done (hosts (cst ?n1) t)"
      using q st n(3) by (auto simp: group_woken_def group_turn_def collect_done_def absorb_def Let_def case_prod_beta absorb_one_def split: if_splits)
    with t st c show False by auto
  qed
  with t have "\<exists>r. st = G_over r" by (cases st) auto
  with r w q show ?thesis by (metis fst_conv)
qed

theorem group_cancels_siblings_witness:
  "t_cancelling (hosts (snd (cancel_siblings 0 (group_new 1) (waiting_new {}\<lparr>w_pending := {6}\<rparr>, group_scopes))) 6) = 1"
  using group_cancels_siblings [of group_scopes "group_new 1" 0 "waiting_new {}\<lparr>w_pending := {6}\<rparr>", OF _ _ _ _ surjective_pairing]
  by (simp add: group_scopes_def group_new_def plain_scope_def idle_host_def)

theorem group_scope_left_witness:
  "stack (snd (snd (group_interrupted 2 CancelledError (group_new 1) (group_scopes\<lparr>stack := [1, 2]\<rparr>)))) = [1]"
  using group_scope_left [of "group_scopes\<lparr>stack := [1, 2]\<rparr>" "[]" "group_new 1" 2] by (simp add: group_new_def)

end
