(* ===== verification/HttpWire.thy ===== *)
theory HttpWire
  imports WsgiServe
begin

text \<open>
  \<open>FastHttpConnection\<close> of \<open>http.rs\<close> for HTTP/1.1: the framing of a request from its headers,
  the states of a request body, and the serialization of responses.  The parser of the crate
  \<open>httparse\<close> is a parameter.  Proved: which requests are accepted, and that a body arrives
  whatever its segmentation.
\<close>

section \<open>Numbers and text in headers\<close>

text \<open>\<open>str::trim\<close>, \<open>usize::from_str\<close>, \<open>usize::from_str_radix(_, 16)\<close> on decoded text.\<close>

definition uni_space :: "nat \<Rightarrow> bool" where
  "uni_space c \<longleftrightarrow> 9 \<le> c \<and> c \<le> 13 \<or> c \<in> {32, 0x85, 0xA0, 0x1680, 0x2028, 0x2029, 0x202F, 0x205F, 0x3000} \<or>
     0x2000 \<le> c \<and> c \<le> 0x200A"

definition rs_trim :: "pystr \<Rightarrow> pystr" where
  "rs_trim s = rev (dropWhile uni_space (rev (dropWhile uni_space s)))"

definition digit_value :: "nat \<Rightarrow> nat \<Rightarrow> nat option" where
  "digit_value base c =
     (let d = (if 48 \<le> c \<and> c \<le> 57 then c - 48 else if 65 \<le> c \<and> c \<le> 90 then c - 55
               else if 97 \<le> c \<and> c \<le> 122 then c - 87 else 99)
      in if d < base then Some d else None)"

fun radix_value :: "nat \<Rightarrow> pystr \<Rightarrow> nat \<Rightarrow> nat option" where
  "radix_value base [] acc = Some acc"
| "radix_value base (c # cs) acc =
     (case digit_value base c of
        None \<Rightarrow> None
      | Some d \<Rightarrow> if acc * base + d < 2 ^ 64 then radix_value base cs (acc * base + d) else None)"

definition usize_parse :: "nat \<Rightarrow> pystr \<Rightarrow> nat option" where
  "usize_parse base s =
     (let ds = (if s \<noteq> [] \<and> hd s = 43 then tl s else s)
      in if ds = [] then None else radix_value base ds 0)"

text \<open>\<open>val as isize\<close>\<close>

definition as_isize :: "nat \<Rightarrow> int" where
  "as_isize n = (if n < 2 ^ 63 then int n else int n - 2 ^ 64)"

definition ascii_lower :: "byte list \<Rightarrow> byte list" where
  "ascii_lower s = map (\<lambda>b. if 65 \<le> b \<and> b \<le> 90 then b + 32 else b) s"

fun splits :: "nat \<Rightarrow> pystr \<Rightarrow> pystr \<Rightarrow> pystr list" where
  "splits c w [] = [w]"
| "splits c w (x # xs) = (if x = c then w # splits c [] xs else splits c (w @ [x]) xs)"

section \<open>The framing of a request\<close>

record framing =
  f_length :: int
  f_has_length :: bool
  f_chunked :: bool
  f_te_count :: nat
  f_conflict :: bool
  f_keep_alive :: bool
  f_upgrade :: bool
  f_proto :: "byte list"

definition framing_new :: "nat \<Rightarrow> framing" where
  "framing_new minor = \<lparr>f_length = -1, f_has_length = False, f_chunked = False, f_te_count = 0, f_conflict = False,
     f_keep_alive = (minor = 1), f_upgrade = False, f_proto = []\<rparr>"

definition frame_length :: "byte list \<Rightarrow> framing \<Rightarrow> framing" where
  "frame_length v f =
     (case utf8_decode v of
        None \<Rightarrow> f\<lparr>f_conflict := True\<rparr>
      | Some s \<Rightarrow>
          (case usize_parse 10 (rs_trim s) of
             None \<Rightarrow> f\<lparr>f_conflict := True\<rparr>
           | Some n \<Rightarrow>
               if f_has_length f \<and> as_isize n \<noteq> f_length f then f\<lparr>f_conflict := True\<rparr>
               else f\<lparr>f_length := as_isize n, f_has_length := True\<rparr>))"

definition codings :: "pystr \<Rightarrow> pystr list" where
  "codings s = filter (\<lambda>t. t \<noteq> []) (map rs_trim (splits 44 [] s))"

definition is_chunked_name :: "pystr \<Rightarrow> bool" where
  "is_chunked_name s \<longleftrightarrow> map (\<lambda>c. if 65 \<le> c \<and> c \<le> 90 then c + 32 else c) s = map of_char ''chunked''"

definition frame_coding :: "byte list \<Rightarrow> framing \<Rightarrow> framing" where
  "frame_coding v f =
     (let f = f\<lparr>f_te_count := f_te_count f + 1\<rparr>
      in case utf8_decode v of
           None \<Rightarrow> f\<lparr>f_conflict := True\<rparr>
         | Some s \<Rightarrow>
             if codings s \<noteq> [] \<and> is_chunked_name (last (codings s)) then f\<lparr>f_chunked := True\<rparr>
             else f\<lparr>f_conflict := True\<rparr>)"

definition frame_connection :: "byte list \<Rightarrow> framing \<Rightarrow> framing" where
  "frame_connection v f =
     (let l = ascii_lower v;
          f = (if infix_of (ascii ''close'') l then f\<lparr>f_keep_alive := False\<rparr>
               else if infix_of (ascii ''keep-alive'') l then f\<lparr>f_keep_alive := True\<rparr> else f)
      in if infix_of (ascii ''upgrade'') l then f\<lparr>f_upgrade := True\<rparr> else f)"

definition frame_header :: "byte list \<times> byte list \<Rightarrow> framing \<Rightarrow> framing" where
  "frame_header kv f =
     (let (k, v) = kv; name = ascii_lower k
      in if k = [] then f
         else if name = ascii ''content-length'' then frame_length v f
         else if name = ascii ''transfer-encoding'' then frame_coding v f
         else if name = ascii ''connection'' then frame_connection v f
         else if name = ascii ''upgrade'' then f\<lparr>f_proto := ascii_lower v\<rparr>
         else f)"

definition framing_of :: "nat \<Rightarrow> headers \<Rightarrow> framing" where
  "framing_of minor hs = fold frame_header hs (framing_new minor)"

section \<open>The connection\<close>

datatype cstage = Reading_size | Reading_data nat | Reading_trailers

datatype pstate = Waiting_header | Receiving nat | Receiving_chunked cstage | Serving_app | Keep_alive_wait | P_closed

text \<open>\<open>unread\<close> is the buffer from the cursor on; \<open>compact\<close> drops what is before it.\<close>

record conn =
  unread :: "byte list"
  cursor :: nat
  pstate :: pstate
  max_body :: nat
  max_head :: nat
  request_count :: nat
  max_requests :: nat
  c_keep_alive :: bool
  total_body :: nat

definition conn_new :: "nat \<Rightarrow> nat \<Rightarrow> nat \<Rightarrow> conn" where
  "conn_new b h r = \<lparr>unread = [], cursor = 0, pstate = Waiting_header, max_body = b, max_head = h, request_count = 0,
     max_requests = r, c_keep_alive = True, total_body = 0\<rparr>"

definition advance :: "nat \<Rightarrow> conn \<Rightarrow> conn" where
  "advance n c = c\<lparr>unread := drop n (unread c), cursor := cursor c + n\<rparr>"

definition compact_buffer :: "conn \<Rightarrow> conn" where
  "compact_buffer c =
     (if unread c = [] then c\<lparr>cursor := 0\<rparr>
      else if cursor c \<ge> 64 * 1024 \<and> cursor c \<ge> (cursor c + length (unread c)) div 2 then c\<lparr>cursor := 0\<rparr>
      else c)"

text \<open>What \<open>httparse\<close> returns: the request and the length of its head.\<close>

record head =
  hd_method :: "byte list"
  hd_target :: "byte list"
  hd_minor :: nat
  hd_headers :: headers

datatype parsed = Partial | Malformed | Complete head nat

type_synonym parser = "byte list \<Rightarrow> parsed"

text \<open>
  The events: the start of a request with its keep-alive, upgrade, protocol and body flags, a
  piece of its body with the flag for more, the upgrade notice, an error with its response.
\<close>

datatype hevent =
    Request_start head bool bool "byte list" bool
  | Body_chunk "byte list" bool
  | Upgraded "byte list"
  | Protocol_error nat "byte list"

definition error_reason :: "nat \<Rightarrow> string" where
  "error_reason st = (if st = 400 then ''Bad Request'' else if st = 413 then ''Payload Too Large''
     else if st = 431 then ''Request Header Fields Too Large'' else ''Internal Server Error'')"

definition emit_error :: "nat \<Rightarrow> string \<Rightarrow> conn \<Rightarrow> hevent list \<times> conn" where
  "emit_error st msg c =
     ([Protocol_error st (ascii ''HTTP/1.1 '' @ decimal st @ ascii '' '' @ ascii (error_reason st) @ crlf @
         ascii ''server: multiloop'' @ crlf @ ascii ''connection: close'' @ crlf @ ascii ''content-length: '' @
         decimal (length (ascii msg)) @ crlf @ crlf @ ascii msg)],
      c\<lparr>pstate := P_closed\<rparr>)"

text \<open>One turn of the loop of \<open>process_events\<close>: it stops, goes on, or panics (a bad slice).\<close>

datatype turned = Stop | Go "hevent list" conn | Panic

definition go :: "hevent list \<times> conn \<Rightarrow> turned" where
  "go ec = Go (fst ec) (snd ec)"

definition turn_head :: "parser \<Rightarrow> conn \<Rightarrow> turned" where
  "turn_head parse c =
     (if unread c = [] then Stop
      else if length (unread c) > max_head c then go (emit_error 431 ''Request Header Fields Too Large'' c)
      else
        (case parse (unread c) of
           Partial \<Rightarrow> Stop
         | Malformed \<Rightarrow> go (emit_error 400 ''Bad Request'' c)
         | Complete h off \<Rightarrow>
             (let c = (advance off c)\<lparr>request_count := request_count c + 1\<rparr>;
                  f = framing_of (hd_minor h) (hd_headers h);
                  start = Request_start h (f_keep_alive f) (f_upgrade f) (f_proto f)
              in if f_conflict f \<or> (f_chunked f \<and> f_has_length f) \<or> (f_te_count f > 1 \<and> \<not> f_chunked f) then
                   go (emit_error 400 ''Bad Request: Conflicting HTTP headers'' c)
                 else if f_upgrade f \<and> f_proto f = ascii ''websocket'' then
                   Go [start False, Upgraded (f_proto f)] (c\<lparr>c_keep_alive := f_keep_alive f, pstate := Serving_app\<rparr>)
                 else if f_chunked f then
                   Go [start True] (c\<lparr>c_keep_alive := f_keep_alive f, pstate := Receiving_chunked Reading_size\<rparr>)
                 else if f_length f > 0 then
                   (let n = nat (f_length f)
                    in if n > max_body c then go (emit_error 413 ''Payload Too Large'' c)
                       else
                         (let c = c\<lparr>c_keep_alive := f_keep_alive f\<rparr>
                          in if length (unread c) \<ge> n then
                               Go [start True, Body_chunk (take n (unread c)) False]
                                 ((advance n c)\<lparr>pstate := Serving_app\<rparr>)
                             else
                               Go (start True # (if unread c \<noteq> [] then [Body_chunk (unread c) True] else []))
                                 ((advance (length (unread c)) c)\<lparr>pstate := Receiving (n - length (unread c))\<rparr>)))
                 else Go [start False] (c\<lparr>c_keep_alive := f_keep_alive f, pstate := Serving_app\<rparr>))))"

definition turn_length :: "nat \<Rightarrow> conn \<Rightarrow> turned" where
  "turn_length remaining c =
     (if unread c = [] then Stop
      else
        (let n = min (length (unread c)) remaining; left = remaining - n
         in Go [Body_chunk (take n (unread c)) (left > 0)]
              ((advance n c)\<lparr>pstate := (if left > 0 then Receiving left else Serving_app)\<rparr>)))"

text \<open>\<open>unread.windows(4).position(|w| w == b"\r\n\r\n")\<close>\<close>

fun find_blank :: "byte list \<Rightarrow> nat option" where
  "find_blank [] = None"
| "find_blank (b # bs) = (if take 4 (b # bs) = crlf @ crlf then Some 0 else map_option Suc (find_blank bs))"

text \<open>
  Sizes are \<open>usize\<close>: the sums wrap at \<open>2 ^ 64\<close> in a release build.  With a size of
  \<open>2 ^ 64 - 1\<close> the slice that is compared with a line break starts one byte before the data, at
  the end of the size line if that is still in the buffer, and outside of it otherwise; with
  \<open>2 ^ 64 - 2\<close> it is that line break, and the slice of the data then ends before it starts.
\<close>

definition turn_size :: "conn \<Rightarrow> turned" where
  "turn_size c =
     (case find_crlf (unread c) of
        None \<Rightarrow> Stop
      | Some pos \<Rightarrow>
          (case utf8_decode (takeWhile (\<lambda>b. b \<noteq> 59) (take pos (unread c))) of
             None \<Rightarrow> go (emit_error 400 ''Invalid chunked encoding'' c)
           | Some s \<Rightarrow>
               (case usize_parse 16 (rs_trim s) of
                  None \<Rightarrow> go (emit_error 400 ''Invalid chunk length'' c)
                | Some n \<Rightarrow>
                    (let c = advance (pos + 2) c
                     in if n = 0 then Go [] (c\<lparr>pstate := Receiving_chunked Reading_trailers\<rparr>)
                        else
                          (let c = c\<lparr>total_body := (total_body c + n) mod 2 ^ 64\<rparr>
                           in if total_body c > max_body c then go (emit_error 413 ''Payload Too Large'' c)
                              else Go [] (c\<lparr>pstate := Receiving_chunked (Reading_data n)\<rparr>))))))"

definition turn_data :: "nat \<Rightarrow> conn \<Rightarrow> turned" where
  "turn_data n c =
     (if length (unread c) < (n + 2) mod 2 ^ 64 then Stop
      else if n = 2 ^ 64 - 2 \<or> n = 2 ^ 64 - 1 \<and> cursor c = 0 then Panic
      else if n = 2 ^ 64 - 1 \<or> take 2 (drop n (unread c)) \<noteq> crlf then go (emit_error 400 ''Malformed chunk boundary'' c)
      else Go [Body_chunk (take n (unread c)) True]
             ((advance (n + 2) c)\<lparr>pstate := Receiving_chunked Reading_size\<rparr>))"

definition turn_trailers :: "conn \<Rightarrow> turned" where
  "turn_trailers c =
     (if take 2 (unread c) = crlf then
        Go [Body_chunk [] False] ((advance 2 c)\<lparr>pstate := Serving_app\<rparr>)
      else
        (case find_blank (unread c) of
           Some pos \<Rightarrow> Go [Body_chunk [] False] ((advance (pos + 4) c)\<lparr>pstate := Serving_app\<rparr>)
         | None \<Rightarrow> Stop))"

definition conn_turn :: "parser \<Rightarrow> conn \<Rightarrow> turned" where
  "conn_turn parse c =
     (case pstate c of
        P_closed \<Rightarrow> Stop
      | Serving_app \<Rightarrow> Stop
      | Waiting_header \<Rightarrow> turn_head parse c
      | Keep_alive_wait \<Rightarrow> turn_head parse c
      | Receiving n \<Rightarrow> turn_length n c
      | Receiving_chunked Reading_size \<Rightarrow> turn_size c
      | Receiving_chunked (Reading_data n) \<Rightarrow> turn_data n c
      | Receiving_chunked Reading_trailers \<Rightarrow> turn_trailers c)"

text \<open>The loop, with fuel; the flag of the result says that it panicked.\<close>

fun conn_loop :: "nat \<Rightarrow> parser \<Rightarrow> conn \<Rightarrow> hevent list \<times> conn \<times> bool" where
  "conn_loop 0 parse c = ([], c, False)"
| "conn_loop (Suc n) parse c =
     (case conn_turn parse c of
        Stop \<Rightarrow> ([], c, False)
      | Panic \<Rightarrow> ([], c, True)
      | Go es c' \<Rightarrow> (let (es', r) = conn_loop n parse c' in (es @ es', r)))"

definition pump_events :: "parser \<Rightarrow> conn \<Rightarrow> hevent list \<times> conn \<times> bool" where
  "pump_events parse c = conn_loop (length (unread c) + 2) parse (compact_buffer c)"

definition feed_data :: "parser \<Rightarrow> byte list \<Rightarrow> conn \<Rightarrow> hevent list \<times> conn \<times> bool" where
  "feed_data parse data c = pump_events parse (c\<lparr>unread := unread c @ data\<rparr>)"

definition reset_for_next_request :: "conn \<Rightarrow> conn" where
  "reset_for_next_request c =
     (if pstate c = Serving_app then
        (let c = c\<lparr>total_body := 0\<rparr>
         in if \<not> c_keep_alive c \<or> request_count c \<ge> max_requests c then c\<lparr>pstate := P_closed\<rparr>
            else c\<lparr>pstate := Keep_alive_wait\<rparr>)
      else c)"

section \<open>The loop ends\<close>

definition conn_ok :: "conn \<Rightarrow> bool" where
  "conn_ok c \<longleftrightarrow> (case pstate c of Receiving n \<Rightarrow> n > 0 | Receiving_chunked (Reading_data n) \<Rightarrow> 0 < n \<and> n < 2 ^ 64 | _ \<Rightarrow> True)"

definition parser_ok :: "parser \<Rightarrow> bool" where
  "parser_ok parse \<longleftrightarrow> (\<forall>u h off. parse u = Complete h off \<longrightarrow> 0 < off)"

definition rank :: "conn \<Rightarrow> nat" where
  "rank c = (if pstate c = P_closed then 1 else length (unread c) + 2)"

lemma advance_simps [simp]:
  "unread (advance n c) = drop n (unread c)" "pstate (advance n c) = pstate c" "max_body (advance n c) = max_body c"
  "total_body (advance n c) = total_body c" "c_keep_alive (advance n c) = c_keep_alive c" "cursor (advance n c) = cursor c + n"
  by (simp_all add: advance_def)

lemma compact_simps [simp]:
  "unread (compact_buffer c) = unread c" "pstate (compact_buffer c) = pstate c" "max_body (compact_buffer c) = max_body c"
  "total_body (compact_buffer c) = total_body c" "c_keep_alive (compact_buffer c) = c_keep_alive c"
  by (simp_all add: compact_buffer_def)

lemma compact_ok [simp]: "conn_ok (compact_buffer c) = conn_ok c" "rank (compact_buffer c) = rank c"
  by (simp_all add: conn_ok_def rank_def)

lemma go_eq [simp]: "go ec = Go es c \<longleftrightarrow> ec = (es, c)" "go ec \<noteq> Stop" "go ec \<noteq> Panic"
  by (cases ec, simp add: go_def)+

lemma emit_error_closed [simp]: "emit_error st msg c = (es, c') \<Longrightarrow> pstate c' = P_closed"
  by (auto simp: emit_error_def)

lemma emit_error_rank: "emit_error st msg c = (es, c') \<Longrightarrow> conn_ok c' \<and> rank c' = 1"
  using emit_error_closed [of st msg c es c'] by (simp add: conn_ok_def rank_def)

lemma radix_value_less: "radix_value base s acc = Some n \<Longrightarrow> acc < 2 ^ 64 \<Longrightarrow> n < 2 ^ 64"
  by (induction base s acc rule: radix_value.induct) (auto split: option.splits if_splits)

lemma usize_parse_less: "usize_parse base s = Some n \<Longrightarrow> n < 2 ^ 64"
  using radix_value_less [of base _ 0 n] by (auto simp: usize_parse_def Let_def split: if_splits)

lemma turn_head_rank:
  assumes "parser_ok parse" and "turn_head parse c = Go es c'"
  shows "conn_ok c' \<and> (pstate c' = P_closed \<or> length (unread c') < length (unread c))"
proof (cases "\<exists>st msg d. emit_error st msg d = (es, c')")
  case True
  then have "pstate c' = P_closed" by (auto dest: emit_error_closed)
  then show ?thesis by (simp add: conn_ok_def)
next
  case False
  with assms(2) obtain h off where p: "parse (unread c) = Complete h off" and ne: "unread c \<noteq> []"
    by (auto simp: turn_head_def split: if_splits parsed.splits)
  have "0 < off" using assms(1) p unfolding parser_ok_def by blast
  then show ?thesis using assms(2) p ne False
    by (auto simp: turn_head_def Let_def conn_ok_def split: if_splits)
qed

lemma turn_rank:
  assumes "parser_ok parse" and "conn_ok c" and "conn_turn parse c = Go es c'"
  shows "conn_ok c' \<and> rank c' < rank c"
proof -
  consider (head) "turn_head parse c = Go es c'" "pstate c \<noteq> P_closed"
    | (len) n where "pstate c = Receiving n" "turn_length n c = Go es c'"
    | (size) "pstate c = Receiving_chunked Reading_size" "turn_size c = Go es c'"
    | (data) n where "pstate c = Receiving_chunked (Reading_data n)" "turn_data n c = Go es c'"
    | (trailers) "pstate c = Receiving_chunked Reading_trailers" "turn_trailers c = Go es c'"
    using assms(3) by (auto simp: conn_turn_def split: pstate.splits cstage.splits)
  then show ?thesis
  proof cases
    case head
    then show ?thesis using turn_head_rank [OF assms(1) head(1)] by (auto simp: rank_def)
  next
    case len
    then show ?thesis using assms(2)
      by (auto simp: turn_length_def rank_def conn_ok_def Let_def split: if_splits)
  next
    case size
    then obtain pos where pos: "find_crlf (unread c) = Some pos" by (auto simp: turn_size_def split: option.splits)
    have less: "length (unread c) - (pos + 2) < length (unread c)" using find_crlf_bound [OF pos] by simp
    show ?thesis
    proof (cases "\<exists>st msg d. emit_error st msg d = (es, c')")
      case True
      then show ?thesis using size by (auto dest: emit_error_rank simp: rank_def)
    next
      case False
      then show ?thesis using size pos less
        by (auto simp: turn_size_def rank_def conn_ok_def Let_def split: if_splits option.splits dest: usize_parse_less)
    qed
  next
    case data
    then have n: "0 < n" "n < 2 ^ 64" using assms(2) by (simp_all add: conn_ok_def)
    show ?thesis
    proof (cases "\<exists>st msg d. emit_error st msg d = (es, c')")
      case True
      then show ?thesis using data by (auto dest: emit_error_rank simp: rank_def)
    next
      case False
      then have less: "n < 2 ^ 64 - 2" using data n by (auto simp: turn_data_def split: if_splits)
      then have "(n + 2) mod 2 ^ 64 = n + 2" by simp
      then show ?thesis using data False less
        by (auto simp: turn_data_def rank_def conn_ok_def split: if_splits)
    qed
  next
    case trailers
    have "take 2 (unread c) = crlf \<Longrightarrow> unread c \<noteq> []" by (auto simp: crlf_def)
    moreover have "find_blank (unread c) = Some pos \<Longrightarrow> unread c \<noteq> []" for pos by auto
    ultimately show ?thesis using trailers
      by (auto simp: turn_trailers_def rank_def conn_ok_def split: if_splits option.splits)
  qed
qed

lemma conn_loop_fuel:
  "parser_ok parse \<Longrightarrow> conn_ok c \<Longrightarrow> rank c \<le> n \<Longrightarrow> rank c \<le> m \<Longrightarrow> conn_loop n parse c = conn_loop m parse c"
proof (induction n parse c arbitrary: m rule: conn_loop.induct)
  case (1 parse c)
  then show ?case by (simp add: rank_def split: if_splits)
next
  case (2 n parse c)
  have "m \<noteq> 0" using 2(5) by (auto simp: rank_def split: if_splits)
  then obtain k where m: "m = Suc k" by (cases m) auto
  show ?case
  proof (cases "conn_turn parse c")
    case (Go es c')
    from turn_rank [OF 2(2,3) Go] have "conn_ok c'" "rank c' \<le> n" "rank c' \<le> k" using 2(4,5) m by auto
    from 2(1) [OF Go 2(2) this] Go show ?thesis by (simp add: m)
  qed (simp_all add: m)
qed

section \<open>Chunk sizes\<close>

lemma hex_digit_unat: "n < 16 \<Longrightarrow> unat (hex_digit n) = (if n < 10 then 48 + n else 55 + n)"
  by (erule less16_cases) (simp add: hex_digit_def)

lemma digit_value_hex: "n < 16 \<Longrightarrow> digit_value 16 (unat (hex_digit n)) = Some n"
  by (auto simp: hex_digit_unat digit_value_def Let_def)

lemma radix_value_hex:
  "n < 2 ^ 64 \<Longrightarrow> radix_value 16 (map unat (hex_upper n) @ bs) 0 = radix_value 16 bs n"
proof (induction n arbitrary: bs rule: hex_upper.induct)
  case (1 n)
  show ?case
  proof (cases "n < 16")
    case True
    then show ?thesis by (simp add: hex_upper.simps [of n] digit_value_hex)
  next
    case False
    have "n div 16 < 2 ^ 64" using 1(2) by simp
    from 1(1) [OF False this, of "unat (hex_digit (n mod 16)) # bs"] False 1(2) show ?thesis
      by (simp add: hex_upper.simps [of n] digit_value_hex)
  qed
qed

lemma hex_upper_unat:
  assumes "c \<in> set (map unat (hex_upper n))"
  shows "c < 0x80" "\<not> uni_space c" "c \<noteq> 43"
proof -
  obtain d where "d < 16" "c = unat (hex_digit d)" using assms set_hex_upper by fastforce
  then show "c < 0x80" "\<not> uni_space c" "c \<noteq> 43" by (auto simp: hex_digit_unat uni_space_def)
qed

lemma utf8_dec_ascii: "\<forall>n \<in> set ns. n < 0x80 \<Longrightarrow> utf8_dec ns = Some ns"
  by (induction ns) simp_all

lemma rs_trim_id:
  assumes "\<forall>c \<in> set s. \<not> uni_space c"
  shows "rs_trim s = s"
proof -
  have "dropWhile uni_space s = s" "dropWhile uni_space (rev s) = rev s"
    using assms by (simp_all add: dropWhile_eq_self_iff hd_rev) (metis last_in_set)
  then show ?thesis by (simp add: rs_trim_def)
qed

lemma size_line_hex:
  assumes "n < 2 ^ 64"
  shows "utf8_decode (takeWhile (\<lambda>b. b \<noteq> 59) (hex_upper n)) = Some (map unat (hex_upper n))"
    and "usize_parse 16 (rs_trim (map unat (hex_upper n))) = Some n"
proof -
  have "\<forall>b \<in> set (hex_upper n). b \<noteq> 59" using hex_upper_chars(1) by blast
  then have t: "takeWhile (\<lambda>b. b \<noteq> 59) (hex_upper n) = hex_upper n" by (simp only: takeWhile_eq_all_conv)
  have "utf8_dec (map unat (hex_upper n)) = Some (map unat (hex_upper n))" using hex_upper_unat(1) by (intro utf8_dec_ascii) blast
  then show "utf8_decode (takeWhile (\<lambda>b. b \<noteq> 59) (hex_upper n)) = Some (map unat (hex_upper n))"
    unfolding t by (simp add: utf8_decode_def)
  have "rs_trim (map unat (hex_upper n)) = map unat (hex_upper n)" using hex_upper_unat(2) by (intro rs_trim_id) blast
  moreover have "hd (map unat (hex_upper n)) \<noteq> 43"
    using hex_upper_ne [of n] by (intro hex_upper_unat(3) [of _ n] hd_in_set) simp
  ultimately show "usize_parse 16 (rs_trim (map unat (hex_upper n))) = Some n"
    using radix_value_hex [OF assms, of "[]"] hex_upper_ne [of n] by (simp add: usize_parse_def)
qed

lemma turn_size_hex:
  assumes "unread c @ fut = hex_upper n @ crlf @ rest" and "n < 2 ^ 64" and "find_crlf (unread c) = Some pos"
  shows "turn_size c =
    (let c = advance (length (hex_upper n) + 2) c
     in if n = 0 then Go [] (c\<lparr>pstate := Receiving_chunked Reading_trailers\<rparr>)
        else
          (let c = c\<lparr>total_body := (total_body c + n) mod 2 ^ 64\<rparr>
           in if total_body c > max_body c then go (emit_error 413 ''Payload Too Large'' c)
              else Go [] (c\<lparr>pstate := Receiving_chunked (Reading_data n)\<rparr>)))"
proof -
  have "13 \<notin> set (hex_upper n)" using hex_upper_chars(1) by blast
  then have pos: "pos = length (hex_upper n)"
    using find_crlf_append [OF assms(3), of fut] find_crlf_line [of "hex_upper n" rest] by (simp add: assms(1))
  have f: "find_crlf (unread c) = Some (length (hex_upper n))" using assms(3) pos by simp
  have "length (hex_upper n) \<le> length (unread c)" using find_crlf_bound [OF assms(3)] pos by simp
  then have "take (length (hex_upper n)) (unread c) = take (length (hex_upper n)) (unread c @ fut)" by simp
  then have t: "take (length (hex_upper n)) (unread c) = hex_upper n" by (simp add: assms(1))
  show ?thesis unfolding turn_size_def f option.case t size_line_hex [OF assms(2)] by simp
qed

section \<open>A body under way\<close>

definition frames :: "byte list list \<Rightarrow> byte list" where
  "frames ds = concat (map chunk_frame ds) @ chunk_end"

text \<open>
  The rest of the body is \<open>body\<close>; its encoding and then \<open>rest\<close> are what is unread and still to come.
\<close>

definition awaits :: "conn \<Rightarrow> byte list \<Rightarrow> byte list \<Rightarrow> byte list \<Rightarrow> bool" where
  "awaits c fut rest body \<longleftrightarrow> max_body c < 2 ^ 63 \<and>
     (case pstate c of
        Receiving n \<Rightarrow> n > 0 \<and> length body = n \<and> unread c @ fut = body @ rest
      | Receiving_chunked Reading_size \<Rightarrow>
          \<exists>ds. (\<forall>d \<in> set ds. d \<noteq> []) \<and> body = concat ds \<and> unread c @ fut = frames ds @ rest \<and>
            total_body c + length body \<le> max_body c
      | Receiving_chunked (Reading_data n) \<Rightarrow>
          \<exists>d ds. n > 0 \<and> length d = n \<and> n \<le> max_body c \<and> (\<forall>d \<in> set ds. d \<noteq> []) \<and> body = d @ concat ds \<and>
            unread c @ fut = d @ crlf @ frames ds @ rest \<and> total_body c + length (concat ds) \<le> max_body c
      | Receiving_chunked Reading_trailers \<Rightarrow> body = [] \<and> unread c @ fut = crlf @ rest
      | Serving_app \<Rightarrow> body = [] \<and> unread c @ fut = rest
      | _ \<Rightarrow> False)"

fun chunk_data :: "hevent \<Rightarrow> byte list" where
  "chunk_data (Body_chunk d m) = d" | "chunk_data _ = []"

fun chunk_more :: "hevent \<Rightarrow> bool list" where
  "chunk_more (Body_chunk d m) = [m]" | "chunk_more _ = []"

definition body_of :: "hevent list \<Rightarrow> byte list" where
  "body_of es = concat (map chunk_data es)"

definition mores :: "hevent list \<Rightarrow> bool list" where
  "mores es = concat (map chunk_more es)"

lemma body_of_simps [simp]:
  "body_of [] = []" "body_of (e # es) = chunk_data e @ body_of es" "body_of (es @ fs) = body_of es @ body_of fs"
  "mores [] = []" "mores (e # es) = chunk_more e @ mores es" "mores (es @ fs) = mores es @ mores fs"
  by (simp_all add: body_of_def mores_def)

text \<open>The flags of the pieces: more follows after each but the one that ends the body.\<close>

definition flagged :: "hevent list \<Rightarrow> conn \<Rightarrow> bool" where
  "flagged es c \<longleftrightarrow> (\<exists>k. mores es = replicate k True @ (if pstate c = Serving_app then [False] else []))"

lemma frames_Cons: "frames (d # ds) = hex_upper (length d) @ crlf @ d @ crlf @ frames ds"
  by (simp add: frames_def chunk_frame_def)

lemma frames_Nil: "frames [] = hex_upper 0 @ crlf @ crlf"
  by (simp add: frames_def chunk_end_def hex_upper.simps hex_digit_def ascii_def)

text \<open>One turn: it makes progress on the body, and stops only for want of bytes or at the end.\<close>

definition progresses :: "conn \<Rightarrow> byte list \<Rightarrow> byte list \<Rightarrow> byte list \<Rightarrow> turned \<Rightarrow> bool" where
  "progresses c fut rest body r \<longleftrightarrow>
     (case r of
        Stop \<Rightarrow> fut = [] \<longrightarrow> pstate c = Serving_app
      | Panic \<Rightarrow> False
      | Go es c' \<Rightarrow> pstate c \<noteq> Serving_app \<and> flagged es c' \<and> (\<exists>b. body = body_of es @ b \<and> awaits c' fut rest b))"

lemma progresses_length:
  assumes "awaits c fut rest body" and "pstate c = Receiving n"
  shows "progresses c fut rest body (turn_length n c)"
proof -
  have a: "n > 0" "length body = n" "unread c @ fut = body @ rest" "max_body c < 2 ^ 63" using assms by (simp_all add: awaits_def)
  show ?thesis
  proof (cases "unread c = []")
    case True
    then show ?thesis using a assms(2) by (auto simp: progresses_def turn_length_def)
  next
    case False
    let ?n = "min (length (unread c)) n"
    have t: "take ?n (unread c) = take ?n body"
      using arg_cong [OF a(3), of "take ?n"] a(2) by simp
    have d: "drop ?n (unread c) @ fut = drop ?n body @ rest"
      using arg_cong [OF a(3), of "drop ?n"] a(2) by simp
    have "body = take ?n body @ drop ?n body" by simp
    with t d a False assms(2) show ?thesis
      by (auto simp: progresses_def turn_length_def awaits_def flagged_def Let_def intro: exI [of _ "Suc 0"] exI [of _ "drop ?n body"])
  qed
qed

lemma progresses_size:
  assumes "awaits c fut rest body" and "pstate c = Receiving_chunked Reading_size"
  shows "progresses c fut rest body (turn_size c)"
proof -
  from assms obtain ds where a: "\<forall>d \<in> set ds. d \<noteq> []" "body = concat ds" "unread c @ fut = frames ds @ rest"
    "total_body c + length body \<le> max_body c" "max_body c < 2 ^ 63" by (auto simp: awaits_def)
  define n where "n = (case ds of [] \<Rightarrow> 0 | d # _ \<Rightarrow> length d)"
  define r where "r = (case ds of [] \<Rightarrow> crlf @ rest | d # ds' \<Rightarrow> d @ crlf @ frames ds' @ rest)"
  have s: "unread c @ fut = hex_upper n @ crlf @ r" using a(3) by (cases ds) (simp_all add: n_def r_def frames_Nil frames_Cons)
  have n: "n \<le> length body" using a(2) by (cases ds) (simp_all add: n_def)
  then have n64: "n < 2 ^ 64" "(total_body c + n) mod 2 ^ 64 = total_body c + n" using a(4,5) by simp_all
  show ?thesis
  proof (cases "find_crlf (unread c)")
    case None
    have "13 \<notin> set (hex_upper n)" using hex_upper_chars(1) by blast
    then have "find_crlf (unread c @ fut) \<noteq> None" using find_crlf_line [of "hex_upper n" r] by (simp add: s)
    with None have "fut \<noteq> []" by auto
    with None show ?thesis by (simp add: progresses_def turn_size_def)
  next
    case (Some pos)
    note t = turn_size_hex [OF s n64(1) Some]
    have pos: "length (hex_upper n) + 2 \<le> length (unread c)"
      using find_crlf_bound [OF Some] find_crlf_append [OF Some, of fut] find_crlf_line [of "hex_upper n" r] hex_upper_chars(1) [of 13 n] s
      by auto
    have d: "drop (length (hex_upper n) + 2) (unread c) @ fut = r"
      using arg_cong [OF s, of "drop (length (hex_upper n) + 2)"] pos by (simp add: crlf_def)
    show ?thesis
    proof (cases ds)
      case Nil
      then show ?thesis using t a d assms(2) by (simp add: n_def r_def progresses_def awaits_def flagged_def)
    next
      case (Cons x ds')
      then have "turn_size c = Go [] ((advance (length (hex_upper n) + 2) c)\<lparr>total_body := total_body c + n, pstate := Receiving_chunked (Reading_data n)\<rparr>)"
        using t a n n64 by (simp add: n_def Let_def)
      moreover have "drop (length (hex_upper n) + 2) (unread c) @ fut = x @ crlf @ frames ds' @ rest" using d Cons by (simp add: r_def)
      ultimately show ?thesis using Cons a assms(2)
        by (simp add: n_def progresses_def awaits_def flagged_def) (intro exI [of _ x] conjI exI [of _ ds'], simp_all)
    qed
  qed
qed

lemma progresses_data:
  assumes "awaits c fut rest body" and "pstate c = Receiving_chunked (Reading_data n)"
  shows "progresses c fut rest body (turn_data n c)"
proof -
  from assms obtain d ds where a: "n > 0" "length d = n" "n \<le> max_body c" "\<forall>d \<in> set ds. d \<noteq> []" "body = d @ concat ds"
    "unread c @ fut = d @ crlf @ frames ds @ rest" "total_body c + length (concat ds) \<le> max_body c" "max_body c < 2 ^ 63"
    by (auto simp: awaits_def)
  then have m: "(n + 2) mod 2 ^ 64 = n + 2" by simp
  show ?thesis
  proof (cases "length (unread c) < n + 2")
    case True
    then have "fut \<noteq> []" using arg_cong [OF a(6), of length] a(2) by (auto simp: crlf_def)
    then show ?thesis using True m by (simp add: progresses_def turn_data_def)
  next
    case False
    have t: "take n (unread c) = d" "take 2 (drop n (unread c)) = crlf" "drop (n + 2) (unread c) @ fut = frames ds @ rest"
      using arg_cong [OF a(6), of "take n"] arg_cong [OF a(6), of "\<lambda>x. take 2 (drop n x)"] arg_cong [OF a(6), of "drop (n + 2)"] False a(2)
      by (simp_all add: crlf_def)
    then have "turn_data n c = Go [Body_chunk d True] ((advance (n + 2) c)\<lparr>pstate := Receiving_chunked Reading_size\<rparr>)"
      using False m a by (simp add: turn_data_def)
    then show ?thesis using a t(3) assms(2) by (auto simp: progresses_def awaits_def flagged_def intro: exI [of _ "Suc 0"])
  qed
qed

lemma progresses_trailers:
  assumes "awaits c fut rest body" and "pstate c = Receiving_chunked Reading_trailers"
  shows "progresses c fut rest body (turn_trailers c)"
proof -
  have a: "body = []" "unread c @ fut = crlf @ rest" "max_body c < 2 ^ 63" using assms by (simp_all add: awaits_def)
  show ?thesis
  proof (cases "length (unread c) < 2")
    case True
    then have "fut \<noteq> []" using arg_cong [OF a(2), of length] by (auto simp: crlf_def)
    moreover have "find_blank (unread c) = None" "take 2 (unread c) \<noteq> crlf" using True
      by (cases "unread c"; cases "tl (unread c)"; auto simp: crlf_def)+
    ultimately show ?thesis by (simp add: progresses_def turn_trailers_def)
  next
    case False
    have "take 2 (unread c) = crlf" "drop 2 (unread c) @ fut = rest"
      using arg_cong [OF a(2), of "take 2"] arg_cong [OF a(2), of "drop 2"] False by (simp_all add: crlf_def)
    then show ?thesis using a assms(2) by (simp add: progresses_def turn_trailers_def awaits_def flagged_def)
  qed
qed

lemma conn_turn_progresses:
  assumes "awaits c fut rest body"
  shows "progresses c fut rest body (conn_turn parse c)"
proof (cases "pstate c")
  case (Receiving_chunked st)
  then show ?thesis using assms progresses_size progresses_data progresses_trailers
    by (cases st) (simp_all add: conn_turn_def)
qed (use assms progresses_length in \<open>auto simp: conn_turn_def awaits_def progresses_def\<close>)

lemma awaits_ok: "awaits c fut rest body \<Longrightarrow> conn_ok c"
  by (auto simp: awaits_def conn_ok_def split: pstate.splits cstage.splits)

lemma awaits_rank:
  assumes "awaits c fut rest body" and "conn_turn parse c = Go es c'"
  shows "rank c' < rank c"
proof -
  have "conn_turn (\<lambda>_. Partial) c = Go es c'"
    using assms by (auto simp: conn_turn_def awaits_def split: pstate.splits)
  then show ?thesis using turn_rank [of "\<lambda>_. Partial" c es c'] awaits_ok [OF assms(1)] by (simp add: parser_ok_def)
qed

lemma flagged_append:
  assumes "flagged es c" and "pstate c \<noteq> Serving_app" and "flagged fs c'"
  shows "flagged (es @ fs) c'"
proof -
  obtain k j where "mores es = replicate k True" "mores fs = replicate j True @ (if pstate c' = Serving_app then [False] else [])"
    using assms by (auto simp: flagged_def)
  then have "mores (es @ fs) = replicate (k + j) True @ (if pstate c' = Serving_app then [False] else [])"
    by (simp add: replicate_add)
  then show ?thesis unfolding flagged_def by blast
qed

lemma conn_loop_awaits:
  "awaits c fut rest body \<Longrightarrow> conn_loop n parse c = (es, c', p) \<Longrightarrow>
   \<not> p \<and> (\<exists>b. body = body_of es @ b \<and> awaits c' fut rest b) \<and>
   (if pstate c = Serving_app then es = [] \<and> c' = c else flagged es c') \<and>
   (rank c \<le> n \<longrightarrow> fut = [] \<longrightarrow> pstate c' = Serving_app)"
proof (induction n parse c arbitrary: body es rule: conn_loop.induct)
  case (1 parse c)
  then show ?case by (auto simp: rank_def flagged_def split: if_splits)
next
  case (2 n parse c)
  note t = conn_turn_progresses [OF 2(2), of parse]
  show ?case
  proof (cases "conn_turn parse c")
    case Stop
    then show ?thesis using 2(2,3) t by (auto simp: progresses_def flagged_def)
  next
    case Panic
    then show ?thesis using t by (simp add: progresses_def)
  next
    case (Go ds c1)
    obtain fs where fs: "conn_loop n parse c1 = (fs, c', p)" "es = ds @ fs"
      using 2(3) Go by (auto split: prod.splits)
    from t Go obtain b where b: "pstate c \<noteq> Serving_app" "flagged ds c1" "body = body_of ds @ b" "awaits c1 fut rest b"
      by (auto simp: progresses_def)
    note ih = 2(1) [OF Go b(4) fs(1)]
    have "flagged es c'" using ih b(2) flagged_append [OF b(2)] fs(2) by (auto split: if_splits)
    with ih b fs(2) awaits_rank [OF 2(2) Go] show ?thesis by auto
  qed
qed

fun feed_all :: "parser \<Rightarrow> byte list list \<Rightarrow> conn \<Rightarrow> hevent list \<times> conn \<times> bool" where
  "feed_all parse [] c = ([], c, False)"
| "feed_all parse (s # ss) c =
     (case feed_data parse s c of
        (es, c, True) \<Rightarrow> (es, c, True)
      | (es, c, False) \<Rightarrow> (let (fs, r) = feed_all parse ss c in (es @ fs, r)))"

lemma feed_data_awaits:
  assumes "awaits c (s @ fut) rest body" and "feed_data parse s c = (es, c', p)"
  shows "\<not> p \<and> (\<exists>b. body = body_of es @ b \<and> awaits c' fut rest b) \<and>
   (if pstate c = Serving_app then es = [] \<and> pstate c' = Serving_app else flagged es c') \<and>
   (fut = [] \<longrightarrow> pstate c' = Serving_app)"
proof -
  let ?c = "compact_buffer (c\<lparr>unread := unread c @ s\<rparr>)"
  have "awaits ?c fut rest body" using assms(1) by (simp add: awaits_def split: pstate.splits cstage.splits)
  moreover have "conn_loop (length (unread ?c) + 2) parse ?c = (es, c', p)"
    using assms(2) by (simp add: feed_data_def pump_events_def del: conn_loop.simps)
  ultimately have "\<not> p \<and> (\<exists>b. body = body_of es @ b \<and> awaits c' fut rest b) \<and>
   (if pstate ?c = Serving_app then es = [] \<and> c' = ?c else flagged es c') \<and>
   (rank ?c \<le> length (unread ?c) + 2 \<longrightarrow> fut = [] \<longrightarrow> pstate c' = Serving_app)"
    by (rule conn_loop_awaits)
  moreover have "rank ?c \<le> length (unread ?c) + 2" "pstate ?c = pstate c" by (simp_all add: rank_def)
  ultimately show ?thesis by (auto split: if_splits)
qed

lemma feed_all_awaits:
  "awaits c (concat ss) rest body \<Longrightarrow> feed_all parse ss c = (es, c', p) \<Longrightarrow>
   \<not> p \<and> (\<exists>b. body = body_of es @ b \<and> awaits c' [] rest b) \<and>
   (if pstate c = Serving_app then es = [] \<and> pstate c' = Serving_app else flagged es c') \<and>
   (ss \<noteq> [] \<longrightarrow> pstate c' = Serving_app)"
proof (induction ss arbitrary: c body es)
  case Nil
  then show ?case by (auto simp: flagged_def)
next
  case (Cons s ss)
  obtain ds c1 q where d: "feed_data parse s c = (ds, c1, q)" by (metis surj_pair)
  have aw: "awaits c (s @ concat ss) rest body" using Cons.prems(1) by simp
  note f = feed_data_awaits [OF aw d]
  then obtain b where b: "\<not> q" "body = body_of ds @ b" "awaits c1 (concat ss) rest b" by blast
  obtain fs where fs: "feed_all parse ss c1 = (fs, c', p)" "es = ds @ fs"
    using Cons.prems(2) d b(1) by (auto split: prod.splits)
  note ih = Cons.IH [OF b(3) fs(1)]
  have "pstate c \<noteq> Serving_app \<Longrightarrow> flagged es c'"
    using ih f flagged_append [of ds c1 fs c'] fs(2) by (auto simp: flagged_def split: if_splits)
  moreover have "ss = [] \<Longrightarrow> pstate c' = Serving_app" using f fs(1) by simp
  ultimately show ?case using ih f b fs(2) by (auto split: if_splits)
qed

section \<open>What the framing of an accepted request is\<close>

definition header_values :: "string \<Rightarrow> headers \<Rightarrow> byte list list" where
  "header_values name hs = map snd (filter (\<lambda>(k, v). k \<noteq> [] \<and> ascii_lower k = ascii name) hs)"

definition length_value :: "byte list \<Rightarrow> int option" where
  "length_value v = (case utf8_decode v of Some s \<Rightarrow> map_option as_isize (usize_parse 10 (rs_trim s)) | None \<Rightarrow> None)"

definition chunked_value :: "byte list \<Rightarrow> bool" where
  "chunked_value v \<longleftrightarrow> (case utf8_decode v of Some s \<Rightarrow> codings s \<noteq> [] \<and> is_chunked_name (last (codings s)) | None \<Rightarrow> False)"

definition framing_ok :: "headers \<Rightarrow> framing \<Rightarrow> bool" where
  "framing_ok hs f \<longleftrightarrow> f_conflict f \<or>
     ((f_has_length f \<longleftrightarrow> header_values ''content-length'' hs \<noteq> []) \<and>
      (\<forall>v \<in> set (header_values ''content-length'' hs). length_value v = Some (f_length f)) \<and>
      (header_values ''content-length'' hs = [] \<longrightarrow> f_length f = -1) \<and>
      (f_chunked f \<longleftrightarrow> header_values ''transfer-encoding'' hs \<noteq> []) \<and>
      (\<forall>v \<in> set (header_values ''transfer-encoding'' hs). chunked_value v))"

lemma header_values_snoc [simp]:
  "header_values name [] = []"
  "header_values name (hs @ [(k, v)]) = header_values name hs @ (if k \<noteq> [] \<and> ascii_lower k = ascii name then [v] else [])"
  by (simp_all add: header_values_def)

lemma ascii_names:
  "ascii ''transfer-encoding'' \<noteq> ascii ''content-length''" "ascii ''connection'' \<noteq> ascii ''content-length''"
  "ascii ''connection'' \<noteq> ascii ''transfer-encoding''" "ascii ''upgrade'' \<noteq> ascii ''content-length''"
  "ascii ''upgrade'' \<noteq> ascii ''transfer-encoding''" "ascii ''content-length'' \<noteq> ascii ''transfer-encoding''"
  by (simp_all add: ascii_def)

lemma frame_length_ok: "framing_ok hs f \<Longrightarrow> k \<noteq> [] \<Longrightarrow> ascii_lower k = ascii ''content-length'' \<Longrightarrow> framing_ok (hs @ [(k, v)]) (frame_length v f)"
  by (auto simp: framing_ok_def frame_length_def length_value_def ascii_names split: option.splits)

lemma frame_coding_ok: "framing_ok hs f \<Longrightarrow> k \<noteq> [] \<Longrightarrow> ascii_lower k = ascii ''transfer-encoding'' \<Longrightarrow> framing_ok (hs @ [(k, v)]) (frame_coding v f)"
  by (auto simp: framing_ok_def frame_coding_def chunked_value_def ascii_names Let_def split: option.splits if_splits)

lemma frame_connection_simps:
  "f_conflict (frame_connection v f) = f_conflict f" "f_has_length (frame_connection v f) = f_has_length f"
  "f_length (frame_connection v f) = f_length f" "f_chunked (frame_connection v f) = f_chunked f"
  by (simp_all add: frame_connection_def Let_def)

fun is_start :: "hevent \<Rightarrow> bool" where
  "is_start (Request_start h ka up proto b) = True" | "is_start _ = False"

lemma emit_error_no_start: "emit_error st msg c = (es, c') \<Longrightarrow> list_ex is_start es = False"
  by (auto simp: emit_error_def)

lemma starts_in_head:
  assumes "conn_turn parse c = Go es c'" and "list_ex is_start es"
  shows "turn_head parse c = Go es c'"
proof -
  have "turn_length n c = Go es c' \<Longrightarrow> \<not> list_ex is_start es" for n
    by (auto simp: turn_length_def Let_def split: if_splits)
  moreover have "turn_size c = Go es c' \<Longrightarrow> \<not> list_ex is_start es"
    by (auto simp: turn_size_def Let_def split: if_splits option.splits dest: emit_error_no_start)
  moreover have "turn_data n c = Go es c' \<Longrightarrow> \<not> list_ex is_start es" for n
    by (auto simp: turn_data_def split: if_splits dest: emit_error_no_start)
  moreover have "turn_trailers c = Go es c' \<Longrightarrow> \<not> list_ex is_start es"
    by (auto simp: turn_trailers_def split: if_splits option.splits)
  ultimately show ?thesis using assms
    by (cases "pstate c" rule: pstate.exhaust) (auto simp: conn_turn_def split: cstage.splits)
qed

lemma framing_of_ok: "framing_ok hs (framing_of minor hs)"
proof (induction hs rule: rev_induct)
  case Nil
  show ?case by (simp add: framing_ok_def framing_of_def framing_new_def)
next
  case (snoc kv hs)
  obtain k v where kv: "kv = (k, v)" by fastforce
  let ?f = "framing_of minor hs"
  have f: "framing_of minor (hs @ [(k, v)]) = frame_header (k, v) ?f" by (simp add: framing_of_def)
  show ?case
  proof (cases "k \<noteq> [] \<and> ascii_lower k \<in> {ascii ''content-length'', ascii ''transfer-encoding''}")
    case True
    then show ?thesis using snoc frame_length_ok [of hs ?f k v] frame_coding_ok [of hs ?f k v] ascii_names
      by (auto simp: f kv frame_header_def)
  next
    case False
    then have 1: "framing_ok (hs @ [(k, v)]) ?f" using snoc by (auto simp: framing_ok_def)
    have "frame_header (k, v) ?f \<in> {?f, frame_connection v ?f, ?f\<lparr>f_proto := ascii_lower v\<rparr>}"
      using False by (auto simp: frame_header_def Let_def)
    then consider "frame_header (k, v) ?f = ?f" | "frame_header (k, v) ?f = frame_connection v ?f"
      | "frame_header (k, v) ?f = ?f\<lparr>f_proto := ascii_lower v\<rparr>" by blast
    then have "f_conflict (frame_header (k, v) ?f) = f_conflict ?f \<and> f_has_length (frame_header (k, v) ?f) = f_has_length ?f \<and>
      f_length (frame_header (k, v) ?f) = f_length ?f \<and> f_chunked (frame_header (k, v) ?f) = f_chunked ?f"
      by cases (simp_all add: frame_connection_simps)
    with 1 show ?thesis unfolding kv f framing_ok_def by simp
  qed
qed

section \<open>Properties\<close>


definition receiving_chunks :: conn where
  "receiving_chunks = (conn_new 100 100 10)\<lparr>pstate := Receiving_chunked Reading_size\<rparr>"


text \<open>
  The loop that processes the buffer ends: every turn consumes input or closes the
  connection (if the parser, as documented, returns a positive length), so more fuel than the
  definition gives changes nothing.
\<close>

theorem http_loop_terminates:
  assumes "parser_ok parse" and "conn_ok c"
  shows "conn_loop (length (unread c) + 2 + k) parse (compact_buffer c) = pump_events parse c"
  unfolding pump_events_def
  by (rule conn_loop_fuel) (use assms in \<open>simp_all add: rank_def\<close>)

theorem http_loop_terminates_witness:
  "conn_loop 9 (\<lambda>u. Complete \<lparr>hd_method = [], hd_target = [], hd_minor = 1, hd_headers = []\<rparr> 3) ((conn_new 9 9 9)\<lparr>unread := [1, 2]\<rparr>) =
     pump_events (\<lambda>u. Complete \<lparr>hd_method = [], hd_target = [], hd_minor = 1, hd_headers = []\<rparr> 3) ((conn_new 9 9 9)\<lparr>unread := [1, 2]\<rparr>)"
  using http_loop_terminates [of "\<lambda>u. Complete \<lparr>hd_method = [], hd_target = [], hd_minor = 1, hd_headers = []\<rparr> 3"
      "(conn_new 9 9 9)\<lparr>unread := [1, 2]\<rparr>" 5]
  by (simp add: parser_ok_def conn_ok_def conn_new_def compact_buffer_def)

text \<open>
  C23: No request with an ambiguous framing is accepted (a defence against request smuggling):
  when a request starts it has no transfer coding besides a length, all its lengths are the same
  number, its transfer codings end in \<open>chunked\<close>; and it has a body exactly when it is chunked
  or has a positive length, an upgrade to a websocket apart.
\<close>

theorem http_no_ambiguous_framing:
  assumes "conn_turn parse c = Go es c'" and "Request_start h ka up proto has_body \<in> set es"
  shows "\<exists>n. (\<forall>v \<in> set (header_values ''content-length'' (hd_headers h)). length_value v = Some n) \<and>
    (header_values ''content-length'' (hd_headers h) = [] \<or> header_values ''transfer-encoding'' (hd_headers h) = []) \<and>
    (\<forall>v \<in> set (header_values ''transfer-encoding'' (hd_headers h)). chunked_value v) \<and>
    (up \<and> proto = ascii ''websocket'' \<or>
      (has_body \<longleftrightarrow> header_values ''transfer-encoding'' (hd_headers h) \<noteq> [] \<or>
        header_values ''content-length'' (hd_headers h) \<noteq> [] \<and> n > 0))"
proof -
  let ?f = "framing_of (hd_minor h) (hd_headers h)"
  have "turn_head parse c = Go es c'"
    using starts_in_head [OF assms(1)] assms(2) by (force simp: list_ex_iff)
  moreover have no: "es \<noteq> fst (emit_error st msg d)" for st msg d
    using assms(2) by (auto simp: emit_error_def)
  ultimately obtain h' off where p: "parse (unread c) = Complete h' off" and ne: "unread c \<noteq> []" "\<not> length (unread c) > max_head c"
    by (auto simp: turn_head_def go_def split: if_splits parsed.splits)
  let ?g = "framing_of (hd_minor h') (hd_headers h')"
  note t = \<open>turn_head parse c = Go es c'\<close> [unfolded turn_head_def p parsed.case Let_def]
  have ok: "\<not> (f_conflict ?g \<or> (f_chunked ?g \<and> f_has_length ?g) \<or> (f_te_count ?g > 1 \<and> \<not> f_chunked ?g))"
    using t ne no by (auto simp: go_def split: if_splits)
  have "h = h' \<and> up = f_upgrade ?g \<and> proto = f_proto ?g \<and>
    (up \<and> proto = ascii ''websocket'' \<or> (has_body \<longleftrightarrow> f_chunked ?g \<or> f_length ?g > 0))"
    using t ne no ok assms(2) by (auto simp: go_def split: if_splits)
  with ok have "\<not> f_conflict ?f" "\<not> (f_chunked ?f \<and> f_has_length ?f)" "up = f_upgrade ?f" "proto = f_proto ?f"
    "up \<and> proto = ascii ''websocket'' \<or> (has_body \<longleftrightarrow> f_chunked ?f \<or> f_length ?f > 0)"
    by auto
  then show ?thesis using framing_of_ok [of "hd_headers h" "hd_minor h"]
    by (intro exI [of _ "f_length ?f"]) (auto simp: framing_ok_def)
qed

definition post_head :: head where
  "post_head = \<lparr>hd_method = ascii ''POST'', hd_target = ascii ''/'', hd_minor = 1,
     hd_headers = [(ascii ''Content-Length'', ascii ''3'')]\<rparr>"

theorem http_no_ambiguous_framing_witness:
  "\<exists>es c'. conn_turn (\<lambda>_. Complete post_head 1) ((conn_new 9 9 9)\<lparr>unread := [1, 65, 66, 67]\<rparr>) = Go es c' \<and>
     length_value (ascii ''3'') = Some 3"
proof -
  let ?c = "(conn_new 9 9 9)\<lparr>unread := [1, 65, 66, 67]\<rparr>"
  have l: "length_value (ascii ''3'') = Some 3"
    by (simp add: length_value_def ascii_def utf8_decode_def usize_parse_def rs_trim_def uni_space_def digit_value_def as_isize_def)
  have f: "framing_of 1 (hd_headers post_head) = (framing_new 1)\<lparr>f_length := 3, f_has_length := True\<rparr>"
    by (simp add: framing_of_def post_head_def frame_header_def ascii_lower_def ascii_def frame_length_def framing_new_def
        utf8_decode_def usize_parse_def rs_trim_def uni_space_def digit_value_def as_isize_def)
  have m: "hd_minor post_head = 1" by (simp add: post_head_def)
  have "\<exists>es c'. turn_head (\<lambda>_. Complete post_head 1) ?c = Go es c' \<and> Request_start post_head True False [] True \<in> set es"
    unfolding turn_head_def parsed.case m f by (simp add: conn_new_def framing_new_def Let_def)
  then obtain es c' where g: "conn_turn (\<lambda>_. Complete post_head 1) ?c = Go es c'" "Request_start post_head True False [] True \<in> set es"
    by (auto simp: conn_turn_def conn_new_def)
  from http_no_ambiguous_framing [OF g] l g show ?thesis by blast
qed

end
