(* ===== verification/HttpServe.thy ===== *)
theory HttpServe
  imports HttpWire
begin

text \<open>
  \<open>multiloop._http11\<close>: \<open>Http11Protocol\<close> over a \<open>FastHttpConnection\<close>: its reaction to the
  events of the parser, the cycle that serves one request with its \<open>receive\<close> and \<open>send\<close>, the end of
  a cycle, the end of the connection.  Proved: requests of a connection are served one at a
  time; a streamed response decodes to what the application sent; and where these end.
\<close>

section \<open>Responses on the wire\<close>

definition reason_phrase :: "nat \<Rightarrow> string" where
  "reason_phrase st =
     (case map_of [(200, ''OK''), (201, ''Created''), (204, ''No Content''), (301, ''Moved Permanently''), (302, ''Found''),
        (304, ''Not Modified''), (400, ''Bad Request''), (401, ''Unauthorized''), (403, ''Forbidden''), (404, ''Not Found''),
        (405, ''Method Not Allowed''), (413, ''Payload Too Large''), (426, ''Upgrade Required''),
        (431, ''Request Header Fields Too Large''), (500, ''Internal Server Error''), (502, ''Bad Gateway''),
        (503, ''Service Unavailable'')] st of Some r \<Rightarrow> r | None \<Rightarrow> ''OK'')"

definition names_header :: "string \<Rightarrow> headers \<Rightarrow> bool" where
  "names_header name hs \<longleftrightarrow> list_ex (\<lambda>(k, v). ascii_lower k = ascii name) hs"

definition header_safe :: "headers \<Rightarrow> bool" where
  "header_safe hs \<longleftrightarrow> list_all (\<lambda>(k, v). 13 \<notin> set k \<and> 10 \<notin> set k \<and> 13 \<notin> set v \<and> 10 \<notin> set v) hs"

definition says_close :: "headers \<Rightarrow> bool" where
  "says_close hs \<longleftrightarrow> list_ex (\<lambda>(k, v). ascii_lower k = ascii ''connection'' \<and> infix_of (ascii ''close'') (ascii_lower v)) hs"

text \<open>\<open>FastHttpConnection.format_chunk\<close>\<close>

definition format_chunk :: "byte list \<Rightarrow> bool \<Rightarrow> byte list" where
  "format_chunk body more_body = (if body \<noteq> [] then chunk_frame body else []) @ (if more_body then [] else chunk_end)"

text \<open>
  \<open>FastHttpConnection.format_response\<close>: the head, whether the body is chunked, and whether the
  connection is kept; \<open>None\<close> is the \<open>ValueError\<close> for a line break in a header.
\<close>

definition response_head :: "nat \<Rightarrow> byte list \<Rightarrow> byte list \<Rightarrow> headers \<Rightarrow> byte list \<Rightarrow> bool \<Rightarrow> bool \<Rightarrow> bool \<Rightarrow> byte list" where
  "response_head st server date hs body more_body no_body keep =
     ascii ''HTTP/1.1 '' @ decimal st @ ascii '' '' @ ascii (reason_phrase st) @ crlf @
     (if names_header ''server'' hs then [] else server) @ (if names_header ''date'' hs then [] else date) @
     concat (map (\<lambda>(k, v). k @ ascii '': '' @ v @ crlf) hs) @
     (if \<not> no_body \<and> \<not> more_body \<and> \<not> names_header ''content-length'' hs
      then ascii ''content-length: '' @ decimal (length body) @ crlf else []) @
     (if \<not> no_body \<and> more_body \<and> \<not> names_header ''content-length'' hs
      then ascii ''transfer-encoding: chunked'' @ crlf else []) @
     (if names_header ''connection'' hs then []
      else if keep then ascii ''connection: keep-alive'' @ crlf else ascii ''connection: close'' @ crlf) @
     crlf"

definition format_response ::
    "nat \<Rightarrow> byte list \<Rightarrow> byte list \<Rightarrow> headers \<Rightarrow> byte list \<Rightarrow> bool \<Rightarrow> bool \<Rightarrow> bool \<Rightarrow> (byte list \<times> bool \<times> bool) option" where
  "format_response st server date hs body more_body no_body keep =
     (if \<not> header_safe hs then None
      else
        (let keep = (keep \<and> \<not> says_close hs);
             chunked = (\<not> no_body \<and> more_body \<and> \<not> names_header ''content-length'' hs)
         in Some
           (response_head st server date hs body more_body no_body keep @
              (if no_body then [] else if chunked then format_chunk body more_body else body),
            chunked, keep)))"

section \<open>State\<close>

datatype http_state = WAITING_HEADER | SERVING_APP | KEEP_ALIVE_WAIT | CLOSED

text \<open>
  A running cycle with its local variables (\<open>resp_status\<close> as in the code: 0 initial, 1 started,
  2 streaming, 3 complete), or the task of an upgrade to a websocket.
\<close>

record cycle =
  y_head :: head
  y_upgrade :: bool
  y_keep_alive :: bool
  y_has_body :: bool
  y_status :: nat
  y_start :: "nat \<times> headers"
  y_empty_sent :: bool
  y_wrote :: bool

definition cycle_new :: "head \<Rightarrow> bool \<Rightarrow> bool \<Rightarrow> bool \<Rightarrow> cycle" where
  "cycle_new h up ka b = \<lparr>y_head = h, y_upgrade = up, y_keep_alive = ka, y_has_body = b, y_status = 0, y_start = (0, []),
     y_empty_sent = False, y_wrote = False\<rparr>"

text \<open>
  The protocol object with its transport: what was written, whether it is closing, whether
  reading is paused; \<open>cycles\<close> are the tasks created and not ended, the last one the current.
\<close>

record http =
  h_conn :: conn
  h_state :: http_state
  body_queue :: "(byte list \<times> bool) list option"
  disconnected :: bool
  drain_set :: bool
  closed_event :: bool
  upgraded :: bool
  pipeline :: "(head \<times> bool \<times> bool) list"
  cycles :: "cycle list"
  has_current :: bool
  written :: "byte list"
  closing :: bool
  paused :: bool
  cancelled :: bool

definition http_new :: http where
  "http_new = \<lparr>h_conn = conn_new (10 * 1024 * 1024) (64 * 1024) 1000, h_state = WAITING_HEADER, body_queue = None,
     disconnected = False, drain_set = True, closed_event = False, upgraded = False, pipeline = [], cycles = [],
     has_current = False, written = [], closing = False, paused = False, cancelled = False\<rparr>"

definition http_write :: "byte list \<Rightarrow> http \<Rightarrow> http" where
  "http_write bs h = h\<lparr>written := written h @ bs\<rparr>"

text \<open>\<open>close\<close>: it also cancels the current task, and forgets it.\<close>

definition http_close :: "http \<Rightarrow> http" where
  "http_close h =
     (if h_state h = CLOSED then h
      else h\<lparr>h_state := CLOSED, closed_event := True, disconnected := True, closing := True,
             cancelled := (cancelled h \<or> has_current h), has_current := False, drain_set := True\<rparr>)"

definition start_cycle :: "cycle \<Rightarrow> http \<Rightarrow> http" where
  "start_cycle y h = h\<lparr>cycles := cycles h @ [y], has_current := True, cancelled := False\<rparr>"

text \<open>\<open>_handle_events\<close>\<close>

definition queue_max :: nat where "queue_max = 32"

definition queue_resume :: nat where "queue_resume = 16"

fun handle_event :: "hevent \<Rightarrow> http \<Rightarrow> http" where
  "handle_event (Request_start rq ka up proto has_body) h =
     (if up \<and> proto = ascii ''websocket'' then
        start_cycle (cycle_new rq True ka has_body) (h\<lparr>h_state := SERVING_APP\<rparr>)
      else if h_state h = SERVING_APP then h\<lparr>pipeline := pipeline h @ [(rq, ka, has_body)]\<rparr>
      else start_cycle (cycle_new rq False ka has_body)
             (h\<lparr>h_state := SERVING_APP, body_queue := (if has_body then Some [] else None), disconnected := False\<rparr>))"
| "handle_event (Body_chunk d m) h =
     (case body_queue h of
        None \<Rightarrow> h
      | Some q \<Rightarrow> h\<lparr>body_queue := Some (q @ [(d, m)]), paused := (paused h \<or> length q + 1 \<ge> queue_max)\<rparr>)"
| "handle_event (Upgraded proto) h = h"
| "handle_event (Protocol_error st bs) h = http_close ((http_write bs h)\<lparr>closing := True\<rparr>)"

definition handle_events :: "hevent list \<Rightarrow> http \<Rightarrow> http" where
  "handle_events es h = fold handle_event es h"

definition bad_request :: "byte list" where
  "bad_request = ascii ''HTTP/1.1 400 Bad Request'' @ crlf @ ascii ''server: multiloop'' @ crlf @
     ascii ''connection: close'' @ crlf @ ascii ''content-length: 0'' @ crlf @ crlf"

text \<open>
  \<open>data_received\<close> and the pumping of the parser.  A panic of the parser is not an \<open>Exception\<close>: it
  leaves the method, and the transport closes the connection.
\<close>

definition data_received :: "parser \<Rightarrow> byte list \<Rightarrow> http \<Rightarrow> http" where
  "data_received parse data h =
     (if upgraded h then h
      else
        (case feed_data parse data (h_conn h) of
           (es, c, True) \<Rightarrow> h\<lparr>h_conn := c, closing := True\<rparr>
         | (es, c, False) \<Rightarrow> handle_events es (h\<lparr>h_conn := c\<rparr>)))"

text \<open>
  Pumping outside of \<open>data_received\<close>: the flag says that the panic goes on to the caller; the events
  of the turns before it are lost.
\<close>

definition pump :: "parser \<Rightarrow> http \<Rightarrow> bool \<times> http" where
  "pump parse h =
     (case pump_events parse (h_conn h) of
        (es, c, True) \<Rightarrow> (True, h\<lparr>h_conn := c\<rparr>)
      | (es, c, False) \<Rightarrow> (False, handle_events es (h\<lparr>h_conn := c\<rparr>)))"

section \<open>One request\<close>

text \<open>\<open>receive\<close>: \<open>None\<close> while it waits.\<close>

datatype http_received = Http_request "byte list" bool | Http_disconnect | Http_panicked

definition http_receive :: "parser \<Rightarrow> cycle \<Rightarrow> http \<Rightarrow> (http_received \<times> cycle \<times> http) option" where
  "http_receive parse y h =
     (if \<not> y_has_body y \<and> \<not> y_empty_sent y then Some (Http_request [] False, y\<lparr>y_empty_sent := True\<rparr>, h)
      else if \<not> y_has_body y then (if disconnected h then Some (Http_disconnect, y, h) else None)
      else
        (case body_queue h of
           None \<Rightarrow> if disconnected h then Some (Http_disconnect, y, h) else None
         | Some [] \<Rightarrow> None
         | Some ((chunk, m) # q) \<Rightarrow>
             if \<not> m then Some (Http_request chunk m, y, h\<lparr>body_queue := None\<rparr>)
             else if length q \<le> queue_resume then
               (let (panicked, h) = pump parse (h\<lparr>body_queue := Some q, paused := False\<rparr>)
                in Some (if panicked then Http_panicked else Http_request chunk m, y, h))
             else Some (Http_request chunk m, y, h\<lparr>body_queue := Some q\<rparr>)))"

text \<open>
  \<open>send\<close>: the messages of the application, \<open>Other_message\<close> with an unknown type; \<open>date\<close> is the
  cached date header.  After a write the call may wait for the transport to drain: what follows the
  wait is \<open>first_sent\<close> in the first branch, \<open>part_sent\<close> in the other one.
\<close>

datatype http_sent = Response_start nat headers | Response_body "byte list" bool | Other_message

datatype send_result = Sent | Draining_first bool | Draining_part bool | Send_failed error

definition server_header :: "byte list" where
  "server_header = ascii ''server: multiloop'' @ crlf"

definition no_body :: "cycle \<Rightarrow> bool" where
  "no_body y \<longleftrightarrow> fst (y_start y) \<in> {204, 304} \<or> hd_method (y_head y) = ascii ''HEAD''"

definition first_sent :: "bool \<Rightarrow> cycle \<Rightarrow> http \<Rightarrow> send_result \<times> cycle \<times> http" where
  "first_sent m y h =
     (if m then (Sent, y\<lparr>y_status := 2\<rparr>, h)
      else (Sent, y\<lparr>y_status := 3\<rparr>, if y_keep_alive y then h else h\<lparr>closing := True\<rparr>))"

definition part_sent :: "bool \<Rightarrow> cycle \<Rightarrow> http \<Rightarrow> send_result \<times> cycle \<times> http" where
  "part_sent m y h = (Sent, if m then y else y\<lparr>y_status := 3\<rparr>, h)"

fun http_send :: "byte list \<Rightarrow> http_sent \<Rightarrow> cycle \<Rightarrow> http \<Rightarrow> send_result \<times> cycle \<times> http" where
  "http_send date (Response_start st hs) y h =
     (if y_status y \<noteq> 0 then (Send_failed (RuntimeError ''Duplicate http.response.start called''), y, h)
      else (Sent, y\<lparr>y_status := 1, y_start := (st, hs)\<rparr>, h))"
| "http_send date (Response_body body m) y h =
     (if y_status y = 1 then
        (case format_response (fst (y_start y)) server_header date (snd (y_start y)) body m (no_body y) (y_keep_alive y) of
           None \<Rightarrow> (Send_failed (ValueError ''Illegal CRLF control characters detected in HTTP response header''), y, h)
         | Some (wire, chunked, keep) \<Rightarrow>
             (let h = http_write wire h; y = y\<lparr>y_keep_alive := keep, y_wrote := True\<rparr>
              in if drain_set h then first_sent m y h else (Draining_first m, y, h)))
      else if y_status y = 2 then
        (let h = http_write (format_chunk body m) h; y = y\<lparr>y_wrote := True\<rparr>
         in if drain_set h then part_sent m y h else (Draining_part m, y, h))
      else (Send_failed (RuntimeError ''http.response.body sent before http.response.start or after completion''), y, h))"
| "http_send date Other_message y h = (Send_failed (ValueError ''Unknown ASGI message type''), y, h)"

text \<open>
  The end of a cycle: the handler of an \<open>Exception\<close>, and the \<open>finally\<close>; the flag says that the
  parser panicked, which is then the outcome of the task.
\<close>

definition server_error :: "byte list \<Rightarrow> byte list" where
  "server_error date = ascii ''HTTP/1.1 500 Internal Server Error'' @ crlf @ server_header @ date @
     ascii ''connection: close'' @ crlf @ ascii ''content-length: 21'' @ crlf @ crlf @ ascii ''Internal Server Error''"

definition cycle_failed :: "byte list \<Rightarrow> cycle \<Rightarrow> http \<Rightarrow> http" where
  "cycle_failed date y h =
     (if \<not> y_wrote y \<and> \<not> closing h then (http_write (server_error date) h)\<lparr>closing := True\<rparr> else h)"

definition cycle_finally :: "parser \<Rightarrow> http \<Rightarrow> bool \<times> http" where
  "cycle_finally parse h =
     (let h = h\<lparr>disconnected := True, h_conn := reset_for_next_request (h_conn h)\<rparr>
      in if pstate (h_conn h) = P_closed then (False, h\<lparr>closing := True\<rparr>)
         else
           (let h = h\<lparr>h_state := KEEP_ALIVE_WAIT\<rparr>
            in case pipeline h of
                 (rq, ka, hb) # ps \<Rightarrow>
                   (False, start_cycle (cycle_new rq False ka hb)
                     (h\<lparr>pipeline := ps, h_state := SERVING_APP, body_queue := (if hb then Some [] else None),
                        disconnected := False\<rparr>))
               | [] \<Rightarrow> pump parse h))"

text \<open>
  The task of an upgrade: its first step puts the stream protocol in place, after the handler it
  closes.  The connection is lost; flow control.
\<close>

definition upgrade_begin :: "http \<Rightarrow> http" where
  "upgrade_begin h = h\<lparr>upgraded := True\<rparr>"

definition connection_lost :: "http \<Rightarrow> http" where
  "connection_lost h = http_close h"

definition pause_writing :: "http \<Rightarrow> http" where
  "pause_writing h = h\<lparr>drain_set := False\<rparr>"

definition resume_writing :: "http \<Rightarrow> http" where
  "resume_writing h = h\<lparr>drain_set := True\<rparr>"

section \<open>The steps of a connection\<close>

text \<open>
  The transport delivers data only while it is not closing.  A task that is cancelled before its
  first step ends without its \<open>finally\<close> (\<open>cycle_dropped\<close>).
\<close>

definition cycle_over :: "http \<Rightarrow> http" where
  "cycle_over h = h\<lparr>cycles := tl (cycles h)\<rparr>"

definition cycle_set :: "cycle \<Rightarrow> http \<Rightarrow> http" where
  "cycle_set y h = h\<lparr>cycles := y # tl (cycles h)\<rparr>"

inductive http_step :: "parser \<Rightarrow> http \<Rightarrow> http \<Rightarrow> bool" for parse :: parser where
  data: "\<not> closing h \<Longrightarrow> http_step parse h (data_received parse bs h)"
| receive: "cycles h = y # ys \<Longrightarrow> http_receive parse y h = Some (r, y', h') \<Longrightarrow> http_step parse h (cycle_set y' h')"
| send: "cycles h = y # ys \<Longrightarrow> http_send date msg y h = (r, y', h') \<Longrightarrow> http_step parse h (cycle_set y' h')"
| first_drained: "cycles h = y # ys \<Longrightarrow> first_sent m y h = (r, y', h') \<Longrightarrow> http_step parse h (cycle_set y' h')"
| part_drained: "cycles h = y # ys \<Longrightarrow> part_sent m y h = (r, y', h') \<Longrightarrow> http_step parse h (cycle_set y' h')"
| cycle_failed: "cycles h = y # ys \<Longrightarrow> http_step parse h (cycle_failed date y h)"
| cycle_ended: "cycles h = y # ys \<Longrightarrow> cycle_finally parse (cycle_over h) = (panicked, h') \<Longrightarrow> http_step parse h h'"
| cycle_dropped: "cancelled h \<Longrightarrow> http_step parse h (cycle_over h)"
| upgrade_begin: "http_step parse h (upgrade_begin h)"
| upgrade_ended: "cycles h = y # ys \<Longrightarrow> http_step parse h (http_close (cycle_over h))"
| lost: "http_step parse h (connection_lost h)"
| pause: "http_step parse h (pause_writing h)"
| resume: "http_step parse h (resume_writing h)"

definition at_head :: "conn \<Rightarrow> bool" where
  "at_head c \<longleftrightarrow> pstate c = Waiting_header \<or> pstate c = Keep_alive_wait"

definition http_inv :: "http \<Rightarrow> bool" where
  "http_inv h \<longleftrightarrow> length (cycles h) \<le> 1 \<and> pipeline h = [] \<and>
     (at_head (h_conn h) \<longrightarrow> cycles h = [] \<and> h_state h \<noteq> SERVING_APP)"

section \<open>One request at a time\<close>

lemma at_head_simps [simp]:
  "at_head (advance n c) = at_head c" "at_head (compact_buffer c) = at_head c"
  "at_head (c\<lparr>unread := u\<rparr>) = at_head c" "pstate c = P_closed \<Longrightarrow> \<not> at_head c"
  by (simp_all add: at_head_def)

lemma turn_head_once:
  assumes "turn_head parse c = Go es c'"
  shows "\<not> at_head c' \<and> length (filter is_start es) \<le> 1"
proof (cases "\<exists>st msg d. emit_error st msg d = (es, c')")
  case True
  then have "pstate c' = P_closed" "\<not> list_ex is_start es" by (auto dest: emit_error_closed emit_error_no_start)
  then show ?thesis by (simp add: filter_empty_conv [THEN iffD2] list_ex_iff)
next
  case False
  then show ?thesis using assms
    by (auto simp: turn_head_def at_head_def Let_def split: if_splits parsed.splits)
qed

lemma turn_body_none:
  assumes "\<not> at_head c" and "conn_turn parse c = Go es c'"
  shows "\<not> at_head c'"
proof (cases "\<exists>st msg d. emit_error st msg d = (es, c')")
  case True
  then have "pstate c' = P_closed" by (auto dest: emit_error_closed)
  then show ?thesis by simp
next
  case False
  have "turn_length n c = Go es c' \<Longrightarrow> ?thesis" for n
    by (auto simp: turn_length_def at_head_def Let_def split: if_splits)
  moreover have "turn_size c = Go es c' \<Longrightarrow> ?thesis"
    using False by (auto simp: turn_size_def at_head_def Let_def split: if_splits option.splits)
  moreover have "turn_data n c = Go es c' \<Longrightarrow> ?thesis" for n
    using False by (auto simp: turn_data_def at_head_def split: if_splits)
  moreover have "turn_trailers c = Go es c' \<Longrightarrow> ?thesis"
    by (auto simp: turn_trailers_def at_head_def split: if_splits option.splits)
  ultimately show ?thesis using assms
    by (cases "pstate c" rule: pstate.exhaust) (auto simp: conn_turn_def at_head_def split: cstage.splits)
qed

lemma conn_turn_starts:
  assumes "conn_turn parse c = Go es c'"
  shows "\<not> at_head c' \<and> length (filter is_start es) \<le> (if at_head c then 1 else 0)"
proof (cases "at_head c")
  case True
  then have "turn_head parse c = Go es c'" using assms by (auto simp: conn_turn_def at_head_def)
  with turn_head_once [OF this] True show ?thesis by simp
next
  case False
  have "\<not> list_ex is_start es"
  proof
    assume "list_ex is_start es"
    then have "turn_head parse c = Go es c'" by (rule starts_in_head [OF assms])
    then show False using assms False \<open>list_ex is_start es\<close>
      by (cases "pstate c" rule: pstate.exhaust)
        (auto simp: conn_turn_def at_head_def turn_length_def turn_size_def turn_data_def turn_trailers_def Let_def
          split: cstage.splits if_splits option.splits dest: emit_error_no_start)
  qed
  with turn_body_none [OF False assms] False show ?thesis by (auto simp: list_ex_iff filter_empty_conv)
qed

lemma conn_loop_starts:
  "conn_loop n parse c = (es, c', p) \<Longrightarrow>
   (at_head c' \<longrightarrow> at_head c \<and> es = []) \<and> length (filter is_start es) \<le> (if at_head c then 1 else 0)"
proof (induction n parse c arbitrary: es rule: conn_loop.induct)
  case (1 parse c)
  then show ?case by simp
next
  case (2 n parse c)
  show ?case
  proof (cases "conn_turn parse c")
    case (Go ds c1)
    obtain fs where fs: "conn_loop n parse c1 = (fs, c', p)" "es = ds @ fs"
      using 2(2) Go by (auto split: prod.splits)
    show ?thesis using conn_turn_starts [OF Go] 2(1) [OF Go fs(1)] fs(2) by (auto split: if_splits)
  qed (use 2(2) in auto)
qed

lemma pump_starts:
  assumes "pump_events parse c = (es, c', p)"
  shows "(at_head c' \<longrightarrow> at_head c \<and> es = []) \<and> length (filter is_start es) \<le> (if at_head c then 1 else 0)"
  using conn_loop_starts [OF assms [unfolded pump_events_def]] by simp

text \<open>What the protocol does on the events of one call.\<close>

lemma http_close_simps [simp]:
  "cycles (http_close h) = cycles h" "pipeline (http_close h) = pipeline h" "h_conn (http_close h) = h_conn h"
  "h_state (http_close h) = CLOSED" "upgraded (http_close h) = upgraded h"
  by (simp_all add: http_close_def)

lemma handle_event_keeps:
  "\<not> is_start e \<Longrightarrow> cycles (handle_event e h) = cycles h \<and> pipeline (handle_event e h) = pipeline h \<and>
     h_conn (handle_event e h) = h_conn h \<and> (h_state (handle_event e h) = SERVING_APP \<longrightarrow> h_state h = SERVING_APP)"
  by (cases "(e, h)" rule: handle_event.cases) (simp_all add: http_write_def split: option.split)

lemma handle_event_starts:
  "is_start e \<Longrightarrow> h_state h \<noteq> SERVING_APP \<Longrightarrow> length (cycles (handle_event e h)) = length (cycles h) + 1 \<and>
     pipeline (handle_event e h) = pipeline h \<and> h_conn (handle_event e h) = h_conn h"
  by (cases "(e, h)" rule: handle_event.cases) (simp_all add: start_cycle_def)

lemma handle_events_simps [simp]:
  "handle_events [] h = h" "handle_events (e # es) h = handle_events es (handle_event e h)"
  by (simp_all add: handle_events_def)

lemma handle_events_keep:
  "filter is_start es = [] \<Longrightarrow> cycles (handle_events es h) = cycles h \<and> pipeline (handle_events es h) = pipeline h \<and>
     h_conn (handle_events es h) = h_conn h \<and> (h_state (handle_events es h) = SERVING_APP \<longrightarrow> h_state h = SERVING_APP)"
proof (induction es arbitrary: h)
  case (Cons e es)
  then have "\<not> is_start e" "filter is_start es = []" by (auto split: if_splits)
  with Cons.IH [of "handle_event e h"] handle_event_keeps [of e h] show ?case by auto
qed simp

lemma handle_events_once:
  "length (filter is_start es) \<le> 1 \<Longrightarrow> h_state h \<noteq> SERVING_APP \<Longrightarrow>
     length (cycles (handle_events es h)) = length (cycles h) + length (filter is_start es) \<and>
     pipeline (handle_events es h) = pipeline h \<and> h_conn (handle_events es h) = h_conn h"
proof (induction es arbitrary: h)
  case (Cons e es)
  show ?case
  proof (cases "is_start e")
    case True
    then have "filter is_start es = []" using Cons.prems(1) by simp
    with handle_events_keep [of es "handle_event e h"] handle_event_starts [OF True Cons.prems(2)] True show ?thesis by simp
  next
    case False
    with Cons.IH [of "handle_event e h"] Cons.prems handle_event_keeps [OF False, of h] show ?thesis by auto
  qed
qed simp

lemma handle_pumped:
  assumes "http_inv h" and "pump_events parse c = (es, c', p)" and "at_head c = at_head (h_conn h)"
  shows "http_inv (handle_events es (h\<lparr>h_conn := c'\<rparr>)) \<and> http_inv (h\<lparr>h_conn := c'\<rparr>)"
proof -
  note s = pump_starts [OF assms(2)]
  show ?thesis
  proof (cases "at_head (h_conn h)")
    case True
    then have i: "cycles h = []" "pipeline h = []" "h_state h \<noteq> SERVING_APP" using assms(1) by (simp_all add: http_inv_def)
    with s True assms(3) handle_events_once [of es "h\<lparr>h_conn := c'\<rparr>"] show ?thesis
      by (cases "at_head c'") (auto simp: http_inv_def)
  next
    case False
    then have "filter is_start es = []" "\<not> at_head c'" using s assms(3) by auto
    with handle_events_keep [of es "h\<lparr>h_conn := c'\<rparr>"] assms(1) show ?thesis by (auto simp: http_inv_def)
  qed
qed

lemma pump_inv:
  assumes "http_inv h" and "pump parse h = (p, h')"
  shows "http_inv h'"
proof -
  obtain es c q where e: "pump_events parse (h_conn h) = (es, c, q)" by (metis surj_pair)
  from handle_pumped [OF assms(1) e] assms(2) e show ?thesis by (auto simp: pump_def split: bool.splits)
qed

lemma data_received_inv:
  assumes "http_inv h"
  shows "http_inv (data_received parse bs h)"
proof -
  obtain es c q where e: "pump_events parse ((h_conn h)\<lparr>unread := unread (h_conn h) @ bs\<rparr>) = (es, c, q)" by (metis surj_pair)
  note k = handle_pumped [OF assms e]
  show ?thesis
  proof (cases q)
    case True
    with k e assms show ?thesis by (simp add: data_received_def feed_data_def http_inv_def)
  next
    case False
    with k e assms show ?thesis by (simp add: data_received_def feed_data_def)
  qed
qed

text \<open>Only the fields of \<open>http_inv\<close> matter; a running cycle means that no head is read.\<close>

lemma http_inv_cong:
  assumes "http_inv h" and "length (cycles h') \<le> length (cycles h)" and "pipeline h' = pipeline h" and "h_conn h' = h_conn h"
    and "h_state h' = SERVING_APP \<longrightarrow> h_state h = SERVING_APP"
  shows "http_inv h'"
  using assms by (auto simp: http_inv_def)

lemma cycle_set_inv: "http_inv h \<Longrightarrow> \<not> at_head (h_conn h) \<Longrightarrow> http_inv (cycle_set y h)"
  by (auto simp: http_inv_def cycle_set_def)

lemma pump_body: "pump parse h = (p, h') \<Longrightarrow> \<not> at_head (h_conn h) \<Longrightarrow> \<not> at_head (h_conn h')"
proof -
  assume a: "pump parse h = (p, h')" "\<not> at_head (h_conn h)"
  obtain es c q where e: "pump_events parse (h_conn h) = (es, c, q)" by (metis surj_pair)
  from pump_starts [OF e] a(2) have "filter is_start es = []" "\<not> at_head c" by auto
  moreover have "h' = h\<lparr>h_conn := c\<rparr> \<or> h' = handle_events es (h\<lparr>h_conn := c\<rparr>)"
    using a(1) e by (cases q) (simp_all add: pump_def)
  ultimately show "\<not> at_head (h_conn h')" using handle_events_keep [of es "h\<lparr>h_conn := c\<rparr>"] by (elim disjE) simp_all
qed

lemma http_receive_inv:
  assumes "http_inv h" and "\<not> at_head (h_conn h)" and "http_receive parse y h = Some (r, y', h')"
  shows "http_inv h' \<and> \<not> at_head (h_conn h')"
proof -
  have "http_inv (h\<lparr>body_queue := q\<rparr>) \<and> http_inv (h\<lparr>body_queue := q, paused := b\<rparr>)" for q b
    using assms(1) by (simp add: http_inv_def)
  moreover have "pump parse (h\<lparr>body_queue := q, paused := b\<rparr>) = (p, h') \<Longrightarrow> http_inv h' \<and> \<not> at_head (h_conn h')" for q b p
    using pump_inv [of "h\<lparr>body_queue := q, paused := b\<rparr>" parse p h'] pump_body [of parse "h\<lparr>body_queue := q, paused := b\<rparr>" p h'] assms
      calculation by simp
  ultimately show ?thesis using assms
    by (auto simp: http_receive_def split: if_splits option.splits list.splits prod.splits)
qed

lemma http_send_keeps:
  assumes "http_send date msg y h = (r, y', h')"
  shows "cycles h' = cycles h \<and> pipeline h' = pipeline h \<and> h_conn h' = h_conn h \<and> h_state h' = h_state h"
  using assms by (cases msg)
    (auto simp: http_write_def first_sent_def part_sent_def Let_def split: if_splits option.splits prod.splits)

lemma cycle_finally_inv:
  assumes "cycles h = []" and "pipeline h = []" and "cycle_finally parse h = (p, h')"
  shows "http_inv h'"
proof -
  let ?c = "reset_for_next_request (h_conn h)"
  let ?h = "h\<lparr>disconnected := True, h_conn := ?c\<rparr>"
  show ?thesis
  proof (cases "pstate ?c = P_closed")
    case True
    then show ?thesis using assms by (auto simp: cycle_finally_def http_inv_def)
  next
    case False
    then have "pump parse (?h\<lparr>h_state := KEEP_ALIVE_WAIT\<rparr>) = (p, h')" using assms by (simp add: cycle_finally_def)
    moreover have "http_inv (?h\<lparr>h_state := KEEP_ALIVE_WAIT\<rparr>)" using assms(1,2) by (simp add: http_inv_def)
    ultimately show ?thesis by (rule pump_inv [rotated])
  qed
qed

lemma http_step_inv:
  assumes "http_step parse h h'" and "http_inv h"
  shows "http_inv h'"
  using assms
proof (induction rule: http_step.induct)
  case (data h bs)
  then show ?case by (simp add: data_received_inv)
next
  case (receive h y ys r y' h')
  then have "\<not> at_head (h_conn h)" by (auto simp: http_inv_def)
  from http_receive_inv [OF receive(3) this receive(2)] show ?case by (simp add: cycle_set_inv)
next
  case (send h y ys date msg r y' h')
  then have "\<not> at_head (h_conn h)" by (auto simp: http_inv_def)
  with send http_send_keeps [OF send(2)] show ?case by (intro cycle_set_inv http_inv_cong [of h h']) simp_all
next
  case (first_drained h y ys m r y' h')
  then have "\<not> at_head (h_conn h)" by (auto simp: http_inv_def)
  with first_drained show ?case by (intro cycle_set_inv http_inv_cong [of h h']) (auto simp: first_sent_def split: if_splits)
next
  case (part_drained h y ys m r y' h')
  then have "\<not> at_head (h_conn h)" by (auto simp: http_inv_def)
  with part_drained show ?case by (intro cycle_set_inv http_inv_cong [of h h']) (auto simp: part_sent_def)
next
  case (cycle_ended h y ys panicked h')
  then have "cycles (cycle_over h) = []" "pipeline (cycle_over h) = []" by (auto simp: http_inv_def cycle_over_def)
  from cycle_finally_inv [OF this cycle_ended(2)] show ?case .
next
  case (upgrade_ended h y ys)
  show ?case by (rule http_inv_cong [OF upgrade_ended(2)]) (simp_all add: cycle_over_def)
next
  case (cycle_failed h y ys date)
  then show ?case by (simp add: cycle_failed_def http_write_def http_inv_def)
next
  case (cycle_dropped h)
  then show ?case by (auto simp: cycle_over_def http_inv_def)
next
  case (lost h)
  show ?case by (rule http_inv_cong [OF lost(1)]) (simp_all add: connection_lost_def)
qed (simp_all add: http_inv_def upgrade_begin_def pause_writing_def resume_writing_def)

interpretation http_sys: invariant_system "\<lambda>h. h = http_new" "http_step parse" http_inv for parse
  by unfold_locales (simp add: http_inv_def http_new_def, rule http_step_inv)

lemma data_received_body:
  assumes "\<not> at_head (h_conn h)"
  shows "cycles (data_received parse bs h) = cycles h"
proof -
  obtain es c q where e: "pump_events parse ((h_conn h)\<lparr>unread := unread (h_conn h) @ bs\<rparr>) = (es, c, q)" by (metis surj_pair)
  from pump_starts [OF e] assms have "filter is_start es = []" by simp
  with e handle_events_keep [of es "h\<lparr>h_conn := c\<rparr>"] show ?thesis
    by (cases q) (simp_all add: data_received_def feed_data_def)
qed

section \<open>A whole response\<close>

text \<open>The calls of \<open>send\<close> of an application, one after the other, while the transport is not paused.\<close>

fun http_sends :: "byte list \<Rightarrow> http_sent list \<Rightarrow> cycle \<Rightarrow> http \<Rightarrow> send_result list \<times> cycle \<times> http" where
  "http_sends date [] y h = ([], y, h)"
| "http_sends date (m # ms) y h =
     (let (r, y, h) = http_send date m y h; (rs, y, h) = http_sends date ms y h in (r # rs, y, h))"

definition stream :: "nat \<Rightarrow> headers \<Rightarrow> byte list list \<Rightarrow> byte list \<Rightarrow> http_sent list" where
  "stream st hs bs b = Response_start st hs # map (\<lambda>b. Response_body b True) bs @ [Response_body b False]"

definition parts :: "byte list list \<Rightarrow> byte list" where
  "parts bs = concat (map (\<lambda>b. format_chunk b True) bs)"

lemma parts_frames: "parts bs @ format_chunk b False = frames (filter (\<lambda>b. b \<noteq> []) (bs @ [b]))"
  by (induction bs) (simp_all add: parts_def frames_def format_chunk_def)

lemma read_frames:
  assumes "buf @ delivered net = frames (filter (\<lambda>b. b \<noteq> []) ds) @ rest"
  shows "read_chunked (length (concat ds)) net buf [] = Inr (concat ds)"
proof -
  let ?ds = "filter (\<lambda>b. b \<noteq> []) ds"
  have c: "concat ?ds = concat ds" by (induction ds) auto
  have b: "buf @ delivered net = concat (map chunk_frame ?ds) @ chunk_end @ rest"
    using assms unfolding frames_def by (simp only: append.assoc)
  have "\<forall>d \<in> set ?ds. d \<noteq> []" by simp
  note r = read_chunked_frames [OF b this, of "length (concat ds)" "[]"]
  show ?thesis unfolding r by (simp add: c)
qed

text \<open>The parts after the first one.\<close>

lemma http_sends_parts:
  "y_status y = 2 \<Longrightarrow> drain_set h \<Longrightarrow>
   \<exists>y'. http_sends date (map (\<lambda>b. Response_body b True) bs @ [Response_body b False]) y h =
     (replicate (length bs + 1) Sent, y', h\<lparr>written := written h @ parts bs @ format_chunk b False\<rparr>) \<and>
     y_status y' = 3"
proof (induction bs arbitrary: y h)
  case Nil
  then show ?case by (simp add: http_write_def part_sent_def parts_def Let_def)
next
  case (Cons a bs)
  let ?h = "h\<lparr>written := written h @ format_chunk a True\<rparr>"
  from Cons.IH [of "y\<lparr>y_wrote := True\<rparr>" ?h] Cons.prems obtain y' where
    "http_sends date (map (\<lambda>b. Response_body b True) bs @ [Response_body b False]) (y\<lparr>y_wrote := True\<rparr>) ?h =
      (replicate (length bs + 1) Sent, y', ?h\<lparr>written := written ?h @ parts bs @ format_chunk b False\<rparr>)" "y_status y' = 3"
    by auto
  then show ?case using Cons.prems by (simp add: http_write_def part_sent_def parts_def Let_def)
qed

lemma http_sends_stream:
  assumes "y_status y = 0" and "drain_set h" and "header_safe hs"
    and "y' = y\<lparr>y_status := 1, y_start := (st, hs)\<rparr>" and "keep = (y_keep_alive y \<and> \<not> says_close hs)"
    and "http_sends date (stream st hs (b # bs) b') y h = (rs, y'', h')"
  shows "rs = replicate (Suc (Suc (Suc (length bs)))) Sent \<and> y_status y'' = 3 \<and>
    written h' = written h @ response_head st server_header date hs b True (no_body y') keep @
      (if no_body y' then [] else if names_header ''content-length'' hs then b else format_chunk b True) @
      parts bs @ format_chunk b' False"
proof -
  let ?w = "response_head st server_header date hs b True (no_body y') keep @
      (if no_body y' then [] else if names_header ''content-length'' hs then b else format_chunk b True)"
  let ?y = "y'\<lparr>y_keep_alive := keep, y_wrote := True, y_status := 2\<rparr>"
  have s: "http_send date (Response_body b True) y' h = (Sent, ?y, h\<lparr>written := written h @ ?w\<rparr>)"
    using assms(1-5) by (simp add: format_response_def first_sent_def http_write_def Let_def)
  have "http_send date (Response_start st hs) y h = (Sent, y', h)" using assms(1,4) by simp
  with s http_sends_parts [of ?y "h\<lparr>written := written h @ ?w\<rparr>" date bs b'] assms(2,6) show ?thesis
    by (auto simp: stream_def simp del: http_send.simps)
qed

section \<open>A body that nobody reads\<close>

lemma feed_rest:
  assumes "pstate c = Receiving m" and "m > 0" and "unread c = []" and "feed_data parse bs c = (es, c', p)"
  shows "\<not> p \<and> filter is_start es = [] \<and> \<not> list_ex (\<lambda>e. \<exists>st w. e = Protocol_error st w) es \<and>
    (if length bs < m then pstate c' = Receiving (m - length bs) \<and> unread c' = [] else pstate c' = Serving_app)"
  using assms
  by (cases bs)
    (auto simp: feed_data_def pump_events_def conn_turn_def turn_length_def Let_def min_def split: if_splits)

lemma feed_serving:
  assumes "pstate c = Serving_app" and "feed_data parse bs c = (es, c', p)"
  shows "\<not> p \<and> es = [] \<and> pstate c' = Serving_app"
  using assms by (auto simp: feed_data_def pump_events_def conn_turn_def)

text \<open>The application is gone, \<open>n\<close> bytes of the body are outstanding.\<close>

definition orphaned :: "nat \<Rightarrow> http \<Rightarrow> bool" where
  "orphaned n h \<longleftrightarrow> cycles h = [] \<and> \<not> closing h \<and> \<not> upgraded h \<and> h_state h = KEEP_ALIVE_WAIT \<and>
     (if n = 0 then pstate (h_conn h) = Serving_app else pstate (h_conn h) = Receiving n \<and> unread (h_conn h) = [])"

lemma handle_chunks:
  "filter is_start es = [] \<Longrightarrow> \<not> list_ex (\<lambda>e. \<exists>st w. e = Protocol_error st w) es \<Longrightarrow>
   cycles (handle_events es h) = cycles h \<and> closing (handle_events es h) = closing h \<and>
   upgraded (handle_events es h) = upgraded h \<and> h_state (handle_events es h) = h_state h \<and> h_conn (handle_events es h) = h_conn h"
proof (induction es arbitrary: h)
  case (Cons e es)
  have "cycles (handle_event e h) = cycles h \<and> closing (handle_event e h) = closing h \<and>
    upgraded (handle_event e h) = upgraded h \<and> h_state (handle_event e h) = h_state h \<and> h_conn (handle_event e h) = h_conn h"
    using Cons.prems by (cases e) (auto split: option.splits)
  with Cons.IH [of "handle_event e h"] Cons.prems show ?case by (auto split: if_splits)
qed simp

lemma orphaned_data:
  assumes "orphaned n h"
  shows "orphaned (n - length bs) (data_received parse bs h)"
proof -
  obtain es c p where e: "feed_data parse bs (h_conn h) = (es, c, p)" by (metis surj_pair)
  have "\<not> p \<and> filter is_start es = [] \<and> \<not> list_ex (\<lambda>e. \<exists>st w. e = Protocol_error st w) es \<and>
    (if length bs < n then pstate c = Receiving (n - length bs) \<and> unread c = [] else pstate c = Serving_app)"
    using assms feed_rest [OF _ _ _ e, of n] feed_serving [OF _ e] by (cases "n = 0") (auto simp: orphaned_def)
  then show ?thesis using assms e handle_chunks [of es "h\<lparr>h_conn := c\<rparr>"]
    by (auto simp: data_received_def orphaned_def)
qed

lemma orphaned_all: "orphaned n h \<Longrightarrow> orphaned (n - length (concat segs)) (fold (data_received parse) segs h)"
proof (induction segs arbitrary: n h)
  case (Cons s segs)
  from Cons.IH [OF orphaned_data [OF Cons.prems, of s parse]] show ?case by (simp add: diff_diff_add)
qed simp

lemma finally_orphaned:
  assumes "pstate (h_conn h) = Receiving n" and "n > 0" and "unread (h_conn h) = []"
    and "cycles h = [y]" and "pipeline h = []" and "\<not> closing h" and "\<not> upgraded h"
    and "cycle_finally parse (cycle_over h) = (p, h')"
  shows "\<not> p \<and> orphaned n h'"
  using assms
  by (auto simp: cycle_finally_def cycle_over_def reset_for_next_request_def pump_def pump_events_def conn_turn_def
      turn_length_def orphaned_def Let_def)

section \<open>Properties\<close>

text \<open>
  C25: A connection serves one request at a time.  In every reachable state there is at most one
  cycle, the queue of pipelined requests of the protocol is empty (the parser never hands on a
  request while another one is served), and what arrives while a cycle runs starts no other.
\<close>

theorem http_one_request:
  assumes "reach (http_step parse) http_new h"
  shows "length (cycles h) \<le> 1 \<and> pipeline h = [] \<and>
    (cycles h \<noteq> [] \<longrightarrow> cycles (data_received parse bs h) = cycles h)"
  using http_sys.inv_reach [OF assms refl] data_received_body [of h parse bs] by (auto simp: http_inv_def)

definition get_head :: head where
  "get_head = \<lparr>hd_method = ascii ''GET'', hd_target = ascii ''/'', hd_minor = 1, hd_headers = []\<rparr>"

definition toy_parser :: parser where
  "toy_parser u = Complete get_head 1"

lemma toy_pump:
  "at_head c \<Longrightarrow> unread c = b # bs \<Longrightarrow> length (b # bs) \<le> max_head c \<Longrightarrow>
   pump_events toy_parser c = ([Request_start get_head True False [] False],
     (advance 1 (compact_buffer c))\<lparr>request_count := request_count (compact_buffer c) + 1, c_keep_alive := True,
       pstate := Serving_app\<rparr>, False)"
  by (auto simp: pump_events_def conn_turn_def turn_head_def toy_parser_def get_head_def framing_of_def framing_new_def
      at_head_def Let_def compact_buffer_def)

theorem http_one_request_witness:
  "length (cycles (data_received toy_parser [1, 1] http_new)) = 1 \<and>
   length (cycles (data_received toy_parser [1] (data_received toy_parser [1, 1] http_new))) = 1"
proof -
  have "reach (http_step toy_parser) http_new (data_received toy_parser [1, 1] http_new)"
    by (rule reach_one, rule http_step.data) (simp add: http_new_def)
  from http_one_request [OF this, of "[1]"]
  show ?thesis
    by (simp add: data_received_def [of toy_parser "[1, 1]"] http_new_def feed_data_def toy_pump at_head_def conn_new_def start_cycle_def)
qed

text \<open>
  C26: A streamed response reaches the client as it was sent.  Without a \<open>content-length\<close> header and
  where a body is allowed, the messages of an application are written as one head with
  \<open>transfer-encoding: chunked\<close> and a chunked body which the decoder of the repository, however the
  network cuts it and whatever follows, reads back as the parts sent, empty ones included.
\<close>

theorem http_stream_roundtrip:
  assumes "y_status y = 0" and "drain_set h" and "header_safe hs" and "\<not> names_header ''content-length'' hs"
    and "\<not> no_body (y\<lparr>y_start := (st, hs)\<rparr>)"
    and "http_sends date (stream st hs (b # bs) b') y h = (rs, y', h')"
    and "buf @ delivered net = coded @ rest"
    and "written h' = written h @ response_head st server_header date hs b True False (y_keep_alive y \<and> \<not> says_close hs) @ coded"
  shows "set rs = {Sent} \<and> read_chunked (length (concat (b # bs @ [b']))) net buf [] = Inr (concat (b # bs @ [b']))"
proof -
  let ?y = "y\<lparr>y_status := 1, y_start := (st, hs)\<rparr>" and ?ds = "filter (\<lambda>b. b \<noteq> []) (b # bs @ [b'])"
  have nb: "\<not> no_body ?y" using assms(5) by (simp add: no_body_def)
  from http_sends_stream [OF assms(1-3) refl refl assms(6)] nb assms(4,8)
  have c: "coded = format_chunk b True @ parts bs @ format_chunk b' False" and rs: "rs = replicate (Suc (Suc (Suc (length bs)))) Sent"
    by simp_all
  have "format_chunk b True @ parts bs @ format_chunk b' False = parts (b # bs) @ format_chunk b' False"
    by (simp only: parts_def list.map concat.simps append.assoc)
  also have "\<dots> = frames ?ds" unfolding parts_frames by (simp only: append_Cons)
  finally have "coded = frames ?ds" unfolding c .
  then have "buf @ delivered net = frames ?ds @ rest" using assms(7) by simp
  then have "read_chunked (length (concat (b # bs @ [b']))) net buf [] = Inr (concat (b # bs @ [b']))" by (rule read_frames)
  moreover have "set rs = {Sent}" unfolding rs by (auto split: if_splits)
  ultimately show ?thesis by (rule conjI [rotated])
qed

definition get_cycle :: cycle where
  "get_cycle = cycle_new get_head False True False"

lemma get_cycle_simps [simp]:
  "y_status get_cycle = 0" "y_keep_alive get_cycle" "\<not> no_body (get_cycle\<lparr>y_start := (200, hs)\<rparr>)"
  by (simp_all add: get_cycle_def cycle_new_def no_body_def get_head_def ascii_def)

theorem http_stream_roundtrip_witness:
  "\<exists>coded. written (snd (snd (http_sends [] (stream 200 [] [[65]] [66, 67]) get_cycle http_new))) =
      response_head 200 server_header [] [] [65] True False True @ coded \<and>
    read_chunked 3 [] coded [] = Inr [65, 66, 67]"
proof -
  let ?r = "http_sends [] (stream 200 [] [[65]] [66, 67]) get_cycle http_new"
  let ?coded = "format_chunk [65] True @ parts [] @ format_chunk [66, 67] False"
  have s: "?r = (fst ?r, fst (snd ?r), snd (snd ?r))" by (simp only: prod.collapse)
  have h: "drain_set http_new" "header_safe []" "\<not> names_header n []" "\<not> says_close []" "written http_new = []" for n
    by (simp_all add: http_new_def header_safe_def names_header_def says_close_def)
  have w: "written (snd (snd ?r)) = written http_new @ response_head 200 server_header [] [] [65] True False (y_keep_alive get_cycle \<and> \<not> says_close []) @ ?coded"
    using http_sends_stream [OF get_cycle_simps(1) h(1,2) refl refl s] h(3,5) get_cycle_simps(3) [of "[]"] by (simp add: no_body_def)
  have "?coded @ delivered [] = ?coded @ []" by (simp only: delivered.simps)
  from http_stream_roundtrip [OF get_cycle_simps(1) h(1,2,3) get_cycle_simps(3) s this w]
  have "read_chunked 3 [] ?coded [] = Inr [65, 66, 67]" by (simp add: numeral_3_eq_3 del: read_chunked.simps)
  moreover have "written (snd (snd ?r)) = response_head 200 server_header [] [] [65] True False True @ ?coded"
    unfolding w h(5) by (simp add: h(4))
  ultimately show ?thesis by blast
qed

text \<open>
  C35: A response of several parts with a \<open>content-length\<close> header (as a file response has) is
  corrupted: the first part is written as it is, but the later ones with the framing of chunks,
  which the client takes for the body; it gets more bytes than were announced.  The same for a
  response without a body (\<open>HEAD\<close>, 204, 304): chunks are written after its head.
\<close>

theorem http_length_stream_corrupt:
  assumes "y_status y = 0" and "drain_set h" and "header_safe hs"
    and "names_header ''content-length'' hs \<or> no_body (y\<lparr>y_start := (st, hs)\<rparr>)"
    and "http_sends date (stream st hs (b # bs) b') y h = (rs, y', h')"
  shows "\<exists>head body. written h' = written h @ head @ body \<and> set rs = {Sent} \<and>
    head = response_head st server_header date hs b True (no_body (y\<lparr>y_start := (st, hs)\<rparr>)) (y_keep_alive y \<and> \<not> says_close hs) \<and>
    body = (if no_body (y\<lparr>y_start := (st, hs)\<rparr>) then [] else b) @ frames (filter (\<lambda>b. b \<noteq> []) (bs @ [b'])) \<and>
    (if no_body (y\<lparr>y_start := (st, hs)\<rparr>) then body \<noteq> [] else length (concat (b # bs @ [b'])) < length body)"
proof -
  have nb: "no_body (y\<lparr>y_status := 1, y_start := (st, hs)\<rparr>) = no_body (y\<lparr>y_start := (st, hs)\<rparr>)" by (simp add: no_body_def)
  have l: "length (concat ds) < length (frames (filter (\<lambda>b. b \<noteq> []) ds))" for ds
    by (induction ds) (auto simp: frames_Nil frames_Cons crlf_def)
  have ne: "frames ds \<noteq> []" for ds by (simp add: frames_def chunk_end_def ascii_def)
  from http_sends_stream [OF assms(1-3) refl refl assms(5)] assms(4) show ?thesis
    unfolding nb using parts_frames [of bs b'] l [of "bs @ [b']"] ne
    by (intro exI conjI) (auto simp del: filter_append concat_append)
qed

theorem http_length_stream_corrupt_witness:
  "\<exists>head. written (snd (snd (http_sends [] (stream 200 [(ascii ''Content-Length'', ascii ''2'')] [[65]] [66]) get_cycle http_new))) =
     head @ [65] @ ascii ''1'' @ crlf @ [66] @ crlf @ ascii ''0'' @ crlf @ crlf"
proof -
  let ?hs = "[(ascii ''Content-Length'', ascii ''2'')]"
  let ?r = "http_sends [] (stream 200 ?hs [[65]] [66]) get_cycle http_new"
  have s: "?r = (fst ?r, fst (snd ?r), snd (snd ?r))" by (simp only: prod.collapse)
  have h: "drain_set http_new" "written http_new = []" by (simp_all add: http_new_def)
  have hs: "header_safe ?hs" by (simp add: header_safe_def ascii_def)
  have cl: "names_header ''content-length'' ?hs \<or> no_body (get_cycle\<lparr>y_start := (200, ?hs)\<rparr>)"
    by (simp add: names_header_def ascii_def ascii_lower_def)
  have f: "frames [[66]] = ascii ''1'' @ crlf @ [66] @ crlf @ ascii ''0'' @ crlf @ crlf"
    by (simp add: frames_Cons frames_Nil hex_upper.simps hex_digit_def ascii_def)
  from http_length_stream_corrupt [OF get_cycle_simps(1) h(1) hs cl s] obtain hd body where
    "written (snd (snd ?r)) = written http_new @ hd @ body" "body = [65] @ frames (filter (\<lambda>b. b \<noteq> []) ([] @ [[66]]))"
    by (auto simp: get_cycle_simps(3))
  then show ?thesis unfolding h(2) by (auto simp: f)
qed

text \<open>
  An application that answers without reading the whole body leaves the connection stuck.  If
  the cycle ends while \<open>n\<close> bytes of a body with a length are outstanding, then once these have
  arrived nothing that follows on the connection is ever parsed: no cycle starts, and the
  connection is not closed either.
\<close>

theorem http_early_answer_sticks:
  assumes "pstate (h_conn h) = Receiving n" and "n > 0" and "unread (h_conn h) = []"
    and "cycles h = [y]" and "pipeline h = []" and "\<not> closing h" and "\<not> upgraded h"
    and "cycle_finally parse (cycle_over h) = (p, h')"
    and "length (concat segs) \<ge> n"
  shows "cycles (fold (data_received parse) segs h') = [] \<and> \<not> closing (fold (data_received parse) segs h') \<and>
    h_state (fold (data_received parse) segs h') = KEEP_ALIVE_WAIT \<and>
    pstate (h_conn (fold (data_received parse) segs h')) = Serving_app"
proof -
  from finally_orphaned [OF assms(1-8)] have "orphaned n h'" by simp
  from orphaned_all [OF this, of segs parse] assms(9) show ?thesis by (simp add: orphaned_def)
qed

definition half_read :: http where
  "half_read = http_new\<lparr>h_conn := (h_conn http_new)\<lparr>pstate := Receiving 2\<rparr>, h_state := SERVING_APP, cycles := [get_cycle],
     body_queue := Some [], has_current := True\<rparr>"

theorem http_early_answer_sticks_witness:
  "cycles (fold (data_received toy_parser) [[66, 67], [1, 1, 1], [1]] (snd (cycle_finally toy_parser (cycle_over half_read)))) = []"
proof -
  let ?r = "cycle_finally toy_parser (cycle_over half_read)"
  have s: "?r = (fst ?r, snd ?r)" by (simp only: prod.collapse)
  have h: "pstate (h_conn half_read) = Receiving 2" "unread (h_conn half_read) = []" "cycles half_read = [get_cycle]"
    "pipeline half_read = []" "\<not> closing half_read" "\<not> upgraded half_read"
    by (simp_all add: half_read_def http_new_def conn_new_def)
  show ?thesis
    using http_early_answer_sticks [OF h(1) _ h(2-6) s, of "[[66, 67], [1, 1, 1], [1]]"] by (simp del: fold_simps)
qed

text \<open>
  A lost connection goes on serving.  The loss of the connection cancels the cycle that runs;
  its \<open>finally\<close> leaves the state \<open>CLOSED\<close> again, and a pipelined request that is in the buffer is
  started: a cycle for a connection that is gone, which nothing cancels any more.
\<close>

theorem http_lost_serves_on:
  assumes "cycles h = [y]" and "pipeline h = []" and "h_state h = SERVING_APP" and "has_current h"
    and "pump_events parse (reset_for_next_request (h_conn h)) = ([Request_start rq ka False proto has_body], c, False)"
    and "cycle_finally parse (cycle_over (connection_lost h)) = (p, h')"
  shows "cancelled (connection_lost h) \<and> cycles h' = [cycle_new rq False ka has_body] \<and> h_state h' = SERVING_APP \<and>
    closed_event h' \<and> closing h' \<and> \<not> cancelled h' \<and> \<not> disconnected h'"
proof -
  have "pstate (reset_for_next_request (h_conn h)) \<noteq> P_closed"
    using assms(5) by (auto simp: pump_events_def conn_turn_def)
  then show ?thesis using assms
    by (auto simp: connection_lost_def http_close_def cycle_over_def cycle_finally_def pump_def start_cycle_def Let_def
        simp del: conn_loop.simps)
qed

definition pipelined :: http where
  "pipelined = http_new\<lparr>h_conn := (h_conn http_new)\<lparr>pstate := Serving_app, unread := [1], request_count := 1\<rparr>,
     h_state := SERVING_APP, cycles := [get_cycle], has_current := True\<rparr>"

theorem http_lost_serves_on_witness:
  "cycles (snd (cycle_finally toy_parser (cycle_over (connection_lost pipelined)))) = [cycle_new get_head False True False]"
proof -
  let ?r = "cycle_finally toy_parser (cycle_over (connection_lost pipelined))"
  let ?c = "reset_for_next_request (h_conn pipelined)"
  have s: "?r = (fst ?r, snd ?r)" by (simp only: prod.collapse)
  have h: "cycles pipelined = [get_cycle]" "pipeline pipelined = []" "h_state pipelined = SERVING_APP" "has_current pipelined"
    by (simp_all add: pipelined_def http_new_def)
  have c: "at_head ?c" "unread ?c = [1]" "max_head ?c = 64 * 1024"
    by (simp_all add: pipelined_def http_new_def conn_new_def reset_for_next_request_def at_head_def Let_def)
  from toy_pump [of ?c 1 "[]"] c obtain c' where
    "pump_events toy_parser ?c = ([Request_start get_head True False [] False], c', False)" by simp
  from http_lost_serves_on [OF h this s] show ?thesis by simp
qed

text \<open>
  \<open>send\<close> refuses exactly the messages out of order: a second start, a body before the start or
  after the last part, an unknown type, a header with a line break; a refused message writes
  nothing and changes nothing.
\<close>

theorem http_send_refuses:
  "((\<exists>e. fst (http_send date msg y h) = Send_failed e) \<longleftrightarrow>
      (case msg of
         Response_start st hs \<Rightarrow> y_status y \<noteq> 0
       | Response_body b m \<Rightarrow> y_status y \<noteq> 1 \<and> y_status y \<noteq> 2 \<or> y_status y = 1 \<and> \<not> header_safe (snd (y_start y))
       | Other_message \<Rightarrow> True)) \<and>
   ((\<exists>e. fst (http_send date msg y h) = Send_failed e) \<longrightarrow> snd (http_send date msg y h) = (y, h))"
  by (cases msg) (auto simp: format_response_def first_sent_def part_sent_def Let_def)

theorem http_send_refuses_witness:
  "snd (http_send [] (Response_start 404 []) (get_cycle\<lparr>y_status := 1\<rparr>) http_new) = (get_cycle\<lparr>y_status := 1\<rparr>, http_new)"
  using http_send_refuses [of "[]" "Response_start 404 []" "get_cycle\<lparr>y_status := 1\<rparr>" http_new] by simp

end
