(* ===== verification/Once.thy ===== *)
theory Once
  imports Futures
begin

text \<open>
  \<open>AsyncOnce\<close> of \<open>primitives.py\<close>: the first caller of \<open>do\<close> runs the function, the others wait for
  it.  Proved: the function is started at most once, whoever returns a value returns that of the
  run, and nobody waits after it.
\<close>

section \<open>The code\<close>

record 'v once =
  oc_done :: bool
  oc_result :: "'v option"
  oc_exc :: "error option"
  oc_executing :: bool
  oc_waiters :: "(evt, loop) odict"

definition once_new :: "'v once" where
  "once_new = \<lparr>oc_done = False, oc_result = None, oc_exc = None, oc_executing = False, oc_waiters = []\<rparr>"

text \<open>What \<open>do\<close> raises or returns once the function is over.\<close>

definition once_outcome :: "'v once \<Rightarrow> error + 'v option" where
  "once_outcome r = (case oc_exc r of Some e \<Rightarrow> Inl e | None \<Rightarrow> Inr (oc_result r))"

datatype 'v entry = At_once "error + 'v option" | Leader | Follower evt

text \<open>The first critical section, by a caller whose loop is \<open>l\<close>.\<close>

definition once_enter :: "loop \<Rightarrow> 'v once \<Rightarrow> aio \<Rightarrow> 'v entry \<times> 'v once \<times> aio" where
  "once_enter l r a =
     (if oc_done r then (At_once (once_outcome r), r, a)
      else if \<not> oc_executing r then (Leader, r\<lparr>oc_executing := True\<rparr>, a)
      else (let (f, a) = new_event a in (Follower f, r\<lparr>oc_waiters := od_set f l (oc_waiters r)\<rparr>, a)))"

text \<open>The end of the function, in its thread; then the \<open>finally\<close> under the lock.\<close>

definition once_ran :: "error + 'v \<Rightarrow> 'v once \<Rightarrow> 'v once" where
  "once_ran out r =
     (case out of
        Inr v \<Rightarrow> r\<lparr>oc_result := Some v\<rparr>
      | Inl e \<Rightarrow> r\<lparr>oc_exc := Some (if e = CancelledError then RuntimeError ''AsyncOnce execution was cancelled'' else e)\<rparr>)"

definition once_finally :: "(evt \<Rightarrow> bool) \<Rightarrow> 'v once \<Rightarrow> aio \<Rightarrow> 'v once \<times> aio" where
  "once_finally dn r a =
     (let (ws, a) = wake_all_dict None dn (oc_waiters r) a in (r\<lparr>oc_done := True, oc_waiters := ws\<rparr>, a))"

text \<open>A follower after its wait: the \<open>finally\<close>.\<close>

definition once_left :: "evt \<Rightarrow> 'v once \<Rightarrow> 'v once" where
  "once_left f r = r\<lparr>oc_waiters := snd (discard_waiter f (oc_waiters r))\<rparr>"

section \<open>Callers\<close>

text \<open>The leader first ends the function, then runs its \<open>finally\<close>.\<close>

datatype 'v caller = C_idle | C_running | C_ran "error + 'v" | C_waiting evt | C_over "error + 'v option"

record 'v osys =
  os_once :: "'v once"
  os_aio :: aio
  os_callers :: "task \<Rightarrow> 'v caller"
  os_loop :: "task \<Rightarrow> loop"
  os_cancelled :: "evt set"

definition os_put :: "task \<Rightarrow> 'v caller \<Rightarrow> 'v osys \<Rightarrow> 'v osys" where
  "os_put t x s = s\<lparr>os_callers := (os_callers s)(t := x)\<rparr>"

definition entry_caller :: "'v entry \<Rightarrow> 'v caller" where
  "entry_caller e = (case e of At_once r \<Rightarrow> C_over r | Leader \<Rightarrow> C_running | Follower f \<Rightarrow> C_waiting f)"

definition waited_for :: "'v osys \<Rightarrow> evt set" where
  "waited_for s = {f. \<exists>t. os_callers s t = C_waiting f}"

inductive once_step :: "'v osys \<Rightarrow> 'v osys \<Rightarrow> bool" where
  os_enter: "os_callers s t = C_idle \<Longrightarrow> once_enter (os_loop s t) (os_once s) (os_aio s) = (e, r, a) \<Longrightarrow>
     once_step s (os_put t (entry_caller e) (s\<lparr>os_once := r, os_aio := a\<rparr>))"
| os_ran: "os_callers s t = C_running \<Longrightarrow> once_step s (os_put t (C_ran out) (s\<lparr>os_once := once_ran out (os_once s)\<rparr>))"
| os_finally: "os_callers s t = C_ran out \<Longrightarrow> (\<And>f. dn f \<Longrightarrow> f \<in> evset (os_aio s) \<or> f \<in> os_cancelled s) \<Longrightarrow>
     once_finally dn (os_once s) (os_aio s) = (r, a) \<Longrightarrow>
     once_step s (os_put t (C_over (case out of Inl e \<Rightarrow> Inl e | Inr v \<Rightarrow> Inr (oc_result r))) (s\<lparr>os_once := r, os_aio := a\<rparr>))"
| os_woken: "os_callers s t = C_waiting f \<Longrightarrow> f \<in> evset (os_aio s) \<Longrightarrow>
     once_step s (os_put t (C_over (once_outcome (os_once s))) (s\<lparr>os_once := once_left f (os_once s)\<rparr>))"
| os_cancel: "os_callers s t = C_waiting f \<Longrightarrow> once_step s (s\<lparr>os_cancelled := insert f (os_cancelled s)\<rparr>)"
| os_cancelled: "os_callers s t = C_waiting f \<Longrightarrow> f \<in> os_cancelled s \<Longrightarrow>
     once_step s (os_put t (C_over (Inl CancelledError)) (s\<lparr>os_once := once_left f (os_once s)\<rparr>))"
| os_env: "fut_env (waited_for s) (os_aio s) a \<Longrightarrow> once_step s (s\<lparr>os_aio := a\<rparr>)"

definition once_start :: "'v osys \<Rightarrow> bool" where
  "once_start s \<longleftrightarrow> os_once s = once_new \<and> os_aio s = aio_init \<and> (\<forall>t. os_callers s t = C_idle) \<and> os_cancelled s = {}"

fun leads :: "'v caller \<Rightarrow> bool" where
  "leads C_running = True" | "leads (C_ran out) = True" | "leads x = False"

text \<open>
  The invariant.  The queue belongs to a run that is not over, and there is exactly one leader
  then; a future that was completed says that the run is over; a follower of an open loop is in the
  queue, or its future is completed or cancelled; the outcome is that of the run.
\<close>

definition once_inv :: "'v osys \<Rightarrow> bool" where
  "once_inv s \<longleftrightarrow>
     (\<forall>t u. leads (os_callers s t) \<longrightarrow> leads (os_callers s u) \<longrightarrow> t = u) \<and>
     (\<forall>t. leads (os_callers s t) \<longrightarrow> oc_executing (os_once s) \<and> \<not> oc_done (os_once s)) \<and>
     (oc_executing (os_once s) \<longrightarrow> \<not> oc_done (os_once s) \<longrightarrow> (\<exists>t. leads (os_callers s t))) \<and>
     (oc_done (os_once s) \<longrightarrow> oc_executing (os_once s) \<and> oc_waiters (os_once s) = []) \<and>
     (\<forall>t f. os_callers s t = C_waiting f \<longrightarrow> f < next_evt (os_aio s) \<and> oc_executing (os_once s)) \<and>
     (\<forall>t f. os_callers s t = C_waiting f \<longrightarrow> f \<in> scheduled (os_aio s) \<longrightarrow> oc_done (os_once s)) \<and>
     (\<forall>t f. os_callers s t = C_waiting f \<longrightarrow> os_loop s t \<notin> closed (os_aio s) \<longrightarrow> f \<notin> scheduled (os_aio s) \<longrightarrow>
        f \<notin> os_cancelled s \<longrightarrow> \<not> oc_done (os_once s) \<and> (f, os_loop s t) \<in> set (oc_waiters (os_once s))) \<and>
     (\<forall>t u f. os_callers s t = C_waiting f \<longrightarrow> os_callers s u = C_waiting f \<longrightarrow> t = u) \<and>
     (fut_ok {} (os_aio s)) \<and>
     (\<forall>f l. (f, l) \<in> set (oc_waiters (os_once s)) \<longrightarrow> f < next_evt (os_aio s)) \<and>
     (\<forall>t v. os_callers s t = C_over (Inr v) \<longrightarrow> oc_done (os_once s) \<and> oc_exc (os_once s) = None \<and> v = oc_result (os_once s)) \<and>
     (\<forall>t w. os_callers s t = C_ran (Inr w) \<longrightarrow> oc_result (os_once s) = Some w \<and> oc_exc (os_once s) = None) \<and>
     (\<forall>t e. os_callers s t = C_ran (Inl e) \<longrightarrow> oc_exc (os_once s) \<noteq> None) \<and>
     (\<forall>t. os_callers s t = C_running \<longrightarrow> oc_exc (os_once s) = None) \<and>
     (\<not> oc_executing (os_once s) \<longrightarrow> oc_exc (os_once s) = None)"

lemma once_invI:
  assumes "\<And>t u. leads (os_callers s t) \<Longrightarrow> leads (os_callers s u) \<Longrightarrow> t = u"
    and "\<And>t. leads (os_callers s t) \<Longrightarrow> oc_executing (os_once s) \<and> \<not> oc_done (os_once s)"
    and "oc_executing (os_once s) \<Longrightarrow> \<not> oc_done (os_once s) \<Longrightarrow> (\<exists>t. leads (os_callers s t))"
    and "oc_done (os_once s) \<Longrightarrow> oc_executing (os_once s) \<and> oc_waiters (os_once s) = []"
    and "\<And>t f. os_callers s t = C_waiting f \<Longrightarrow> f < next_evt (os_aio s) \<and> oc_executing (os_once s)"
    and "\<And>t f. os_callers s t = C_waiting f \<Longrightarrow> f \<in> scheduled (os_aio s) \<Longrightarrow> oc_done (os_once s)"
    and "\<And>t f. os_callers s t = C_waiting f \<Longrightarrow> os_loop s t \<notin> closed (os_aio s) \<Longrightarrow> f \<notin> scheduled (os_aio s) \<Longrightarrow> f \<notin> os_cancelled s \<Longrightarrow> \<not> oc_done (os_once s) \<and> (f, os_loop s t) \<in> set (oc_waiters (os_once s))"
    and "\<And>t u f. os_callers s t = C_waiting f \<Longrightarrow> os_callers s u = C_waiting f \<Longrightarrow> t = u"
    and "fut_ok {} (os_aio s)"
    and "\<And>f l. (f, l) \<in> set (oc_waiters (os_once s)) \<Longrightarrow> f < next_evt (os_aio s)"
    and "\<And>t v. os_callers s t = C_over (Inr v) \<Longrightarrow> oc_done (os_once s) \<and> oc_exc (os_once s) = None \<and> v = oc_result (os_once s)"
    and "\<And>t w. os_callers s t = C_ran (Inr w) \<Longrightarrow> oc_result (os_once s) = Some w \<and> oc_exc (os_once s) = None"
    and "\<And>t e. os_callers s t = C_ran (Inl e) \<Longrightarrow> oc_exc (os_once s) \<noteq> None"
    and "\<And>t. os_callers s t = C_running \<Longrightarrow> oc_exc (os_once s) = None"
    and "\<not> oc_executing (os_once s) \<Longrightarrow> oc_exc (os_once s) = None"
  shows "once_inv s"
proof -
  have a1: "(\<forall>t u. leads (os_callers s t) \<longrightarrow> leads (os_callers s u) \<longrightarrow> t = u)" using assms(1) by blast
  have a2: "(\<forall>t. leads (os_callers s t) \<longrightarrow> oc_executing (os_once s) \<and> \<not> oc_done (os_once s))" using assms(2) by blast
  have a3: "(oc_executing (os_once s) \<longrightarrow> \<not> oc_done (os_once s) \<longrightarrow> (\<exists>t. leads (os_callers s t)))" using assms(3) by blast
  have a4: "(oc_done (os_once s) \<longrightarrow> oc_executing (os_once s) \<and> oc_waiters (os_once s) = [])" using assms(4) by blast
  have a5: "(\<forall>t f. os_callers s t = C_waiting f \<longrightarrow> f < next_evt (os_aio s) \<and> oc_executing (os_once s))" using assms(5) by blast
  have a6: "(\<forall>t f. os_callers s t = C_waiting f \<longrightarrow> f \<in> scheduled (os_aio s) \<longrightarrow> oc_done (os_once s))" using assms(6) by blast
  have a7: "(\<forall>t f. os_callers s t = C_waiting f \<longrightarrow> os_loop s t \<notin> closed (os_aio s) \<longrightarrow> f \<notin> scheduled (os_aio s) \<longrightarrow>
        f \<notin> os_cancelled s \<longrightarrow> \<not> oc_done (os_once s) \<and> (f, os_loop s t) \<in> set (oc_waiters (os_once s)))" using assms(7) by blast
  have a8: "(\<forall>t u f. os_callers s t = C_waiting f \<longrightarrow> os_callers s u = C_waiting f \<longrightarrow> t = u)" using assms(8) by blast
  have a9: "(fut_ok {} (os_aio s))" using assms(9) by blast
  have a10: "(\<forall>f l. (f, l) \<in> set (oc_waiters (os_once s)) \<longrightarrow> f < next_evt (os_aio s))" using assms(10) by blast
  have a11: "(\<forall>t v. os_callers s t = C_over (Inr v) \<longrightarrow> oc_done (os_once s) \<and> oc_exc (os_once s) = None \<and> v = oc_result (os_once s))" using assms(11) by blast
  have a12: "(\<forall>t w. os_callers s t = C_ran (Inr w) \<longrightarrow> oc_result (os_once s) = Some w \<and> oc_exc (os_once s) = None)" using assms(12) by blast
  have a13: "(\<forall>t e. os_callers s t = C_ran (Inl e) \<longrightarrow> oc_exc (os_once s) \<noteq> None)" using assms(13) by blast
  have a14: "(\<forall>t. os_callers s t = C_running \<longrightarrow> oc_exc (os_once s) = None)" using assms(14) by blast
  have a15: "(\<not> oc_executing (os_once s) \<longrightarrow> oc_exc (os_once s) = None)" using assms(15) by blast
  show ?thesis unfolding once_inv_def
    by (rule conjI, fact)+ fact
qed

lemma once_invD:
  assumes "once_inv s"
  shows "leads (os_callers s t) \<Longrightarrow> leads (os_callers s u) \<Longrightarrow> t = u"
    and "leads (os_callers s t) \<Longrightarrow> oc_executing (os_once s) \<and> \<not> oc_done (os_once s)"
    and "oc_executing (os_once s) \<Longrightarrow> \<not> oc_done (os_once s) \<Longrightarrow> (\<exists>t. leads (os_callers s t))"
    and "oc_done (os_once s) \<Longrightarrow> oc_executing (os_once s) \<and> oc_waiters (os_once s) = []"
    and "os_callers s t = C_waiting f \<Longrightarrow> f < next_evt (os_aio s) \<and> oc_executing (os_once s)"
    and "os_callers s t = C_waiting f \<Longrightarrow> f \<in> scheduled (os_aio s) \<Longrightarrow> oc_done (os_once s)"
    and "os_callers s t = C_waiting f \<Longrightarrow> os_loop s t \<notin> closed (os_aio s) \<Longrightarrow> f \<notin> scheduled (os_aio s) \<Longrightarrow> f \<notin> os_cancelled s \<Longrightarrow> \<not> oc_done (os_once s) \<and> (f, os_loop s t) \<in> set (oc_waiters (os_once s))"
    and "os_callers s t = C_waiting f \<Longrightarrow> os_callers s u = C_waiting f \<Longrightarrow> t = u"
    and "fut_ok {} (os_aio s)"
    and "(f, l) \<in> set (oc_waiters (os_once s)) \<Longrightarrow> f < next_evt (os_aio s)"
    and "os_callers s t = C_over (Inr v) \<Longrightarrow> oc_done (os_once s) \<and> oc_exc (os_once s) = None \<and> v = oc_result (os_once s)"
    and "os_callers s t = C_ran (Inr w) \<Longrightarrow> oc_result (os_once s) = Some w \<and> oc_exc (os_once s) = None"
    and "os_callers s t = C_ran (Inl e) \<Longrightarrow> oc_exc (os_once s) \<noteq> None"
    and "os_callers s t = C_running \<Longrightarrow> oc_exc (os_once s) = None"
    and "\<not> oc_executing (os_once s) \<Longrightarrow> oc_exc (os_once s) = None"
proof -
  have a: "(\<forall>t u. leads (os_callers s t) \<longrightarrow> leads (os_callers s u) \<longrightarrow> t = u)"
    "(\<forall>t. leads (os_callers s t) \<longrightarrow> oc_executing (os_once s) \<and> \<not> oc_done (os_once s))"
    "(oc_executing (os_once s) \<longrightarrow> \<not> oc_done (os_once s) \<longrightarrow> (\<exists>t. leads (os_callers s t)))"
    "(oc_done (os_once s) \<longrightarrow> oc_executing (os_once s) \<and> oc_waiters (os_once s) = [])"
    "(\<forall>t f. os_callers s t = C_waiting f \<longrightarrow> f < next_evt (os_aio s) \<and> oc_executing (os_once s))"
    "(\<forall>t f. os_callers s t = C_waiting f \<longrightarrow> f \<in> scheduled (os_aio s) \<longrightarrow> oc_done (os_once s))"
    "(\<forall>t f. os_callers s t = C_waiting f \<longrightarrow> os_loop s t \<notin> closed (os_aio s) \<longrightarrow> f \<notin> scheduled (os_aio s) \<longrightarrow>
        f \<notin> os_cancelled s \<longrightarrow> \<not> oc_done (os_once s) \<and> (f, os_loop s t) \<in> set (oc_waiters (os_once s)))"
    "(\<forall>t u f. os_callers s t = C_waiting f \<longrightarrow> os_callers s u = C_waiting f \<longrightarrow> t = u)"
    "(fut_ok {} (os_aio s))"
    "(\<forall>f l. (f, l) \<in> set (oc_waiters (os_once s)) \<longrightarrow> f < next_evt (os_aio s))"
    "(\<forall>t v. os_callers s t = C_over (Inr v) \<longrightarrow> oc_done (os_once s) \<and> oc_exc (os_once s) = None \<and> v = oc_result (os_once s))"
    "(\<forall>t w. os_callers s t = C_ran (Inr w) \<longrightarrow> oc_result (os_once s) = Some w \<and> oc_exc (os_once s) = None)"
    "(\<forall>t e. os_callers s t = C_ran (Inl e) \<longrightarrow> oc_exc (os_once s) \<noteq> None)"
    "(\<forall>t. os_callers s t = C_running \<longrightarrow> oc_exc (os_once s) = None)"
    "(\<not> oc_executing (os_once s) \<longrightarrow> oc_exc (os_once s) = None)"
    using assms unfolding once_inv_def by - (elim conjE; assumption)+
  show "leads (os_callers s t) \<Longrightarrow> leads (os_callers s u) \<Longrightarrow> t = u" using a(1) by blast
  show "leads (os_callers s t) \<Longrightarrow> oc_executing (os_once s) \<and> \<not> oc_done (os_once s)" using a(2) by blast
  show "oc_executing (os_once s) \<Longrightarrow> \<not> oc_done (os_once s) \<Longrightarrow> (\<exists>t. leads (os_callers s t))" using a(3) by blast
  show "oc_done (os_once s) \<Longrightarrow> oc_executing (os_once s) \<and> oc_waiters (os_once s) = []" using a(4) by blast
  show "os_callers s t = C_waiting f \<Longrightarrow> f < next_evt (os_aio s) \<and> oc_executing (os_once s)" using a(5) by blast
  show "os_callers s t = C_waiting f \<Longrightarrow> f \<in> scheduled (os_aio s) \<Longrightarrow> oc_done (os_once s)" using a(6) by blast
  show "os_callers s t = C_waiting f \<Longrightarrow> os_loop s t \<notin> closed (os_aio s) \<Longrightarrow> f \<notin> scheduled (os_aio s) \<Longrightarrow> f \<notin> os_cancelled s \<Longrightarrow> \<not> oc_done (os_once s) \<and> (f, os_loop s t) \<in> set (oc_waiters (os_once s))" using a(7) by blast
  show "os_callers s t = C_waiting f \<Longrightarrow> os_callers s u = C_waiting f \<Longrightarrow> t = u" using a(8) by blast
  show "fut_ok {} (os_aio s)" by (rule a(9))
  show "(f, l) \<in> set (oc_waiters (os_once s)) \<Longrightarrow> f < next_evt (os_aio s)" using a(10) by blast
  show "os_callers s t = C_over (Inr v) \<Longrightarrow> oc_done (os_once s) \<and> oc_exc (os_once s) = None \<and> v = oc_result (os_once s)" using a(11) by blast
  show "os_callers s t = C_ran (Inr w) \<Longrightarrow> oc_result (os_once s) = Some w \<and> oc_exc (os_once s) = None" using a(12) by blast
  show "os_callers s t = C_ran (Inl e) \<Longrightarrow> oc_exc (os_once s) \<noteq> None" using a(13) by blast
  show "os_callers s t = C_running \<Longrightarrow> oc_exc (os_once s) = None" using a(14) by blast
  show "\<not> oc_executing (os_once s) \<Longrightarrow> oc_exc (os_once s) = None" using a(15) by blast
qed

lemma once_inv_start: "once_start s \<Longrightarrow> once_inv s"
  by (rule once_invI) (auto simp: once_start_def once_new_def fut_ok_init)

lemma wake_all_none:
  "wake_all_dict None dn ws a = (ws', a') \<Longrightarrow>
   ws' = [] \<and> closed a' = closed a \<and> evset a' = evset a \<and> next_evt a' = next_evt a \<and>
   scheduled a \<subseteq> scheduled a' \<and> scheduled a' \<subseteq> scheduled a \<union> fst ` set ws \<and>
   (\<forall>(f, l) \<in> set ws. dn f \<or> l \<in> closed a \<or> f \<in> scheduled a')"
proof (induction "None :: nat option" dn ws a rule: wake_all_dict.induct)
  case (2 dn f l ws a)
  show ?case
  proof (cases "dn f")
    case True
    then show ?thesis using 2(1) 2(3) by auto
  next
    case False
    then have "wake_all_dict None dn ws (set_soon l f a) = (ws', a')" using 2(3) by simp
    from 2(2) [OF _ False _ this] show ?thesis by (auto simp: set_soon_eq split: if_splits)
  qed
qed simp

text \<open>The three ways in.\<close>

lemma once_at_once_inv:
  assumes inv: "once_inv s" and t: "\<not> leads (os_callers s t)" and d: "oc_done (os_once s)"
  shows "once_inv (os_put t (C_over (once_outcome (os_once s))) s)"
proof -
  note D = once_invD [OF inv]
  have o: "once_outcome (os_once s) = Inr v \<Longrightarrow> oc_exc (os_once s) = None \<and> v = oc_result (os_once s)" for v
    by (auto simp: once_outcome_def split: option.splits)
  show ?thesis
  proof (rule once_invI, goal_cases)
    case (1 x y)
    then show ?case using D(1) [of x y] by (auto simp: os_put_def split: if_splits)
  next
    case (2 x)
    then show ?case using D(2) [of x] by (auto simp: os_put_def split: if_splits)
  next
    case 3
    then show ?case using D(3) d by (auto simp: os_put_def split: if_splits)
  next
    case 4
    then show ?case using D(4) by (auto simp: os_put_def split: if_splits)
  next
    case (5 x f)
    then show ?case using D(5) [of x f] by (auto simp: os_put_def split: if_splits)
  next
    case (6 x f)
    then show ?case using D(6) [of x f] by (auto simp: os_put_def split: if_splits)
  next
    case (7 x f)
    then show ?case using D(7) [of x f] by (auto simp: os_put_def split: if_splits)
  next
    case (8 x y f)
    then show ?case using D(8) [of x f y] by (auto simp: os_put_def split: if_splits)
  next
    case 9
    then show ?case using D(9) by (auto simp: os_put_def split: if_splits)
  next
    case (10 f l)
    then show ?case using D(10) [of f l] by (auto simp: os_put_def split: if_splits)
  next
    case (11 x v)
    then show ?case using D(11) [of x v] d o [of v] by (auto simp: os_put_def split: if_splits)
  next
    case (12 x w)
    then show ?case using D(12) [of x w] by (auto simp: os_put_def split: if_splits)
  next
    case (13 x e)
    then show ?case using D(13) [of x e] by (auto simp: os_put_def split: if_splits)
  next
    case (14 x)
    then show ?case using D(14) [of x] by (auto simp: os_put_def split: if_splits)
  next
    case 15
    then show ?case using D(15) by (auto simp: os_put_def split: if_splits)
  qed
qed

lemma once_leader_inv:
  assumes inv: "once_inv s" and t: "os_callers s t = C_idle" and d: "\<not> oc_done (os_once s)" "\<not> oc_executing (os_once s)"
  shows "once_inv (os_put t C_running (s\<lparr>os_once := (os_once s)\<lparr>oc_executing := True\<rparr>\<rparr>))"
proof -
  note D = once_invD [OF inv]
  have nl: "\<not> leads (os_callers s u)" for u using D(2) [of u] d by blast
  have nw: "os_callers s u \<noteq> C_waiting f" for u f using D(5) [of u f] d by blast
  have no: "os_callers s u \<noteq> C_over (Inr v)" for u v using D(11) [of u v] d by blast
  have nr: "os_callers s u \<noteq> C_ran x" "os_callers s u \<noteq> C_running" for u x using nl [of u] by auto
  show ?thesis
  proof (rule once_invI, goal_cases)
    case (1 x y)
    then show ?case using D(1) [of x y] by (auto simp: os_put_def nl nw no nr split: if_splits)
  next
    case (2 x)
    then show ?case using D(2) [of x] d by (auto simp: os_put_def nl nw no nr split: if_splits)
  next
    case 3
    show ?case by (intro exI [of _ t]) (simp add: os_put_def)
  next
    case 4
    then show ?case using D(4) d by (auto simp: os_put_def nl nw no nr split: if_splits)
  next
    case (5 x f)
    then show ?case using D(5) [of x f] nw by (auto simp: os_put_def nl nw no nr split: if_splits)
  next
    case (6 x f)
    then show ?case using D(6) [of x f] nw by (auto simp: os_put_def nl nw no nr split: if_splits)
  next
    case (7 x f)
    then show ?case using D(7) [of x f] nw by (auto simp: os_put_def nl nw no nr split: if_splits)
  next
    case (8 x y f)
    then show ?case using D(8) [of x f y] nw by (auto simp: os_put_def nl nw no nr split: if_splits)
  next
    case 9
    then show ?case using D(9) by (auto simp: os_put_def nl nw no nr split: if_splits)
  next
    case (10 f l)
    then show ?case using D(10) [of f l] by (auto simp: os_put_def nl nw no nr split: if_splits)
  next
    case (11 x v)
    then show ?case using D(11) [of x v] by (auto simp: os_put_def nl nw no nr split: if_splits)
  next
    case (12 x w)
    then show ?case using D(12) [of x w] by (auto simp: os_put_def nl nw no nr split: if_splits)
  next
    case (13 x e)
    then show ?case using D(13) [of x e] by (auto simp: os_put_def nl nw no nr split: if_splits)
  next
    case (14 x)
    then show ?case using D(14) [of x] D(15) d(2) by (auto simp: os_put_def nl nw no nr split: if_splits)
  next
    case 15
    then show ?case using D(15) by (auto simp: os_put_def nl nw no nr split: if_splits)
  qed
qed

lemma once_follower_inv:
  assumes inv: "once_inv s" and t: "os_callers s t = C_idle" and d: "\<not> oc_done (os_once s)" "oc_executing (os_once s)"
    and e: "new_event (os_aio s) = (g, a)"
  shows "once_inv (os_put t (C_waiting g)
    (s\<lparr>os_once := (os_once s)\<lparr>oc_waiters := od_set g (os_loop s t) (oc_waiters (os_once s))\<rparr>, os_aio := a\<rparr>))"
proof -
  note D = once_invD [OF inv]
  have o: "fut_ok {g} a" using fut_ok_new [OF D(9) e] by blast
  have g: "g = next_evt (os_aio s)" "a = (os_aio s)\<lparr>next_evt := Suc g\<rparr>" "fut_ok {g} a" "g \<notin> scheduled a"
    using e o fut_okD(4) [OF o, of g] by (simp_all add: new_event_eq)
  have "\<not> od_has g (oc_waiters (os_once s))" using D(10) g(1) by (force simp: od_has_def)
  then have q: "od_set g l (oc_waiters (os_once s)) = oc_waiters (os_once s) @ [(g, l)]" for l by (rule od_set_fresh)
  have ok: "fut_ok {} a" using fut_ok_mono [OF g(3)] by blast
  have nf: "os_callers s u \<noteq> C_waiting g" for u using D(5) [of u g] g(1) by auto
  obtain v where v: "leads (os_callers s v)" using D(3) d by blast
  then have "v \<noteq> t" using t by auto
  show ?thesis unfolding q
  proof (rule once_invI, goal_cases)
    case (1 x y)
    then show ?case using D(1) [of x y] by (auto simp: os_put_def less_Suc_eq split: if_splits)
  next
    case (2 x)
    then show ?case using D(2) [of x] by (auto simp: os_put_def less_Suc_eq split: if_splits)
  next
    case 3
    show ?case using v \<open>v \<noteq> t\<close> by (intro exI [of _ v]) (simp add: os_put_def)
  next
    case 4
    then show ?case using D(4) d(1) by (auto simp: os_put_def less_Suc_eq split: if_splits)
  next
    case (5 x f)
    then show ?case using D(5) [of x f] g(1,2) d(2) by (auto simp: os_put_def less_Suc_eq split: if_splits)
  next
    case (6 x f)
    then show ?case using D(6) [of x f] g(2,4) by (cases "x = t") (simp_all add: os_put_def)
  next
    case (7 x f)
    then show ?case using D(7) [of x f] g(2) d(1) by (cases "x = t") (simp_all add: os_put_def)
  next
    case (8 x y f)
    then show ?case using D(8) [of x f y] nf by (cases "x = t"; cases "y = t") (auto simp: os_put_def)
  next
    case 9
    show ?case using ok by (simp add: os_put_def)
  next
    case (10 f l)
    then show ?case using D(10) [of f l] g(1,2) by (auto simp: os_put_def less_Suc_eq split: if_splits)
  next
    case (11 x v)
    then show ?case using D(11) [of x v] by (auto simp: os_put_def less_Suc_eq split: if_splits)
  next
    case (12 x w)
    then show ?case using D(12) [of x w] by (auto simp: os_put_def less_Suc_eq split: if_splits)
  next
    case (13 x e)
    then show ?case using D(13) [of x e] by (auto simp: os_put_def less_Suc_eq split: if_splits)
  next
    case (14 x)
    then show ?case using D(14) [of x] by (auto simp: os_put_def less_Suc_eq split: if_splits)
  next
    case 15
    then show ?case using D(15) by (auto simp: os_put_def less_Suc_eq split: if_splits)
  qed
qed

lemma once_enter_inv:
  assumes inv: "once_inv s" and t: "os_callers s t = C_idle"
    and e: "once_enter (os_loop s t) (os_once s) (os_aio s) = (e, r, a)"
  shows "once_inv (os_put t (entry_caller e) (s\<lparr>os_once := r, os_aio := a\<rparr>))"
proof -
  obtain g b where n: "new_event (os_aio s) = (g, b)" by (metis surj_pair)
  consider "oc_done (os_once s)" | "\<not> oc_done (os_once s)" "\<not> oc_executing (os_once s)"
    | "\<not> oc_done (os_once s)" "oc_executing (os_once s)" by blast
  then show ?thesis
  proof cases
    case 1
    then have "os_put t (entry_caller e) (s\<lparr>os_once := r, os_aio := a\<rparr>) = os_put t (C_over (once_outcome (os_once s))) s"
      using e by (auto simp: once_enter_def entry_caller_def os_put_def)
    then show ?thesis using once_at_once_inv [OF inv _ 1, of t] t by simp
  next
    case 2
    then have "e = Leader" "r = (os_once s)\<lparr>oc_executing := True\<rparr>" "a = os_aio s" using e by (simp_all add: once_enter_def)
    then show ?thesis using once_leader_inv [OF inv t 2] by (simp add: entry_caller_def)
  next
    case 3
    then have "e = Follower g" "r = (os_once s)\<lparr>oc_waiters := od_set g (os_loop s t) (oc_waiters (os_once s))\<rparr>" "a = b"
      using e by (simp_all add: once_enter_def n)
    then show ?thesis using once_follower_inv [OF inv t 3 n] by (simp add: entry_caller_def)
  qed
qed

lemma once_ran_inv:
  assumes inv: "once_inv s" and t: "os_callers s t = C_running"
  shows "once_inv (os_put t (C_ran out) (s\<lparr>os_once := once_ran out (os_once s)\<rparr>))"
proof -
  note D = once_invD [OF inv]
  have lt: "leads (os_callers s t)" by (simp add: t)
  have nl: "\<not> leads (os_callers s u)" if "u \<noteq> t" for u using that D(1) [OF _ lt] by blast
  have n: "os_callers s u \<noteq> C_running" "os_callers s u \<noteq> C_ran x" if "u \<noteq> t" for u x using nl [OF that] by force+
  have nd: "\<not> oc_done (os_once s)" "oc_executing (os_once s)" "oc_exc (os_once s) = None" using D(2) [OF lt] D(14) [OF t] by simp_all
  have no: "os_callers s u \<noteq> C_over (Inr v)" for u v using D(11) [of u v] nd by blast
  have r: "oc_done (once_ran out (os_once s)) = oc_done (os_once s)" "oc_executing (once_ran out (os_once s)) = oc_executing (os_once s)"
    "oc_waiters (once_ran out (os_once s)) = oc_waiters (os_once s)"
    by (simp_all add: once_ran_def split: sum.splits)
  show ?thesis
  proof (rule once_invI, goal_cases)
    case (1 x y)
    then show ?case using nl by (cases "x = t"; cases "y = t") (simp_all add: os_put_def)
  next
    case 2
    show ?case using nd by (simp add: os_put_def r)
  next
    case 3
    show ?case by (intro exI [of _ t]) (simp add: os_put_def)
  next
    case 4
    then show ?case using D(4) by (auto simp: os_put_def r split: if_splits)
  next
    case (5 x f)
    then show ?case using D(5) [of x f] by (auto simp: os_put_def r split: if_splits)
  next
    case (6 x f)
    then show ?case using D(6) [of x f] by (auto simp: os_put_def r split: if_splits)
  next
    case (7 x f)
    then show ?case using D(7) [of x f] by (auto simp: os_put_def r split: if_splits)
  next
    case (8 x y f)
    then show ?case using D(8) [of x f y] by (auto simp: os_put_def r split: if_splits)
  next
    case 9
    then show ?case using D(9) by (auto simp: os_put_def r split: if_splits)
  next
    case (10 f l)
    then show ?case using D(10) [of f l] by (auto simp: os_put_def r split: if_splits)
  next
    case (11 x v)
    then show ?case using no [of x v] by (cases "x = t") (simp_all add: os_put_def)
  next
    case (12 x w)
    then show ?case using n nd by (cases "x = t") (auto simp: os_put_def once_ran_def)
  next
    case (13 x e)
    then show ?case using n by (cases "x = t") (auto simp: os_put_def once_ran_def)
  next
    case (14 x)
    then show ?case using n by (cases "x = t") (simp_all add: os_put_def)
  next
    case 15
    then show ?case using nd by (simp add: os_put_def r)
  qed
qed

lemma once_finally_inv:
  assumes inv: "once_inv s" and t: "os_callers s t = C_ran out"
    and dn: "\<And>f. dn f \<Longrightarrow> f \<in> evset (os_aio s) \<or> f \<in> os_cancelled s"
    and e: "once_finally dn (os_once s) (os_aio s) = (r, a)"
  shows "once_inv (os_put t (C_over (case out of Inl e \<Rightarrow> Inl e | Inr v \<Rightarrow> Inr (oc_result r))) (s\<lparr>os_once := r, os_aio := a\<rparr>))"
proof -
  note D = once_invD [OF inv]
  have lt: "leads (os_callers s t)" by (simp add: t)
  have nl: "\<not> leads (os_callers s u)" if "u \<noteq> t" for u using that D(1) [OF _ lt] by blast
  have n: "os_callers s u \<noteq> C_running" "os_callers s u \<noteq> C_ran x" if "u \<noteq> t" for u x using nl [OF that] by force+
  have nd: "\<not> oc_done (os_once s)" "oc_executing (os_once s)" using D(2) [OF lt] by simp_all
  have no: "os_callers s u \<noteq> C_over (Inr v)" for u v using D(11) [of u v] nd by blast
  obtain ws a' where w: "wake_all_dict None dn (oc_waiters (os_once s)) (os_aio s) = (ws, a')" by (metis surj_pair)
  note k = wake_all_none [OF w]
  have r: "a = a'" "r = (os_once s)\<lparr>oc_done := True, oc_waiters := []\<rparr>" using e k by (auto simp: once_finally_def w)
  have "w \<in> set (oc_waiters (os_once s)) \<Longrightarrow> fst w < next_evt (os_aio s)" for w using D(10) [of "fst w" "snd w"] by simp
  from fut_ok_wake_dict [OF D(9) this w] have ok: "fut_ok {} a'" by simp
  have ev: "f \<in> evset (os_aio s) \<Longrightarrow> f \<in> scheduled (os_aio s)" for f using D(9) by (simp add: fut_ok_def)
  show ?thesis unfolding r
  proof (rule once_invI, goal_cases)
    case (1 x y)
    then show ?case using nl by (cases "x = t") (simp_all add: os_put_def)
  next
    case (2 x)
    then show ?case using nl by (cases "x = t") (simp_all add: os_put_def)
  next
    case 3
    then show ?case by (simp add: os_put_def)
  next
    case 4
    show ?case using nd by (simp add: os_put_def)
  next
    case (5 x f)
    then show ?case using D(5) [of x f] k by (cases "x = t") (simp_all add: os_put_def)
  next
    case 6
    show ?case by (simp add: os_put_def)
  next
    case (7 x f)
    then have x: "os_callers s x = C_waiting f" "os_loop s x \<notin> closed a'" "f \<notin> scheduled a'" "f \<notin> os_cancelled s"
      by (cases "x = t"; simp add: os_put_def)+
    then have "(f, os_loop s x) \<in> set (oc_waiters (os_once s))" "f \<notin> scheduled (os_aio s)" using D(7) [of x f] k by auto
    then have "dn f \<or> os_loop s x \<in> closed (os_aio s) \<or> f \<in> scheduled a'" using k by blast
    then have False using x k dn [of f] ev [of f] \<open>f \<notin> scheduled (os_aio s)\<close> by auto
    then show ?case ..
  next
    case (8 x y f)
    then show ?case using D(8) [of x f y] by (cases "x = t"; cases "y = t") (auto simp: os_put_def)
  next
    case 9
    show ?case using ok by (simp add: os_put_def)
  next
    case 10
    then show ?case by (simp add: os_put_def)
  next
    case (11 x v)
    then show ?case using no [of x v] D(12) [of t] t by (cases "x = t") (auto simp: os_put_def split: sum.splits)
  next
    case (12 x w)
    then show ?case using n by (cases "x = t") (simp_all add: os_put_def)
  next
    case (13 x e)
    then show ?case using n by (cases "x = t") (simp_all add: os_put_def)
  next
    case (14 x)
    then show ?case using n by (cases "x = t") (simp_all add: os_put_def)
  next
    case 15
    then show ?case using nd by (simp add: os_put_def)
  qed
qed

lemma once_cancelled_inv:
  assumes inv: "once_inv s" and t: "os_callers s t = C_waiting g"
  shows "once_inv (os_put t (C_over (Inl CancelledError)) (s\<lparr>os_once := once_left g (os_once s)\<rparr>))"
proof -
  note D = once_invD [OF inv]
  have r: "oc_done (once_left g (os_once s)) = oc_done (os_once s)" "oc_executing (once_left g (os_once s)) = oc_executing (os_once s)"
    "oc_exc (once_left g (os_once s)) = oc_exc (os_once s)" "oc_result (once_left g (os_once s)) = oc_result (os_once s)"
    "oc_waiters (once_left g (os_once s)) = od_del g (oc_waiters (os_once s))"
    by (simp_all add: once_left_def discard_waiter_def)
  have nt: "os_callers s u \<noteq> C_waiting g" if "u \<noteq> t" for u using that D(8) [OF t, of u] by blast
  show ?thesis
  proof (rule once_invI, goal_cases)
    case (1 x y)
    then show ?case using D(1) [of x y] by (cases "x = t"; cases "y = t") (simp_all add: os_put_def)
  next
    case (2 x)
    then show ?case using D(2) [of x] by (auto simp: os_put_def r split: if_splits)
  next
    case 3
    then obtain v where "leads (os_callers s v)" using D(3) by (auto simp: os_put_def r)
    moreover from this t have "v \<noteq> t" by auto
    ultimately show ?case by (intro exI [of _ v]) (simp add: os_put_def)
  next
    case 4
    then show ?case using D(4) by (auto simp: os_put_def r split: if_splits)
  next
    case (5 x f)
    then show ?case using D(5) [of x f] by (auto simp: os_put_def r split: if_splits)
  next
    case (6 x f)
    then show ?case using D(6) [of x f] by (auto simp: os_put_def r split: if_splits)
  next
    case (7 x f)
    then have x: "x \<noteq> t" by (auto simp: os_put_def)
    with 7 have "f \<noteq> g" using nt [OF x] by (auto simp: os_put_def)
    then show ?case using D(7) [of x f] 7 x by (simp add: os_put_def r set_od_del)
  next
    case (8 x y f)
    then show ?case using D(8) [of x f y] by (cases "x = t"; cases "y = t") (auto simp: os_put_def)
  next
    case 9
    then show ?case using D(9) by (auto simp: os_put_def r split: if_splits)
  next
    case (10 f l)
    then show ?case using D(10) [of f l] by (simp add: os_put_def r set_od_del)
  next
    case (11 x v)
    then show ?case using D(11) [of x v] by (auto simp: os_put_def r split: if_splits)
  next
    case (12 x w)
    then show ?case using D(12) [of x w] by (auto simp: os_put_def r split: if_splits)
  next
    case (13 x e)
    then show ?case using D(13) [of x e] by (auto simp: os_put_def r split: if_splits)
  next
    case (14 x)
    then show ?case using D(14) [of x] by (auto simp: os_put_def r split: if_splits)
  next
    case 15
    then show ?case using D(15) by (auto simp: os_put_def r split: if_splits)
  qed
qed

lemma fut_env_mono:
  assumes "fut_env P a a'"
  shows "scheduled a \<subseteq> scheduled a'" and "f \<in> P \<Longrightarrow> f \<in> scheduled a' \<Longrightarrow> f \<in> scheduled a" and "closed a \<subseteq> closed a'"
  using assms by (cases; auto dest: aio_step_mono simp: new_event_eq call_soon_set_Some)+

lemma once_env_inv:
  assumes inv: "once_inv s" and e: "fut_env (waited_for s) (os_aio s) a"
  shows "once_inv (s\<lparr>os_aio := a\<rparr>)"
proof -
  note D = once_invD [OF inv]
  from fut_ok_env [OF D(9) e] have ok: "fut_ok {} a" "next_evt (os_aio s) \<le> next_evt a" by auto
  note m = fut_env_mono [OF e]
  show ?thesis
  proof (rule once_invI, goal_cases)
    case (1 x y)
    then show ?case using D(1) [of x y] by simp
  next
    case (2 x)
    then show ?case using D(2) [of x] by (auto simp: waited_for_def split: if_splits)
  next
    case 3
    then show ?case using D(3) by simp
  next
    case 4
    then show ?case using D(4) by (auto simp: waited_for_def split: if_splits)
  next
    case (5 x f)
    then show ?case using D(5) [of x f] ok(2) by simp
  next
    case (6 x f)
    then show ?case using D(6) [of x f] m(2) [of f] by (auto simp: waited_for_def)
  next
    case (7 x f)
    then show ?case using D(7) [of x f] m(1,3) by auto
  next
    case (8 x y f)
    then show ?case using D(8) [of x f y] by simp
  next
    case 9
    show ?case using ok(1) by simp
  next
    case (10 f l)
    then show ?case using D(10) [of f l] ok(2) by simp
  next
    case (11 x v)
    then show ?case using D(11) [of x v] by (auto simp: waited_for_def split: if_splits)
  next
    case (12 x w)
    then show ?case using D(12) [of x w] by (auto simp: waited_for_def split: if_splits)
  next
    case (13 x e)
    then show ?case using D(13) [of x e] by (auto simp: waited_for_def split: if_splits)
  next
    case (14 x)
    then show ?case using D(14) [of x] by (auto simp: waited_for_def split: if_splits)
  next
    case 15
    then show ?case using D(15) by (auto simp: waited_for_def split: if_splits)
  qed
qed

lemma once_cancel_inv:
  assumes inv: "once_inv s"
  shows "once_inv (s\<lparr>os_cancelled := insert f (os_cancelled s)\<rparr>)"
proof -
  note D = once_invD [OF inv]
  show ?thesis
  proof (rule once_invI, goal_cases)
    case (1 x y)
    then show ?case using D(1) [of x y] by simp
  next
    case (2 x)
    then show ?case using D(2) [of x] by (auto split: if_splits)
  next
    case 3
    then show ?case using D(3) by simp
  next
    case 4
    then show ?case using D(4) by (auto split: if_splits)
  next
    case (5 x f)
    then show ?case using D(5) [of x f] by (auto split: if_splits)
  next
    case (6 x f)
    then show ?case using D(6) [of x f] by (auto split: if_splits)
  next
    case (7 x f)
    then show ?case using D(7) [of x f] by (auto split: if_splits)
  next
    case (8 x y g)
    then show ?case using D(8) [of x g y] by simp
  next
    case 9
    then show ?case using D(9) by (auto split: if_splits)
  next
    case (10 f l)
    then show ?case using D(10) [of f l] by (auto split: if_splits)
  next
    case (11 x v)
    then show ?case using D(11) [of x v] by (auto split: if_splits)
  next
    case (12 x w)
    then show ?case using D(12) [of x w] by (auto split: if_splits)
  next
    case (13 x e)
    then show ?case using D(13) [of x e] by (auto split: if_splits)
  next
    case (14 x)
    then show ?case using D(14) [of x] by (auto split: if_splits)
  next
    case 15
    then show ?case using D(15) by (auto split: if_splits)
  qed
qed

lemma once_inv_step:
  assumes inv: "once_inv s" and "once_step s s'"
  shows "once_inv s'"
  using assms(2)
proof cases
  case (os_enter t e r a)
  then show ?thesis using once_enter_inv [OF inv] by simp
next
  case (os_ran t out)
  then show ?thesis using once_ran_inv [OF inv] by simp
next
  case (os_finally t out dn r a)
  then show ?thesis using once_finally_inv [OF inv, of t out dn r a] by simp
next
  case (os_woken t f)
  have "f \<in> scheduled (os_aio s)" using once_invD(9) [OF inv] os_woken(3) by (simp add: fut_ok_def)
  then have d: "oc_done (os_once s)" using once_invD(6) [OF inv os_woken(2)] by blast
  then have "once_left f (os_once s) = os_once s" using once_invD(4) [OF inv] by (simp add: once_left_def discard_waiter_def)
  then show ?thesis using once_at_once_inv [OF inv _ d, of t] os_woken by simp
next
  case (os_cancel t f)
  have "once_inv (s\<lparr>os_cancelled := insert f (os_cancelled s)\<rparr>)" by (rule once_cancel_inv [OF inv])
  then show ?thesis using os_cancel by simp
next
  case (os_cancelled t f)
  then show ?thesis using once_cancelled_inv [OF inv] by simp
next
  case (os_env a)
  then show ?thesis using once_env_inv [OF inv] by simp
qed

interpretation onces: invariant_system once_start once_step once_inv
  by unfold_locales (auto intro: once_inv_start once_inv_step)

lemma once_step_executing:
  assumes "once_step s s'" and "oc_executing (os_once s)"
  shows "oc_executing (os_once s') \<and> (os_callers s' u = C_running \<longrightarrow> os_callers s u = C_running)"
  using assms
proof cases
  case (os_enter t e r a)
  then show ?thesis using assms(2) by (auto simp: once_enter_def os_put_def entry_caller_def split: if_splits prod.splits)
qed (auto simp: os_put_def once_ran_def once_finally_def once_left_def split: sum.splits prod.splits)

lemma once_reach_executing: "reach once_step s s' \<Longrightarrow> oc_executing (os_once s) \<Longrightarrow> oc_executing (os_once s')"
  by (induction rule: reach.induct) (auto dest: once_step_executing)

section \<open>Properties\<close>

text \<open>
  C20: The function is run at most once: when a caller starts it, then in no later step of any
  history does any caller start it again, whatever becomes of the run.
\<close>

theorem once_runs_once:
  assumes "once_start s0" and "reach once_step s0 s1" and "once_step s1 s1'"
    and "os_callers s1 t \<noteq> C_running" and "os_callers s1' t = C_running"
    and "reach once_step s1' s2" and "once_step s2 s2'"
  shows "os_callers s2 u = C_running \<or> os_callers s2' u \<noteq> C_running"
proof -
  have "once_inv s1'" using once_inv_step [OF onces.inv_reach [OF assms(2,1)] assms(3)] .
  from once_invD(2) [OF this, of t] assms(5) have "oc_executing (os_once s1')" by simp
  from once_step_executing [OF assms(7) once_reach_executing [OF assms(6) this], of u] show ?thesis by blast
qed

text \<open>
  Everybody who returns normally returns the same value, that of the run, and only after it.
\<close>

theorem once_same_value:
  assumes "once_start s0" and "reach once_step s0 s"
    and "os_callers s t = C_over (Inr v)" and "os_callers s u = C_over (Inr w)"
  shows "v = w \<and> v = oc_result (os_once s) \<and> oc_done (os_once s)"
  using once_invD(11) [OF onces.inv_reach [OF assms(2,1)]] assms(3,4) by metis

text \<open>
  Nobody waits for ever: a caller that waits on an open loop waits for a run that is under way
  in some caller and is in the queue this run will wake, or its future is completed already, or
  it has been cancelled.
\<close>

theorem once_no_waiter_left:
  assumes "once_start s0" and "reach once_step s0 s"
    and "os_callers s t = C_waiting f" and "os_loop s t \<notin> closed (os_aio s)"
  shows "f \<in> scheduled (os_aio s) \<or> f \<in> os_cancelled s \<or>
    (f, os_loop s t) \<in> set (oc_waiters (os_once s)) \<and> (\<exists>u. leads (os_callers s u))"
proof -
  note D = once_invD [OF onces.inv_reach [OF assms(2,1)]]
  from D(7) [OF assms(3,4)] D(3) D(5) [OF assms(3)] show ?thesis by blast
qed

text \<open>Two callers on the loops 0 and 1: the first one leads, the second one waits.\<close>

definition once_idle :: "nat osys" where
  "once_idle = \<lparr>os_once = once_new, os_aio = aio_init, os_callers = (\<lambda>t. C_idle), os_loop = id, os_cancelled = {}\<rparr>"

definition once_leading :: "nat osys" where
  "once_leading = os_put 0 C_running (once_idle\<lparr>os_once := once_new\<lparr>oc_executing := True\<rparr>\<rparr>)"

definition once_both :: "nat osys" where
  "once_both = os_put 1 (C_waiting 0) (once_leading\<lparr>os_once := once_new\<lparr>oc_executing := True, oc_waiters := [(0, 1)]\<rparr>,
     os_aio := aio_init\<lparr>next_evt := 1\<rparr>\<rparr>)"

lemma once_idle_start: "once_start once_idle"
  by (simp add: once_start_def once_idle_def)

lemma once_leading_step: "once_step once_idle once_leading"
  using os_enter [of once_idle 0 Leader "once_new\<lparr>oc_executing := True\<rparr>" aio_init]
  by (simp add: once_idle_def once_leading_def once_enter_def once_new_def entry_caller_def os_put_def)

lemma once_both_step: "once_step once_leading once_both"
  using os_enter [of once_leading 1 "Follower 0" "once_new\<lparr>oc_executing := True, oc_waiters := [(0, 1)]\<rparr>" "aio_init\<lparr>next_evt := 1\<rparr>"]
  by (simp add: once_idle_def once_leading_def once_both_def once_enter_def once_new_def entry_caller_def os_put_def
      new_event_def aio_init_def)

theorem once_runs_once_witness:
  "os_callers once_leading 0 = C_running \<and> os_callers once_both 1 \<noteq> C_running"
  using once_runs_once [OF once_idle_start reach_refl once_leading_step _ _ reach_refl once_both_step, of 0 1]
  by (simp add: once_leading_def once_idle_def os_put_def)

theorem once_no_waiter_left_witness:
  "(0, 1) \<in> set (oc_waiters (os_once once_both)) \<and> (\<exists>u. leads (os_callers once_both u))"
proof -
  have r: "reach once_step once_idle once_both"
    by (rule reach_step [OF reach_one [of once_step, OF once_leading_step] once_both_step])
  have "os_callers once_both 1 = C_waiting 0" "os_loop once_both 1 \<notin> closed (os_aio once_both)"
    by (simp_all add: once_both_def once_leading_def once_idle_def os_put_def aio_init_def)
  from once_no_waiter_left [OF once_idle_start r this] show ?thesis
    by (simp add: once_both_def once_leading_def once_idle_def os_put_def aio_init_def)
qed

theorem once_same_value_witness:
  "\<exists>s. reach once_step once_idle s \<and> os_callers s 0 = C_over (Inr (Some 7)) \<and> os_callers s 1 = C_over (Inr (Some 7))"
proof -
  let ?o = "once_new\<lparr>oc_executing := True, oc_result := Some 7\<rparr>"
  let ?a = "os_put 0 (C_ran (Inr 7)) (once_leading\<lparr>os_once := ?o\<rparr>)"
  let ?b = "os_put 0 (C_over (Inr (Some 7))) (?a\<lparr>os_once := ?o\<lparr>oc_done := True\<rparr>\<rparr>)"
  let ?c = "os_put 1 (C_over (Inr (Some 7))) ?b"
  have 1: "once_step once_leading ?a"
    using os_ran [of once_leading 0 "Inr 7"] by (simp add: once_leading_def once_idle_def os_put_def once_ran_def)
  have 2: "once_step ?a ?b"
    using os_finally [of ?a 0 "Inr 7" "\<lambda>f. False" "?o\<lparr>oc_done := True\<rparr>" aio_init]
    by (simp add: os_put_def once_leading_def once_idle_def once_finally_def once_new_def)
  have 3: "once_step ?b ?c"
    using os_enter [of ?b 1 "At_once (Inr (Some 7))" "?o\<lparr>oc_done := True\<rparr>" aio_init]
    by (simp add: os_put_def once_leading_def once_idle_def once_enter_def once_outcome_def once_new_def entry_caller_def)
  have r: "reach once_step once_idle ?c"
    using reach_one [of once_step, OF once_leading_step] 1 2 3 by (meson reach_step)
  have "os_callers ?c 0 = C_over (Inr (Some 7))" "os_callers ?c 1 = C_over (Inr (Some 7))" by (simp_all add: os_put_def)
  with once_same_value [OF once_idle_start r this] r show ?thesis by blast
qed

end
