(* ===== verification/Mutex.thy ===== *)
theory Mutex
  imports Asyncio
begin

text \<open>
  \<open>multiloop._sync.Lock\<close>: \<open>acquire\<close> up to its \<open>await\<close>, its cancellation path,
  \<open>release\<close> with the hand-off loop \<open>_release_locked\<close>, and the system of tasks that share
  a lock, some of which may finish without releasing it.  Proved: at most one task has the
  lock at a time, a queued task always has a predecessor to wait for, and release hands the
  lock to the first live waiter of an open loop.
\<close>

section \<open>The code\<close>

record mutex =
  m_owner :: "task option"
  m_waiters :: "(evt, task) odict"

definition mutex_new :: mutex where
  "mutex_new = \<lparr>m_owner = None, m_waiters = []\<rparr>"

definition mutex_locked :: "mutex \<Rightarrow> bool" where
  "mutex_locked m = (m_owner m \<noteq> None)"

text \<open>
  The loop of \<open>_release_locked\<close>, on the queue; \<open>dn\<close> is \<open>task.done()\<close>, \<open>lp\<close> is
  \<open>task.get_loop()\<close>.  The result is the new owner, the rest of the queue and the loops.
\<close>

fun hand_over :: "(task \<Rightarrow> bool) \<Rightarrow> (task \<Rightarrow> loop) \<Rightarrow> (evt, task) odict \<Rightarrow> aio \<Rightarrow>
    task option \<times> (evt, task) odict \<times> aio" where
  "hand_over dn lp [] a = (None, [], a)"
| "hand_over dn lp ((event, waiter_task) # q) a =
     (if dn waiter_task then hand_over dn lp q a
      else
        (case call_soon_set (lp waiter_task) event a of
           Some a' \<Rightarrow> (Some waiter_task, q, a')
         | None \<Rightarrow> hand_over dn lp q a))"

definition release_locked :: "(task \<Rightarrow> bool) \<Rightarrow> (task \<Rightarrow> loop) \<Rightarrow> mutex \<Rightarrow> aio \<Rightarrow> mutex \<times> aio" where
  "release_locked dn lp m a =
     (let (o', q, a) = hand_over dn lp (m_waiters m) a in (\<lparr>m_owner = o', m_waiters = q\<rparr>, a))"

text \<open>\<open>cur\<close> is \<open>asyncio.current_task()\<close>, \<open>None\<close> outside a task.\<close>

definition mutex_acquire ::
    "task option \<Rightarrow> (task \<Rightarrow> bool) \<Rightarrow> (task \<Rightarrow> loop) \<Rightarrow> mutex \<Rightarrow> aio \<Rightarrow>
     (error + entered) \<times> mutex \<times> aio" where
  "mutex_acquire cur dn lp m a =
     (case cur of
        None \<Rightarrow> (Inl (RuntimeError ''acquire() must be called from an active asyncio task''), m, a)
      | Some task \<Rightarrow>
          (if m_owner m = Some task then
             (Inl (RuntimeError ''Lock is not reentrant: already held by the current task''), m, a)
           else
             (let (m, a) = (case m_owner m of
                              None \<Rightarrow> (m, a)
                            | Some own \<Rightarrow> if dn own then release_locked dn lp m a else (m, a))
              in if m_owner m = None then (Inr Acquired, m\<lparr>m_owner := Some task\<rparr>, a)
                 else
                   (let (event, a) = new_event a
                    in (Inr (Suspended event),
                        m\<lparr>m_waiters := od_set event task (m_waiters m)\<rparr>, a)))))"

text \<open>The \<open>except BaseException\<close> path of a suspended \<open>acquire\<close>.\<close>

definition mutex_cancelled ::
    "task \<Rightarrow> evt \<Rightarrow> (task \<Rightarrow> bool) \<Rightarrow> (task \<Rightarrow> loop) \<Rightarrow> mutex \<Rightarrow> aio \<Rightarrow> mutex \<times> aio" where
  "mutex_cancelled task event dn lp m a =
     (let was_waiter = od_has event (m_waiters m);
          m = m\<lparr>m_waiters := od_del event (m_waiters m)\<rparr> in
      if m_owner m = Some task \<and> \<not> was_waiter then release_locked dn lp m a else (m, a))"

definition mutex_release ::
    "task option \<Rightarrow> (task \<Rightarrow> bool) \<Rightarrow> (task \<Rightarrow> loop) \<Rightarrow> mutex \<Rightarrow> aio \<Rightarrow> error option \<times> mutex \<times> aio" where
  "mutex_release cur dn lp m a =
     (case cur of
        None \<Rightarrow> (Some (RuntimeError ''release() must be called from an active asyncio task''), m, a)
      | Some task \<Rightarrow>
          (if m_owner m \<noteq> Some task then
             (Some (RuntimeError ''Lock.release() called by a task that does not own the lock''), m, a)
           else (let (m, a) = release_locked dn lp m a in (None, m, a))))"

section \<open>Tasks that share a lock\<close>

definition finished :: "'p sys \<Rightarrow> task \<Rightarrow> bool" where
  "finished s t \<longleftrightarrow> pcs s t = Done"

inductive lock_step :: "mutex sys \<Rightarrow> mutex sys \<Rightarrow> bool" where
  lock_enter_ok: "pcs s t = Idle \<Longrightarrow> loop_of s t \<notin> closed (aio s) \<Longrightarrow>
     mutex_acquire (Some t) (finished s) (loop_of s) (prim s) (aio s) = (Inr Acquired, m, a) \<Longrightarrow>
     lock_step s (s\<lparr>prim := m, aio := a, pcs := (pcs s)(t := Holding)\<rparr>)"
| lock_enter_wait: "pcs s t = Idle \<Longrightarrow> loop_of s t \<notin> closed (aio s) \<Longrightarrow>
     mutex_acquire (Some t) (finished s) (loop_of s) (prim s) (aio s) = (Inr (Suspended e), m, a) \<Longrightarrow>
     lock_step s (s\<lparr>prim := m, aio := a, pcs := (pcs s)(t := Waiting e)\<rparr>)"
| lock_resume: "pcs s t = Waiting e \<Longrightarrow> loop_of s t \<notin> closed (aio s) \<Longrightarrow> e \<in> evset (aio s) \<Longrightarrow>
     lock_step s (s\<lparr>pcs := (pcs s)(t := Holding)\<rparr>)"
| lock_cancelled: "pcs s t = Waiting e \<Longrightarrow> loop_of s t \<notin> closed (aio s) \<Longrightarrow>
     mutex_cancelled t e (finished s) (loop_of s) (prim s) (aio s) = (m, a) \<Longrightarrow>
     lock_step s (s\<lparr>prim := m, aio := a, pcs := (pcs s)(t := Idle)\<rparr>)"
| lock_leave: "pcs s t = Holding \<Longrightarrow>
     mutex_release (Some t) (finished s) (loop_of s) (prim s) (aio s) = (r, m, a) \<Longrightarrow>
     lock_step s (s\<lparr>prim := m, aio := a, pcs := (pcs s)(t := Idle)\<rparr>)"
| lock_finish: "pcs s t = Idle \<or> pcs s t = Holding \<Longrightarrow>
     lock_step s (s\<lparr>pcs := (pcs s)(t := Done)\<rparr>)"
| lock_env: "env_step (pcs s) (aio s) a \<Longrightarrow> lock_step s (s\<lparr>aio := a\<rparr>)"

definition lock_start :: "mutex sys \<Rightarrow> bool" where
  "lock_start s \<longleftrightarrow> (\<exists>lp. s = fresh_sys mutex_new lp)"

text \<open>
  The invariant: the queue is well formed and each entry names the task that waits; the
  owner is the one task that has the lock or has been handed it, or a task that finished
  without releasing; a free lock has an empty queue.
\<close>

definition lock_inv :: "mutex sys \<Rightarrow> bool" where
  "lock_inv s \<longleftrightarrow>
     waiters_ok (loop_of s) (m_waiters (prim s)) (aio s) (pcs s) (loop_of s) \<and>
     (\<forall>e u. (e, u) \<in> set (m_waiters (prim s)) \<longrightarrow> pcs s u = Waiting e) \<and>
     (\<forall>t \<in> users s. m_owner (prim s) = Some t) \<and>
     (\<forall>t. m_owner (prim s) = Some t \<longrightarrow> t \<in> users s \<or> pcs s t = Done) \<and>
     (m_owner (prim s) = None \<longrightarrow> m_waiters (prim s) = [])"

lemma lock_invI:
  assumes "waiters_ok (loop_of s) (m_waiters (prim s)) (aio s) (pcs s) (loop_of s)"
    and "\<And>e u. (e, u) \<in> set (m_waiters (prim s)) \<Longrightarrow> pcs s u = Waiting e"
    and "\<And>t. t \<in> tusers (aio s) (pcs s) \<Longrightarrow> m_owner (prim s) = Some t"
    and "\<And>t. m_owner (prim s) = Some t \<Longrightarrow> t \<in> tusers (aio s) (pcs s) \<or> pcs s t = Done"
    and "m_owner (prim s) = None \<Longrightarrow> m_waiters (prim s) = []"
  shows "lock_inv s"
  using assms unfolding lock_inv_def users_def by (intro conjI allI impI ballI) blast+

lemma lock_inv_start: "lock_start s \<Longrightarrow> lock_inv s"
  by (auto simp: lock_start_def lock_inv_def mutex_new_def waiters_ok_init)

lemma hand_over_ok:
  assumes "waiters_ok lp q a p lp" and "\<And>e u. (e, u) \<in> set q \<Longrightarrow> p u = Waiting e"
    and "tusers a p = {}" and "hand_over dn lp q a = (o', q', a')" and "\<And>u. dn u \<Longrightarrow> p u = Done"
  shows "waiters_ok lp q' a' p lp \<and> set q' \<subseteq> set q \<and> tusers a' p = set_option o' \<and>
    (o' = None \<longrightarrow> q' = [])"
  using assms(1-4)
proof (induction q)
  case Nil
  then show ?case by simp
next
  case (Cons x q)
  obtain e u where x: "x = (e, u)" by fastforce
  have u: "p u = Waiting e" using Cons.prems(2) x by simp
  then have nd: "\<not> dn u" using assms(5) [of u] by auto
  show ?case
  proof (cases "call_soon_set (lp u) e a")
    case None
    have "waiters_ok lp ([x] @ q) a p lp" using Cons.prems(1) by simp
    then have ok: "waiters_ok lp q a p lp"
      by (rule waiters_ok_drop) (use None x in \<open>simp add: call_soon_set_None\<close>)
    have "hand_over dn lp q a = (o', q', a')" using Cons.prems(4) None nd x by simp
    with Cons.IH [OF ok] Cons.prems(2,3) show ?thesis by auto
  next
    case (Some a1)
    with Cons.prems nd x have eq: "o' = Some u" "q' = q" "a' = a1" by auto
    have "waiters_ok lp ((e, u) # q) a p lp" using Cons.prems(1) x by simp
    from waiters_ok_wake1 [OF this Some] obtain t where
      "waiters_ok lp q a1 p lp" "p t = Waiting e" "tusers a1 p = insert t (tusers a p)" by blast
    moreover from this have "t = u" using waiters_okD(4) [OF Cons.prems(1)] u by blast
    ultimately show ?thesis using eq Cons.prems(3) by auto
  qed
qed

text \<open>The state of the invariant after a hand-over by a task that no longer uses the lock.\<close>

lemma lock_inv_released:
  assumes "waiters_ok (loop_of s) q (aio s) p (loop_of s)" and "\<And>e u. (e, u) \<in> set q \<Longrightarrow> p u = Waiting e"
    and "tusers (aio s) p = {}" and "\<And>u. dn u \<Longrightarrow> p u = Done"
    and "hand_over dn (loop_of s) q (aio s) = (o', q', a')"
  shows "lock_inv (s\<lparr>prim := \<lparr>m_owner = o', m_waiters = q'\<rparr>, aio := a', pcs := p\<rparr>)"
proof -
  note h = hand_over_ok [OF assms(1,2,3,5,4)]
  then show ?thesis using assms(2) by (auto simp: lock_inv_def users_def)
qed

lemma lock_inv_take:
  assumes "lock_inv (s\<lparr>prim := m, aio := a\<rparr>)" and "m_owner m = None" and "pcs s t = Idle"
  shows "lock_inv (s\<lparr>prim := m\<lparr>m_owner := Some t\<rparr>, aio := a, pcs := (pcs s)(t := Holding)\<rparr>)"
proof -
  have u: "tusers a (pcs s) = {}" and ok: "waiters_ok (loop_of s) [] a (pcs s) (loop_of s)"
    and q: "m_waiters m = []"
    using assms(1,2) by (auto simp: lock_inv_def users_def)
  have "waiters_ok (loop_of s) [] a ((pcs s)(t := Holding)) (loop_of s)"
    using ok by (rule waiters_ok_phase) auto
  with u q show ?thesis by (simp add: lock_inv_def users_def tusers_entered)
qed

lemma lock_inv_queue:
  assumes inv: "lock_inv (s\<lparr>prim := m, aio := a\<rparr>)" and own: "m_owner m \<noteq> None"
    and t: "pcs s t = Idle" and e: "new_event a = (e, a')"
  shows "lock_inv (s\<lparr>prim := m\<lparr>m_waiters := od_set e t (m_waiters m)\<rparr>, aio := a',
    pcs := (pcs s)(t := Waiting e)\<rparr>)"
proof -
  let ?q = "m_waiters m"
  have ok: "waiters_ok (loop_of s) ?q a (pcs s) (loop_of s)"
    using inv by (simp add: lock_inv_def)
  note ok' = waiters_ok_enqueue [OF ok t e, of t]
  have fresh: "pcs s u \<noteq> Waiting e" for u
    using waiters_okD(5) [OF ok, of u e] e by (auto simp: new_event_eq)
  then have "\<not> od_has e ?q" using waiters_okD(3) [OF ok] by (force simp: od_has_def)
  then have q: "od_set e t ?q = ?q @ [(e, t)]" by (rule od_set_fresh)
  show ?thesis
  proof (rule lock_invI, simp_all add: ok' del: fun_upd_apply)
    show "((pcs s)(t := Waiting e)) u = Waiting f"
      if "(f, u) \<in> set (od_set e t ?q)" for f u
      using that inv t unfolding q by (auto simp: lock_inv_def)
  qed (use inv own t in \<open>auto simp: lock_inv_def users_def\<close>)
qed

lemma lock_inv_step:
  assumes "lock_inv s" and "lock_step s s'"
  shows "lock_inv s'"
proof -
  define q own where "q = m_waiters (prim s)" and "own = m_owner (prim s)"
  have ok: "waiters_ok (loop_of s) q (aio s) (pcs s) (loop_of s)"
    and ent: "\<And>e u. (e, u) \<in> set q \<Longrightarrow> pcs s u = Waiting e"
    and us: "\<And>t. t \<in> users s \<Longrightarrow> own = Some t"
    and ow: "\<And>t. own = Some t \<Longrightarrow> t \<in> users s \<or> pcs s t = Done"
    and none: "own = None \<Longrightarrow> q = []"
    using assms(1) by (auto simp: lock_inv_def q_def own_def)
  note D = waiters_okD [OF ok]
  have prim: "prim s = \<lparr>m_owner = own, m_waiters = q\<rparr>" by (simp add: own_def q_def)
  have dead: "users s = {}" if "own = Some d" "pcs s d = Done" for d
    using that us by (force simp: users_def tusers_def)
  have reclaim: "lock_inv (s\<lparr>prim := m, aio := a\<rparr>)"
    if "own = Some d" "finished s d" "release_locked (finished s) (loop_of s) (prim s) (aio s) = (m, a)"
    for d m a
  proof -
    obtain o' q' a' where h: "hand_over (finished s) (loop_of s) q (aio s) = (o', q', a')"
      by (metis prod_cases3)
    have "tusers (aio s) (pcs s) = {}" using dead that by (simp add: finished_def users_def)
    from lock_inv_released [OF ok ent this _ h] that h show ?thesis
      by (auto simp: release_locked_def q_def finished_def)
  qed
  from assms(2) show ?thesis
  proof cases
    case (lock_env a)
    with waiters_ok_env [OF ok lock_env(2)] us ow ent none show ?thesis
      by (auto simp: lock_inv_def users_def prim)
  next
    case (lock_resume t e)
    then have sch: "e \<in> scheduled (aio s)" using D(9) by blast
    then have nh: "\<not> od_has e q" using D(2) by (auto simp: od_has_def)
    have ok': "waiters_ok (loop_of s) q (aio s) ((pcs s)(t := Holding)) (loop_of s)"
      using lock_resume nh ok D(1) by (intro waiters_ok_phase) auto
    have nt: "u \<noteq> t" if "(f, u) \<in> set q" for f u
      using ent [OF that] lock_resume(2) that nh by (auto simp: od_has_def image_iff)
    have us': "tusers (aio s) ((pcs s)(t := Holding)) = users s"
      using lock_resume(2) sch by (simp add: tusers_resume users_def)
    show ?thesis unfolding lock_resume(1)
    proof (rule lock_invI, simp_all add: prim ok' us' us none del: fun_upd_apply)
      show "((pcs s)(t := Holding)) u = Waiting f" if "(f, u) \<in> set q" for f u
        using ent [OF that] nt [OF that] by simp
      show "u \<in> users s \<or> ((pcs s)(t := Holding)) u = Done" if "own = Some u" for u
        using ow [OF that] lock_resume(2) by auto
    qed
  next
    case (lock_finish t)
    have ok': "waiters_ok (loop_of s) q (aio s) ((pcs s)(t := Done)) (loop_of s)"
      using ok D(1) lock_finish(2) by (intro waiters_ok_phase) auto
    have "\<And>e u. (e, u) \<in> set q \<Longrightarrow> u \<noteq> t" using ent lock_finish(2) by force
    with ok' lock_finish us ow ent none show ?thesis
      by (auto simp: lock_inv_def users_def prim tusers_left)
  next
    case (lock_leave t r m a)
    then have own: "own = Some t" using us by (auto simp: users_def tusers_def)
    obtain o' q' a' where h: "hand_over (finished s) (loop_of s) q (aio s) = (o', q', a')"
      by (metis prod_cases3)
    with lock_leave own have m: "m = \<lparr>m_owner = o', m_waiters = q'\<rparr>" "a = a'"
      by (auto simp: mutex_release_def release_locked_def prim)
    have ok': "waiters_ok (loop_of s) q (aio s) ((pcs s)(t := Idle)) (loop_of s)"
      using ok D(1) lock_leave(2) by (intro waiters_ok_phase) auto
    have "tusers (aio s) ((pcs s)(t := Idle)) = {}"
      using us own by (auto simp: tusers_left users_def)
    moreover have "\<And>e u. (e, u) \<in> set q \<Longrightarrow> ((pcs s)(t := Idle)) u = Waiting e"
      using ent lock_leave(2) by force
    moreover have "\<And>u. finished s u \<Longrightarrow> ((pcs s)(t := Idle)) u = Done"
      using lock_leave(2) by (auto simp: finished_def)
    ultimately show ?thesis
      using lock_inv_released [OF ok' _ _ _ h] lock_leave m by simp
  next
    case (lock_cancelled t e m a)
    show ?thesis
    proof (cases "od_has e q")
      case True
      then have nsch: "e \<notin> scheduled (aio s)" using D(2) by (auto simp: od_has_def)
      from True lock_cancelled have m: "m = \<lparr>m_owner = own, m_waiters = od_del e q\<rparr>" "a = aio s"
        by (auto simp: mutex_cancelled_def prim)
      have ok': "waiters_ok (loop_of s) (od_del e q) (aio s) ((pcs s)(t := Idle)) (loop_of s)"
        using ok lock_cancelled(2) by (rule waiters_ok_discard) simp
      have ent': "\<And>f u. (f, u) \<in> set (od_del e q) \<Longrightarrow> pcs s u = Waiting f \<and> u \<noteq> t"
        using ent lock_cancelled(2) by (force simp: set_od_del)
      have "tusers (aio s) ((pcs s)(t := Idle)) = tusers (aio s) (pcs s)"
        using lock_cancelled(2) nsch by (intro tusers_quit) auto
      moreover have "own \<noteq> None" using none True by (cases q) auto
      moreover have "own \<noteq> Some t"
        using ow lock_cancelled(2) nsch by (auto simp: users_def tusers_def)
      ultimately show ?thesis using lock_cancelled m ok' ent' us ow none
        by (auto simp: lock_inv_def users_def)
    next
      case False
      then have sch: "e \<in> scheduled (aio s)" using D(6) lock_cancelled by blast
      then have own: "own = Some t" using us lock_cancelled(2) by (auto simp: users_def tusers_def)
      obtain o' q' a' where h: "hand_over (finished s) (loop_of s) q (aio s) = (o', q', a')"
        by (metis prod_cases3)
      with lock_cancelled own False have m: "m = \<lparr>m_owner = o', m_waiters = q'\<rparr>" "a = a'"
        by (auto simp: mutex_cancelled_def release_locked_def prim od_del_absent)
      have ok': "waiters_ok (loop_of s) q (aio s) ((pcs s)(t := Idle)) (loop_of s)"
        using ok D(1) False lock_cancelled(2) by (intro waiters_ok_phase) auto
      have "tusers (aio s) ((pcs s)(t := Idle)) = {}"
        using us own by (auto simp: tusers_left users_def)
      moreover have "\<And>f u. (f, u) \<in> set q \<Longrightarrow> ((pcs s)(t := Idle)) u = Waiting f"
        using ent lock_cancelled(2) False by (force simp: od_has_def)
      moreover have "\<And>u. finished s u \<Longrightarrow> ((pcs s)(t := Idle)) u = Done"
        using lock_cancelled(2) by (auto simp: finished_def)
      ultimately show ?thesis
        using lock_inv_released [OF ok' _ _ _ h] lock_cancelled m by simp
    qed
  next
    case (lock_enter_ok t m a)
    then have nt: "own \<noteq> Some t" using ow by (force simp: users_def tusers_def mutex_acquire_def prim)
    show ?thesis
    proof (cases "\<exists>d. own = Some d \<and> finished s d")
      case True
      then obtain d where d: "own = Some d" "finished s d" by blast
      obtain m1 a1 where r: "release_locked (finished s) (loop_of s) (prim s) (aio s) = (m1, a1)"
        by fastforce
      with lock_enter_ok nt d have "m_owner m1 = None" "m = m1\<lparr>m_owner := Some t\<rparr>" "a = a1"
        by (auto simp: mutex_acquire_def own_def new_event_def Let_def split: if_splits)
      with lock_inv_take [OF reclaim [OF d r]] lock_enter_ok show ?thesis by simp
    next
      case False
      with lock_enter_ok nt have "own = None" "m = (prim s)\<lparr>m_owner := Some t\<rparr>" "a = aio s"
        by (auto simp: mutex_acquire_def own_def new_event_def Let_def split: if_splits option.splits)
      with lock_inv_take [of "aio s" "prim s" s] assms(1) lock_enter_ok show ?thesis by (simp add: own_def)
    qed
  next
    case (lock_enter_wait t e m a)
    then have nt: "own \<noteq> Some t" using ow by (force simp: users_def tusers_def mutex_acquire_def prim)
    show ?thesis
    proof (cases "\<exists>d. own = Some d \<and> finished s d")
      case True
      then obtain d where d: "own = Some d" "finished s d" by blast
      obtain m1 a1 where r: "release_locked (finished s) (loop_of s) (prim s) (aio s) = (m1, a1)"
        by fastforce
      with lock_enter_wait nt d have "m_owner m1 \<noteq> None" "new_event a1 = (e, a)"
        "m = m1\<lparr>m_waiters := od_set e t (m_waiters m1)\<rparr>"
        by (auto simp: mutex_acquire_def own_def new_event_def Let_def split: if_splits)
      with lock_inv_queue [OF reclaim [OF d r]] lock_enter_wait show ?thesis by simp
    next
      case False
      with lock_enter_wait nt have "own \<noteq> None" "new_event (aio s) = (e, a)"
        "m = (prim s)\<lparr>m_waiters := od_set e t (m_waiters (prim s))\<rparr>"
        by (auto simp: mutex_acquire_def own_def new_event_def Let_def split: if_splits option.splits)
      with lock_inv_queue [of "aio s" "prim s" s] assms(1) lock_enter_wait show ?thesis by (simp add: own_def)
    qed
  qed
qed

interpretation lock_sys: bounded_resource lock_start lock_step lock_inv users "\<lambda>s. 1"
proof (unfold_locales, goal_cases)
  case (1 s)
  then show ?case by (rule lock_inv_start)
next
  case (2 s s')
  then show ?case by (rule lock_inv_step)
next
  case (3 s)
  then show ?case by (auto simp: lock_inv_def users_def intro: tusers_finite)
next
  case (4 s)
  then have "users s \<subseteq> set_option (m_owner (prim s))" by (auto simp: lock_inv_def)
  then have "card (users s) \<le> card (set_option (m_owner (prim s)))" by (rule card_mono [rotated]) simp
  also have "\<dots> \<le> 1" by (cases "m_owner (prim s)") auto
  finally show ?case .
qed

lemma hand_over_eq:
  "hand_over dn lp q a = (case dropWhile (\<lambda>(e, u). dn u \<or> lp u \<in> closed a) q of
       [] \<Rightarrow> (None, [], a)
     | (e, u) # post \<Rightarrow> (Some u, post, a\<lparr>callbacks := callbacks a @ [(lp u, e)],
         scheduled := insert e (scheduled a)\<rparr>))"
  by (induction dn lp q a rule: hand_over.induct) (auto simp: call_soon_set_def)

lemma hand_over_alive: "hand_over dn lp q a = (Some u, q', a') \<Longrightarrow> \<not> dn u"
  by (induction dn lp q a rule: hand_over.induct) (auto split: if_splits option.splits)

section \<open>Properties\<close>

text \<open>A run: task 0 takes the lock, task 1 (on loop 1) queues behind it.\<close>

definition lock_demo :: "mutex sys" where
  "lock_demo = fresh_sys mutex_new (\<lambda>t. t)"

definition lock_demo2 :: "mutex sys" where
  "lock_demo2 = \<lparr>prim = \<lparr>m_owner = Some 0, m_waiters = [(0, 1)]\<rparr>,
     aio = aio_init\<lparr>next_evt := 1\<rparr>, pcs = (\<lambda>t. Idle)(0 := Holding, 1 := Waiting 0),
     loop_of = (\<lambda>t. t)\<rparr>"

lemma lock_demo_start: "lock_start lock_demo"
  by (auto simp: lock_start_def lock_demo_def)

lemma lock_demo_run: "reach lock_step lock_demo lock_demo2"
proof -
  let ?s = "lock_demo\<lparr>prim := mutex_new\<lparr>m_owner := Some 0\<rparr>, aio := aio_init,
      pcs := (pcs lock_demo)(0 := Holding)\<rparr>"
  have a: "lock_step lock_demo ?s"
    by (rule lock_step.lock_enter_ok)
      (simp_all add: lock_demo_def mutex_acquire_def mutex_new_def aio_init_def)
  have "lock_step ?s (?s\<lparr>prim := prim lock_demo2, aio := aio_init\<lparr>next_evt := 1\<rparr>,
      pcs := (pcs ?s)(1 := Waiting 0)\<rparr>)"
    by (rule lock_step.lock_enter_wait)
      (simp_all add: lock_demo_def lock_demo2_def mutex_acquire_def mutex_new_def aio_init_def
        fresh_sys_def new_event_def finished_def)
  moreover have "?s\<lparr>prim := prim lock_demo2, aio := aio_init\<lparr>next_evt := 1\<rparr>,
      pcs := (pcs ?s)(1 := Waiting 0)\<rparr> = lock_demo2"
    by (simp add: lock_demo_def lock_demo2_def fresh_sys_def fun_eq_iff)
  ultimately have b: "lock_step ?s lock_demo2" by simp
  from a have "reach lock_step lock_demo ?s" by (rule reach_one)
  then show ?thesis using b by (rule reach_step)
qed

lemma lock_demo2_user: "0 \<in> users lock_demo2"
  by (simp add: users_def tusers_def lock_demo2_def)

text \<open>
  C1: mutual exclusion across event loops and threads.  In every reachable state, at most
  one task is between \<open>acquire\<close> and \<open>release\<close> or has been handed the lock, and that task
  is the recorded owner; this covers cancellation racing with the hand-over, loops that
  close, and owners that finish without releasing.
\<close>

theorem lock_mutual_exclusion:
  assumes "lock_start s0" and "reach lock_step s0 s" and "t \<in> users s" and "u \<in> users s"
  shows "t = u \<and> m_owner (prim s) = Some t"
proof
  show "t = u" by (rule lock_sys.exclusive [OF assms(2,1) order_refl assms(3,4)])
  show "m_owner (prim s) = Some t"
    using lock_sys.inv_reach [OF assms(2,1)] assms(3) by (simp add: lock_inv_def)
qed

theorem lock_mutual_exclusion_witness: "m_owner (prim lock_demo2) = Some 0 \<and> 0 \<in> users lock_demo2"
  using lock_mutual_exclusion [OF lock_demo_start lock_demo_run lock_demo2_user lock_demo2_user]
    lock_demo2_user by simp

text \<open>
  A queued task always has somebody to wait for.  In every reachable state with a
  non-empty queue the lock has an owner, and that owner uses the lock, has been handed it,
  or has finished (and is then reclaimed by the next \<open>acquire\<close>); so no wake-up is lost.
\<close>

theorem lock_no_lost_wakeup:
  assumes "lock_start s0" and "reach lock_step s0 s" and "m_waiters (prim s) \<noteq> []"
  shows "\<exists>t. m_owner (prim s) = Some t \<and> (t \<in> users s \<or> finished s t) \<and>
    (\<forall>e. \<not> (e, t) \<in> set (m_waiters (prim s)))"
proof -
  have inv: "lock_inv s" by (rule lock_sys.inv_reach [OF assms(2,1)])
  with assms(3) obtain t where t: "m_owner (prim s) = Some t" "t \<in> users s \<or> pcs s t = Done"
    by (auto simp: lock_inv_def)
  have "(e, t) \<notin> set (m_waiters (prim s))" for e
  proof
    assume e: "(e, t) \<in> set (m_waiters (prim s))"
    with inv have "pcs s t = Waiting e" "e \<notin> scheduled (aio s)"
      by (auto simp: lock_inv_def dest: waiters_okD(2))
    with t(2) show False by (auto simp: users_def tusers_def)
  qed
  with t show ?thesis by (auto simp: finished_def)
qed

theorem lock_no_lost_wakeup_witness: "\<exists>t. m_owner (prim lock_demo2) = Some t \<and> t \<noteq> 1"
  using lock_no_lost_wakeup [OF lock_demo_start lock_demo_run] by (auto simp: lock_demo2_def)

text \<open>
  \<open>release\<close> on every branch.  Outside a task, or from a task that is not the owner, it
  raises and changes nothing; otherwise the lock goes, in queue order, to the first waiter
  that is not done and whose loop is open, and becomes free when there is none.
\<close>

theorem lock_release_hand_over:
  "mutex_release cur dn lp m a =
     (if cur = None then
        (Some (RuntimeError ''release() must be called from an active asyncio task''), m, a)
      else if m_owner m \<noteq> cur then
        (Some (RuntimeError ''Lock.release() called by a task that does not own the lock''), m, a)
      else
        (case dropWhile (\<lambda>(e, u). dn u \<or> lp u \<in> closed a) (m_waiters m) of
           [] \<Rightarrow> (None, mutex_new, a)
         | (e, u) # post \<Rightarrow> (None, \<lparr>m_owner = Some u, m_waiters = post\<rparr>,
             a\<lparr>callbacks := callbacks a @ [(lp u, e)], scheduled := insert e (scheduled a)\<rparr>)))"
  by (cases cur)
    (auto simp: mutex_release_def release_locked_def hand_over_eq mutex_new_def
      simp del: dropWhile_eq_Nil_conv split: list.splits)

text \<open>
  A dead owner does not block the lock.  After any \<open>acquire\<close> by a live task that does
  not already hold it, the lock is owned by a task that is not done: an owner that was
  alive keeps it, and the lock of a finished owner has gone to a live waiter or the caller.
\<close>

theorem lock_dead_owner_recovery:
  assumes "\<not> dn t" and "m_owner m \<noteq> Some t"
    and "mutex_acquire (Some t) dn lp m a = (r, m', a')"
  shows "\<exists>own. m_owner m' = Some own \<and> \<not> dn own"
proof -
  obtain o' q' b where h: "hand_over dn lp (m_waiters m) a = (o', q', b)" by (metis prod_cases3)
  show ?thesis
    using assms hand_over_alive [of dn lp "m_waiters m" a _ q' b] h
    by (auto simp: mutex_acquire_def release_locked_def new_event_def Let_def
        split: option.splits if_splits)
qed

theorem lock_dead_owner_recovery_witness:
  "\<exists>own. m_owner (fst (snd (mutex_acquire (Some 1) (\<lambda>t. t = 0) (\<lambda>t. t)
      \<lparr>m_owner = Some 0, m_waiters = [(4, 2)]\<rparr> aio_init))) = Some own \<and> own \<noteq> 0"
  using lock_dead_owner_recovery [of "\<lambda>t. t = 0" 1 "\<lparr>m_owner = Some 0, m_waiters = [(4, 2)]\<rparr>"
      "\<lambda>t. t" aio_init]
  by (metis One_nat_def mutex.select_convs(1) nat.simps(3) option.inject prod.collapse zero_neq_one)

end
