(* ===== verification/Cond.thy ===== *)
theory Cond
  imports Oneshot Mutex
begin

text \<open>
  \<open>multiloop._sync.Condition\<close> over \<^theory_text>\<open>Mutex\<close>: \<open>wait\<close> with its registration, the release of the lock, the
  suspension, the interruption and the uninterruptible re-acquisition; \<open>wait_for\<close>; \<open>notify\<close> with its
  wake-up loop outside the mutex; the forwarding of a notification.  Proved: the condition refines
  its lock, \<open>wait_for\<close> returns with the predicate true and the lock held, no suspended task is
  forgotten; and where \<open>notify\<close> loses a notification.
\<close>

section \<open>The code\<close>

record cond =
  c_lock :: mutex
  c_waiters :: "(evt, loop) odict"

definition cond_new :: cond where
  "cond_new = \<lparr>c_lock = mutex_new, c_waiters = []\<rparr>"

text \<open>The checks of \<open>wait\<close>, and the registration that follows them.\<close>

definition cond_wait_check :: "task option \<Rightarrow> cond \<Rightarrow> error option" where
  "cond_wait_check cur c =
     (if cur = None \<or> \<not> mutex_locked (c_lock c) \<or> m_owner (c_lock c) \<noteq> cur
      then Some (RuntimeError ''cannot wait on un-acquired lock'') else None)"

definition cond_register :: "loop \<Rightarrow> cond \<Rightarrow> aio \<Rightarrow> evt \<times> cond \<times> aio" where
  "cond_register loop c a =
     (let (event, a) = new_event a in (event, c\<lparr>c_waiters := od_set event loop (c_waiters c)\<rparr>, a))"

definition cond_discard :: "evt \<Rightarrow> cond \<Rightarrow> bool \<times> cond" where
  "cond_discard event c = (od_has event (c_waiters c), c\<lparr>c_waiters := od_del event (c_waiters c)\<rparr>)"

definition cond_pop :: "int \<Rightarrow> cond \<Rightarrow> (evt \<times> loop) list \<times> cond" where
  "cond_pop n c =
     (let count = min (nat n) (length (c_waiters c))
      in (take count (c_waiters c), c\<lparr>c_waiters := drop count (c_waiters c)\<rparr>))"

definition cond_forward :: "cond \<Rightarrow> aio \<Rightarrow> cond \<times> aio" where
  "cond_forward c a = (let (q, a, woken) = wake_first id (c_waiters c) a in (c\<lparr>c_waiters := q\<rparr>, a))"

text \<open>\<open>notify\<close> without interference.\<close>

definition cond_notify :: "int \<Rightarrow> cond \<Rightarrow> aio \<Rightarrow> cond \<times> aio" where
  "cond_notify n c a =
     (if n \<le> 0 then (c, a) else (let (ws, c) = cond_pop n c in (c, fold wake_ignoring ws a)))"

definition cond_notify_all :: "cond \<Rightarrow> aio \<Rightarrow> cond \<times> aio" where
  "cond_notify_all c a = cond_notify (int (length (c_waiters c))) c a"

section \<open>Tasks that share a condition\<close>

text \<open>
  Where a task is: outside; suspended in the lock's \<open>acquire\<close>; inside; inside after a \<open>wait_for\<close> that
  returned; evaluating the predicate; registered in \<open>wait\<close> before the release; suspended in
  \<open>event.wait()\<close>; interrupted there after a notification; before and in the re-acquisition, which
  knows whether the task was notified and whether it has absorbed a cancellation; inside, about to
  forward the notification it cannot use; finished.  The last flag tells \<open>wait_for\<close> from \<open>wait\<close>.
\<close>

datatype cphase =
    C_out | C_enter evt | C_in | C_passed | C_test | C_reg evt bool | C_wait evt bool | C_pass bool
  | C_back bool bool bool | C_relock evt bool bool bool | C_fwd | C_fin

fun lock_pc :: "cphase \<Rightarrow> pc" where
  "lock_pc (C_enter e) = Waiting e"
| "lock_pc (C_relock e n c w) = Waiting e"
| "lock_pc C_out = Idle"
| "lock_pc (C_wait e w) = Idle"
| "lock_pc (C_pass w) = Idle"
| "lock_pc (C_back n c w) = Idle"
| "lock_pc C_fin = Done"
| "lock_pc _ = Holding"

fun cond_event :: "cphase \<Rightarrow> evt option" where
  "cond_event (C_reg e w) = Some e"
| "cond_event (C_wait e w) = Some e"
| "cond_event _ = None"

text \<open>How \<open>wait\<close> goes on with the lock: it returns, to the test in \<open>wait_for\<close>, or raises.\<close>

definition cond_resumed :: "bool \<Rightarrow> bool \<Rightarrow> bool \<Rightarrow> cphase" where
  "cond_resumed notified cancelled w =
     (if notified then (if cancelled then C_fwd else if w then C_test else C_in) else C_in)"

text \<open>\<open>cs_data\<close> is what the lock protects, \<open>cs_popped\<close> what running \<open>notify\<close> calls have still to wake.\<close>

record 'd csys =
  cs_cond :: cond
  cs_aio :: aio
  cs_phase :: "task \<Rightarrow> cphase"
  cs_loop :: "task \<Rightarrow> loop"
  cs_popped :: "(evt \<times> loop) list"
  cs_data :: 'd

definition cond_lock_sys :: "'d csys \<Rightarrow> mutex sys" where
  "cond_lock_sys s = \<lparr>prim = c_lock (cs_cond s), aio = cs_aio s, pcs = (\<lambda>t. lock_pc (cs_phase s t)), loop_of = cs_loop s\<rparr>"

definition cond_open :: "'d csys \<Rightarrow> task \<Rightarrow> bool" where
  "cond_open s t \<longleftrightarrow> cs_loop s t \<notin> closed (cs_aio s)"

definition cond_done :: "'d csys \<Rightarrow> task \<Rightarrow> bool" where
  "cond_done s t \<longleftrightarrow> cs_phase s t = C_fin"

definition cond_put :: "task \<Rightarrow> cphase \<Rightarrow> mutex \<Rightarrow> aio \<Rightarrow> 'd csys \<Rightarrow> 'd csys" where
  "cond_put t x m a s = s\<lparr>cs_phase := (cs_phase s)(t := x), cs_cond := (cs_cond s)\<lparr>c_lock := m\<rparr>, cs_aio := a\<rparr>"

abbreviation cond_acquire where
  "cond_acquire s t \<equiv> mutex_acquire (Some t) (cond_done s) (cs_loop s) (c_lock (cs_cond s)) (cs_aio s)"

abbreviation cond_quit where
  "cond_quit s t e \<equiv> mutex_cancelled t e (cond_done s) (cs_loop s) (c_lock (cs_cond s)) (cs_aio s)"

abbreviation cond_release where
  "cond_release s t \<equiv> mutex_release (Some t) (cond_done s) (cs_loop s) (c_lock (cs_cond s)) (cs_aio s)"

inductive cond_step :: "('d \<Rightarrow> bool) \<Rightarrow> 'd csys \<Rightarrow> 'd csys \<Rightarrow> bool" for predicate where
  cv_enter: "cs_phase s t = C_out \<Longrightarrow> cond_open s t \<Longrightarrow> cond_acquire s t = (Inr Acquired, m, a) \<Longrightarrow>
     cond_step predicate s (cond_put t C_in m a s)"
| cv_enter_wait: "cs_phase s t = C_out \<Longrightarrow> cond_open s t \<Longrightarrow> cond_acquire s t = (Inr (Suspended e), m, a) \<Longrightarrow>
     cond_step predicate s (cond_put t (C_enter e) m a s)"
| cv_entered: "cs_phase s t = C_enter e \<Longrightarrow> cond_open s t \<Longrightarrow> e \<in> evset (cs_aio s) \<Longrightarrow>
     cond_step predicate s (s\<lparr>cs_phase := (cs_phase s)(t := C_in)\<rparr>)"
| cv_enter_cancelled: "cs_phase s t = C_enter e \<Longrightarrow> cond_open s t \<Longrightarrow> cond_quit s t e = (m, a) \<Longrightarrow>
     cond_step predicate s (cond_put t C_out m a s)"
| cv_leave: "cs_phase s t \<in> {C_in, C_passed} \<Longrightarrow> cond_release s t = (r, m, a) \<Longrightarrow>
     cond_step predicate s (cond_put t C_out m a s)"
| cv_finish: "cs_phase s t \<in> {C_out, C_in, C_passed} \<Longrightarrow>
     cond_step predicate s (s\<lparr>cs_phase := (cs_phase s)(t := C_fin)\<rparr>)"
| cv_write: "cs_phase s t \<in> {C_in, C_passed} \<Longrightarrow>
     cond_step predicate s (s\<lparr>cs_phase := (cs_phase s)(t := C_in), cs_data := d\<rparr>)"
| cv_wait: "cs_phase s t \<in> {C_in, C_passed} \<Longrightarrow> cond_open s t \<Longrightarrow> cond_wait_check (Some t) (cs_cond s) = None \<Longrightarrow>
     cond_register (cs_loop s t) (cs_cond s) (cs_aio s) = (e, c, a) \<Longrightarrow>
     cond_step predicate s (s\<lparr>cs_phase := (cs_phase s)(t := C_reg e False), cs_cond := c, cs_aio := a\<rparr>)"
| cv_wait_for: "cs_phase s t \<in> {C_in, C_passed} \<Longrightarrow>
     cond_step predicate s (s\<lparr>cs_phase := (cs_phase s)(t := C_test)\<rparr>)"
| cv_true: "cs_phase s t = C_test \<Longrightarrow> predicate (cs_data s) \<Longrightarrow>
     cond_step predicate s (s\<lparr>cs_phase := (cs_phase s)(t := C_passed)\<rparr>)"
| cv_false: "cs_phase s t = C_test \<Longrightarrow> \<not> predicate (cs_data s) \<Longrightarrow> cond_open s t \<Longrightarrow> cond_wait_check (Some t) (cs_cond s) = None \<Longrightarrow>
     cond_register (cs_loop s t) (cs_cond s) (cs_aio s) = (e, c, a) \<Longrightarrow>
     cond_step predicate s (s\<lparr>cs_phase := (cs_phase s)(t := C_reg e True), cs_cond := c, cs_aio := a\<rparr>)"
| cv_released: "cs_phase s t = C_reg e w \<Longrightarrow> cond_release s t = (None, m, a) \<Longrightarrow>
     cond_step predicate s (cond_put t (C_wait e w) m a s)"
| cv_not_released: "cs_phase s t = C_reg e w \<Longrightarrow> cond_release s t = (Some err, m, a) \<Longrightarrow>
     cond_discard e (cs_cond s) = (present, c) \<Longrightarrow>
     cond_step predicate s (s\<lparr>cs_phase := (cs_phase s)(t := C_in), cs_cond := c\<rparr>)"
| cv_notified: "cs_phase s t = C_wait e w \<Longrightarrow> cond_open s t \<Longrightarrow> e \<in> evset (cs_aio s) \<Longrightarrow>
     cond_step predicate s (s\<lparr>cs_phase := (cs_phase s)(t := C_back True False w)\<rparr>)"
| cv_interrupted: "cs_phase s t = C_wait e w \<Longrightarrow> cond_open s t \<Longrightarrow> cond_discard e (cs_cond s) = (present, c) \<Longrightarrow>
     cond_step predicate s (s\<lparr>cs_phase := (cs_phase s)(t := (if present then C_back False False w else C_pass w)), cs_cond := c\<rparr>)"
| cv_passed_on: "cs_phase s t = C_pass w \<Longrightarrow> cond_forward (cs_cond s) (cs_aio s) = (c, a) \<Longrightarrow>
     cond_step predicate s (s\<lparr>cs_phase := (cs_phase s)(t := C_back False False w), cs_cond := c, cs_aio := a\<rparr>)"
| cv_back: "cs_phase s t = C_back n x w \<Longrightarrow> cond_open s t \<Longrightarrow> cond_acquire s t = (Inr Acquired, m, a) \<Longrightarrow>
     cond_step predicate s (cond_put t (cond_resumed n x w) m a s)"
| cv_back_wait: "cs_phase s t = C_back n x w \<Longrightarrow> cond_open s t \<Longrightarrow> cond_acquire s t = (Inr (Suspended e), m, a) \<Longrightarrow>
     cond_step predicate s (cond_put t (C_relock e n x w) m a s)"
| cv_relocked: "cs_phase s t = C_relock e n x w \<Longrightarrow> cond_open s t \<Longrightarrow> e \<in> evset (cs_aio s) \<Longrightarrow>
     cond_step predicate s (s\<lparr>cs_phase := (cs_phase s)(t := cond_resumed n x w)\<rparr>)"
| cv_absorbed: "cs_phase s t = C_relock e n x w \<Longrightarrow> cond_open s t \<Longrightarrow> cond_quit s t e = (m, a) \<Longrightarrow>
     cond_step predicate s (cond_put t (C_back n True w) m a s)"
| cv_forwarded: "cs_phase s t = C_fwd \<Longrightarrow> cond_forward (cs_cond s) (cs_aio s) = (c, a) \<Longrightarrow>
     cond_step predicate s (s\<lparr>cs_phase := (cs_phase s)(t := C_in), cs_cond := c, cs_aio := a\<rparr>)"
| cv_notify: "0 < n \<Longrightarrow> cond_pop n (cs_cond s) = (ws, c) \<Longrightarrow>
     cond_step predicate s (s\<lparr>cs_cond := c, cs_popped := cs_popped s @ ws\<rparr>)"
| cv_wake: "cs_popped s = ws1 @ x # ws2 \<Longrightarrow>
     cond_step predicate s (s\<lparr>cs_popped := ws1 @ ws2, cs_aio := wake_ignoring x (cs_aio s)\<rparr>)"
| cv_env: "env_step (\<lambda>t. case cond_event (cs_phase s t) of Some e \<Rightarrow> Waiting e | None \<Rightarrow> lock_pc (cs_phase s t)) (cs_aio s) a \<Longrightarrow>
     cond_step predicate s (s\<lparr>cs_aio := a\<rparr>)"

definition cond_start :: "'d csys \<Rightarrow> bool" where
  "cond_start s \<longleftrightarrow> cs_cond s = cond_new \<and> cs_aio s = aio_init \<and> cs_phase s = (\<lambda>t. C_out) \<and> cs_popped s = []"


section \<open>The projection on the lock\<close>

lemma lock_pc_simps [simp]:
  "lock_pc x = Done \<longleftrightarrow> x = C_fin" "lock_pc (cond_resumed n c w) = Holding"
  by (cases x) (auto simp: cond_resumed_def)

lemma cond_lock_sys_simps [simp]:
  "prim (cond_lock_sys s) = c_lock (cs_cond s)" "aio (cond_lock_sys s) = cs_aio s"
  "pcs (cond_lock_sys s) t = lock_pc (cs_phase s t)" "loop_of (cond_lock_sys s) = cs_loop s"
  "finished (cond_lock_sys s) = cond_done s"
  by (simp_all add: cond_lock_sys_def finished_def cond_done_def fun_eq_iff)

lemma cond_lock_put:
  "cond_lock_sys (cond_put t x m a s) = (cond_lock_sys s)\<lparr>prim := m, aio := a, pcs := (pcs (cond_lock_sys s))(t := lock_pc x)\<rparr>"
  by (simp add: cond_lock_sys_def cond_put_def fun_eq_iff)

lemma cond_lock_phase:
  "cond_lock_sys (s\<lparr>cs_phase := (cs_phase s)(t := x)\<rparr>) = (cond_lock_sys s)\<lparr>pcs := (pcs (cond_lock_sys s))(t := lock_pc x)\<rparr>"
  by (simp add: cond_lock_sys_def fun_eq_iff)

lemma cond_lock_same:
  "c_lock (cs_cond s') = c_lock (cs_cond s) \<Longrightarrow> cs_aio s' = cs_aio s \<Longrightarrow>
   (\<And>t. lock_pc (cs_phase s' t) = lock_pc (cs_phase s t)) \<Longrightarrow> cs_loop s' = cs_loop s \<Longrightarrow> cond_lock_sys s' = cond_lock_sys s"
  by (simp add: cond_lock_sys_def fun_eq_iff)

lemma cond_lock_aio:
  "c_lock (cs_cond s') = c_lock (cs_cond s) \<Longrightarrow> (\<And>t. lock_pc (cs_phase s' t) = lock_pc (cs_phase s t)) \<Longrightarrow>
   cs_loop s' = cs_loop s \<Longrightarrow> cond_lock_sys s' = (cond_lock_sys s)\<lparr>aio := cs_aio s'\<rparr>"
  by (simp add: cond_lock_sys_def fun_eq_iff)

lemma cond_discard_lock: "cond_discard e c = (b, c') \<Longrightarrow> c_lock c' = c_lock c"
  by (auto simp: cond_discard_def)

lemma cond_pop_lock: "cond_pop n c = (ws, c') \<Longrightarrow> c_lock c' = c_lock c \<and> c_waiters c = ws @ c_waiters c'"
  by (auto simp: cond_pop_def Let_def)

lemma cond_register_eq:
  "cond_register l c a = (e, c', a') \<longleftrightarrow>
   e = next_evt a \<and> a' = a\<lparr>next_evt := Suc (next_evt a)\<rparr> \<and> c' = c\<lparr>c_waiters := od_set e l (c_waiters c)\<rparr>"
  by (auto simp: cond_register_def new_event_def)

text \<open>A notification that is forwarded wakes a queued waiter of an open loop, or finds none.\<close>

lemma cond_forward_cases:
  assumes "cond_forward c a = (c', a')"
  shows "c_lock c' = c_lock c"
    and "(a' = a \<and> c_waiters c' = [] \<and> (\<forall>p \<in> set (c_waiters c). snd p \<in> closed a)) \<or>
      (\<exists>pre e l. c_waiters c = pre @ (e, l) # c_waiters c' \<and> (\<forall>p \<in> set pre. snd p \<in> closed a) \<and> call_soon_set l e a = Some a')"
proof -
  obtain q b where w: "wake_first id (c_waiters c) a = (q, a', b)" and c': "c' = c\<lparr>c_waiters := q\<rparr>"
    using assms by (auto simp: cond_forward_def split: prod.splits)
  show "c_lock c' = c_lock c" by (simp add: c')
  show "(a' = a \<and> c_waiters c' = [] \<and> (\<forall>p \<in> set (c_waiters c). snd p \<in> closed a)) \<or>
      (\<exists>pre e l. c_waiters c = pre @ (e, l) # c_waiters c' \<and> (\<forall>p \<in> set pre. snd p \<in> closed a) \<and> call_soon_set l e a = Some a')"
  proof (cases b)
    case True
    with wake_first_some [of id "c_waiters c" a q a'] w show ?thesis by (auto simp: c')
  next
    case False
    with w show ?thesis by (simp add: c' wake_first_none)
  qed
qed

lemma mutex_release_failed: "mutex_release cur dn lp m a = (Some err, m', a') \<Longrightarrow> m' = m \<and> a' = a"
  by (auto simp: mutex_release_def split: option.splits if_splits prod.splits)

section \<open>The invariant\<close>

text \<open>
  The events of the condition are not those of the lock; nobody suspended on an open loop is out of
  the queue without being woken; a \<open>wait_for\<close> that has returned has its predicate.
\<close>

definition cond_entries :: "'d csys \<Rightarrow> (evt \<times> loop) set" where
  "cond_entries s = set (c_waiters (cs_cond s)) \<union> set (cs_popped s)"

definition cond_queue_ok :: "'d csys \<Rightarrow> bool" where
  "cond_queue_ok s \<longleftrightarrow>
     (\<forall>e l. (e, l) \<in> cond_entries s \<longrightarrow> e < next_evt (cs_aio s) \<and> (\<forall>t. lock_pc (cs_phase s t) \<noteq> Waiting e)) \<and>
     (\<forall>t e. cond_event (cs_phase s t) = Some e \<longrightarrow> e < next_evt (cs_aio s) \<and> (\<forall>u. lock_pc (cs_phase s u) \<noteq> Waiting e)) \<and>
     (\<forall>t u e. cond_event (cs_phase s t) = Some e \<longrightarrow> cond_event (cs_phase s u) = Some e \<longrightarrow> t = u) \<and>
     (\<forall>t e. cond_event (cs_phase s t) = Some e \<longrightarrow> cond_open s t \<longrightarrow>
        (e, cs_loop s t) \<in> cond_entries s \<or> e \<in> scheduled (cs_aio s)) \<and>
     (\<forall>t e l. cond_event (cs_phase s t) = Some e \<longrightarrow> (e, l) \<in> cond_entries s \<longrightarrow> l = cs_loop s t)"

definition cond_inv :: "('d \<Rightarrow> bool) \<Rightarrow> 'd csys \<Rightarrow> bool" where
  "cond_inv predicate s \<longleftrightarrow> lock_inv (cond_lock_sys s) \<and> cond_queue_ok s \<and>
     (\<forall>t. cs_phase s t = C_passed \<longrightarrow> predicate (cs_data s))"

lemma cond_queueD:
  assumes "cond_queue_ok s"
  shows "(e, l) \<in> cond_entries s \<Longrightarrow> e < next_evt (cs_aio s)"
    and "(e, l) \<in> cond_entries s \<Longrightarrow> lock_pc (cs_phase s t) \<noteq> Waiting e"
    and "cond_event (cs_phase s t) = Some e \<Longrightarrow> e < next_evt (cs_aio s)"
    and "cond_event (cs_phase s t) = Some e \<Longrightarrow> lock_pc (cs_phase s u) \<noteq> Waiting e"
    and "cond_event (cs_phase s t) = Some e \<Longrightarrow> cond_event (cs_phase s u) = Some e \<Longrightarrow> t = u"
    and "cond_event (cs_phase s t) = Some e \<Longrightarrow> cond_open s t \<Longrightarrow> (e, cs_loop s t) \<in> cond_entries s \<or> e \<in> scheduled (cs_aio s)"
    and "cond_event (cs_phase s t) = Some e \<Longrightarrow> (e, l) \<in> cond_entries s \<Longrightarrow> l = cs_loop s t"
  using assms unfolding cond_queue_ok_def by blast+

lemma cond_queueI:
  assumes "\<And>e l. (e, l) \<in> cond_entries s \<Longrightarrow> e < next_evt (cs_aio s)"
    and "\<And>e l t. (e, l) \<in> cond_entries s \<Longrightarrow> lock_pc (cs_phase s t) \<noteq> Waiting e"
    and "\<And>t e. cond_event (cs_phase s t) = Some e \<Longrightarrow> e < next_evt (cs_aio s)"
    and "\<And>t u e. cond_event (cs_phase s t) = Some e \<Longrightarrow> lock_pc (cs_phase s u) \<noteq> Waiting e"
    and "\<And>t u e. cond_event (cs_phase s t) = Some e \<Longrightarrow> cond_event (cs_phase s u) = Some e \<Longrightarrow> t = u"
    and "\<And>t e. cond_event (cs_phase s t) = Some e \<Longrightarrow> cond_open s t \<Longrightarrow>
      (e, cs_loop s t) \<in> cond_entries s \<or> e \<in> scheduled (cs_aio s)"
    and "\<And>t e l. cond_event (cs_phase s t) = Some e \<Longrightarrow> (e, l) \<in> cond_entries s \<Longrightarrow> l = cs_loop s t"
  shows "cond_queue_ok s"
  unfolding cond_queue_ok_def
proof (intro conjI allI impI, goal_cases)
  case (5 t u e)
  then show ?case by (rule assms(5))
qed (use assms(1-4,6,7) in blast)+

lemma lock_sim_env:
  assumes "a' = a \<or> env_step p a a'" and "aio s = a" and "pcs s = p"
  shows "s\<lparr>aio := a'\<rparr> = s \<or> lock_step s (s\<lparr>aio := a'\<rparr>)"
  using assms by (auto intro: lock_env)

lemma wake_env:
  "(e, l) \<in> cond_entries s \<Longrightarrow> cond_queue_ok s \<Longrightarrow>
   call_soon_set l e (cs_aio s) = Some a \<Longrightarrow> env_step (\<lambda>t. lock_pc (cs_phase s t)) (cs_aio s) a"
  using cond_queueD(1,2) by (blast intro: env_set)


lemma cond_sim_forward:
  assumes "cond_queue_ok s" and "cond_forward (cs_cond s) (cs_aio s) = (c, a)" and "lock_pc x = lock_pc (cs_phase s t)"
  shows "cond_lock_sys (s\<lparr>cs_phase := (cs_phase s)(t := x), cs_cond := c, cs_aio := a\<rparr>) = cond_lock_sys s \<or>
    lock_step (cond_lock_sys s) (cond_lock_sys (s\<lparr>cs_phase := (cs_phase s)(t := x), cs_cond := c, cs_aio := a\<rparr>))"
proof -
  have "a = cs_aio s \<or> env_step (pcs (cond_lock_sys s)) (cs_aio s) a"
    using cond_forward_cases(2) [OF assms(2)] wake_env [OF _ assms(1)]
    by (auto simp: cond_entries_def cond_lock_sys_def) blast
  moreover have "cond_lock_sys (s\<lparr>cs_phase := (cs_phase s)(t := x), cs_cond := c, cs_aio := a\<rparr>) = (cond_lock_sys s)\<lparr>aio := a\<rparr>"
    using cond_forward_cases(1) [OF assms(2)] assms(3) by (subst cond_lock_aio) auto
  ultimately show ?thesis using lock_sim_env [of a "cs_aio s" "pcs (cond_lock_sys s)" "cond_lock_sys s"] by simp
qed

lemma cond_sim_register:
  assumes "cond_register l (cs_cond s) (cs_aio s) = (e, c, a)" and "lock_pc (cs_phase s t) = Holding"
  shows "lock_step (cond_lock_sys s) (cond_lock_sys (s\<lparr>cs_phase := (cs_phase s)(t := C_reg e w), cs_cond := c, cs_aio := a\<rparr>))"
proof -
  have "env_step (pcs (cond_lock_sys s)) (cs_aio s) a"
    using assms(1) by (intro env_new [of _ e]) (simp add: cond_register_eq new_event_def)
  moreover have "cond_lock_sys (s\<lparr>cs_phase := (cs_phase s)(t := C_reg e w), cs_cond := c, cs_aio := a\<rparr>) = (cond_lock_sys s)\<lparr>aio := a\<rparr>"
    using assms by (subst cond_lock_aio) (auto simp: cond_register_eq)
  ultimately show ?thesis using lock_step.lock_env [of "cond_lock_sys s" a] by simp
qed

lemma env_step_fewer: "env_step p a a' \<Longrightarrow> (\<And>t e. q t = Waiting e \<Longrightarrow> p t = Waiting e) \<Longrightarrow> env_step q a a'"
proof (induction rule: env_step.cases)
  case (env_set l e)
  then show ?case by (metis env_step.env_set)
qed (auto intro: env_step.intros)

lemma cond_sim:
  assumes ok: "cond_queue_ok s" and st: "cond_step predicate s s'"
  shows "cond_lock_sys s' = cond_lock_sys s \<or> lock_step (cond_lock_sys s) (cond_lock_sys s')"
  using st
proof cases
  case (cv_enter t m a)
  then show ?thesis unfolding cond_lock_put cv_enter(1)
    by (intro disjI2) (simp add: lock_enter_ok cond_open_def)
next
  case (cv_enter_wait t e m a)
  then show ?thesis unfolding cond_lock_put cv_enter_wait(1)
    by (intro disjI2) (simp add: lock_enter_wait cond_open_def)
next
  case (cv_entered t e)
  then show ?thesis unfolding cond_lock_phase cv_entered(1)
    using lock_resume [of "cond_lock_sys s" t e] by (intro disjI2) (simp add: cond_open_def)
next
  case (cv_enter_cancelled t e m a)
  then show ?thesis unfolding cond_lock_put cv_enter_cancelled(1)
    using lock_cancelled [of "cond_lock_sys s" t e m a] by (intro disjI2) (simp add: cond_open_def)
next
  case (cv_leave t r m a)
  then show ?thesis unfolding cond_lock_put cv_leave(1)
    using lock_leave [of "cond_lock_sys s" t r m a] by (intro disjI2) auto
next
  case (cv_finish t)
  then show ?thesis unfolding cond_lock_phase cv_finish(1)
    using lock_finish [of "cond_lock_sys s" t] by (intro disjI2) auto
next
  case (cv_write t d)
  then show ?thesis by (intro disjI1) (auto intro!: cond_lock_same)
next
  case (cv_wait t e c a)
  then show ?thesis using cond_sim_register [of "cs_loop s t" s e c a t False] by auto
next
  case (cv_wait_for t)
  then show ?thesis by (intro disjI1) (auto intro!: cond_lock_same)
next
  case (cv_true t)
  then show ?thesis by (intro disjI1) (auto intro!: cond_lock_same)
next
  case (cv_false t e c a)
  then show ?thesis using cond_sim_register [of "cs_loop s t" s e c a t True] by auto
next
  case (cv_released t e w m a)
  then show ?thesis unfolding cond_lock_put cv_released(1)
    using lock_leave [of "cond_lock_sys s" t None m a] by (intro disjI2) auto
next
  case (cv_not_released t e w err m a present c)
  then show ?thesis using cond_discard_lock by (intro disjI1) (auto intro!: cond_lock_same)
next
  case (cv_notified t e w)
  then show ?thesis by (intro disjI1) (auto intro!: cond_lock_same)
next
  case (cv_interrupted t e w present c)
  then show ?thesis using cond_discard_lock by (intro disjI1) (auto intro!: cond_lock_same)
next
  case (cv_passed_on t w c a)
  then show ?thesis using cond_sim_forward [OF ok cv_passed_on(3), of "C_back False False w" t] by simp
next
  case (cv_back t n x w m a)
  then show ?thesis unfolding cond_lock_put cv_back(1)
    using lock_enter_ok [of "cond_lock_sys s" t m a] by (intro disjI2) (simp add: cond_open_def)
next
  case (cv_back_wait t n x w e m a)
  then show ?thesis unfolding cond_lock_put cv_back_wait(1)
    using lock_enter_wait [of "cond_lock_sys s" t e m a] by (intro disjI2) (simp add: cond_open_def)
next
  case (cv_relocked t e n x w)
  then show ?thesis unfolding cond_lock_phase cv_relocked(1)
    using lock_resume [of "cond_lock_sys s" t e] by (intro disjI2) (simp add: cond_open_def)
next
  case (cv_absorbed t e n x w m a)
  then show ?thesis unfolding cond_lock_put cv_absorbed(1)
    using lock_cancelled [of "cond_lock_sys s" t e m a] by (intro disjI2) (simp add: cond_open_def)
next
  case (cv_forwarded t c a)
  then show ?thesis using cond_sim_forward [OF ok cv_forwarded(3), of C_in t] by simp
next
  case (cv_notify n ws c)
  then show ?thesis using cond_pop_lock by (intro disjI1) (auto intro!: cond_lock_same)
next
  case (cv_wake ws1 x ws2)
  obtain e l where x: "x = (e, l)" by fastforce
  have "wake_ignoring x (cs_aio s) = cs_aio s \<or> env_step (pcs (cond_lock_sys s)) (cs_aio s) (wake_ignoring x (cs_aio s))"
  proof (cases "call_soon_set l e (cs_aio s)")
    case None
    then show ?thesis by (simp add: wake_ignoring_def x)
  next
    case (Some a)
    have "(e, l) \<in> cond_entries s" by (simp add: cond_entries_def cv_wake(2) x)
    from wake_env [OF this ok Some] Some show ?thesis by (simp add: wake_ignoring_def x cond_lock_sys_def)
  qed
  from lock_sim_env [OF this, of "cond_lock_sys s"] show ?thesis
    unfolding cv_wake(1) by (subst (1 2) cond_lock_aio [of _ s]) auto
next
  case (cv_env a)
  have "env_step (pcs (cond_lock_sys s)) (cs_aio s) a"
    using cv_env(2) by (rule env_step_fewer) (auto simp: elim!: lock_pc.elims)
  from lock_sim_env [OF disjI2 [OF this], of "cond_lock_sys s"] show ?thesis
    unfolding cv_env(1) by (subst (1 2) cond_lock_aio [of _ s]) auto
qed


lemma cond_queue_change:
  assumes ok: "cond_queue_ok s" and lp: "cs_loop s' = cs_loop s"
    and nx: "next_evt (cs_aio s) \<le> next_evt (cs_aio s')" and sch: "scheduled (cs_aio s) \<subseteq> scheduled (cs_aio s')"
    and cl: "closed (cs_aio s) \<subseteq> closed (cs_aio s')"
    and lock: "\<And>t e. lock_pc (cs_phase s' t) = Waiting e \<Longrightarrow> lock_pc (cs_phase s t) = Waiting e \<or> next_evt (cs_aio s) \<le> e"
    and ev: "\<And>t e. cond_event (cs_phase s' t) = Some e \<Longrightarrow> cond_event (cs_phase s t) = Some e"
    and sub: "cond_entries s' \<subseteq> cond_entries s"
    and lost: "\<And>e l t. (e, l) \<in> cond_entries s \<Longrightarrow> (e, l) \<notin> cond_entries s' \<Longrightarrow> l \<notin> closed (cs_aio s) \<Longrightarrow>
      e \<notin> scheduled (cs_aio s') \<Longrightarrow> cond_event (cs_phase s' t) \<noteq> Some e"
  shows "cond_queue_ok s'"
proof (rule cond_queueI, goal_cases)
  case (1 e l)
  then show ?case using cond_queueD(1) [OF ok] sub nx by fastforce
next
  case (2 e l t)
  then have "(e, l) \<in> cond_entries s" using sub by blast
  then show ?case using cond_queueD(1,2) [OF ok] lock [of t e] by fastforce
next
  case (3 t e)
  then show ?case using cond_queueD(3) [OF ok] ev nx by fastforce
next
  case (4 t u e)
  then show ?case using cond_queueD(3,4) [OF ok] ev lock [of u e] by fastforce
next
  case (5 t u e)
  then show ?case using cond_queueD(5) [OF ok] ev by blast
next
  case (6 t e)
  then have t: "cond_event (cs_phase s t) = Some e" "cond_open s t" using ev cl lp by (auto simp: cond_open_def)
  with cond_queueD(6) [OF ok] have "(e, cs_loop s t) \<in> cond_entries s \<or> e \<in> scheduled (cs_aio s)" by blast
  with lost [of e "cs_loop s t" t] 6(1) t(2) sch lp show ?case by (auto simp: cond_open_def)
next
  case (7 t e l)
  then show ?case using cond_queueD(7) [OF ok] ev sub lp by fastforce
qed

lemma cond_queue_register:
  assumes ok: "cond_queue_ok s" and r: "cond_register (cs_loop s t) (cs_cond s) (cs_aio s) = (e, c, a)"
    and lock: "lock_inv (cond_lock_sys s)"
  shows "cond_queue_ok (s\<lparr>cs_phase := (cs_phase s)(t := C_reg e w), cs_cond := c, cs_aio := a\<rparr>)"
proof -
  note D = cond_queueD [OF ok]
  have e: "e = next_evt (cs_aio s)" "a = (cs_aio s)\<lparr>next_evt := Suc e\<rparr>"
    "c = (cs_cond s)\<lparr>c_waiters := od_set e (cs_loop s t) (c_waiters (cs_cond s))\<rparr>"
    using r by (auto simp: cond_register_eq)
  have "\<not> od_has e (c_waiters (cs_cond s))"
    using D(1) e(1) by (fastforce simp: od_has_def cond_entries_def)
  then have w: "c_waiters c = c_waiters (cs_cond s) @ [(e, cs_loop s t)]" by (simp add: e od_set_fresh)
  have lk: "lock_pc (cs_phase s u) \<noteq> Waiting e" for u
    using waiters_okD(5) [of "cs_loop s" "m_waiters (c_lock (cs_cond s))" "cs_aio s" "pcs (cond_lock_sys s)" "cs_loop s" u e]
      lock e(1) by (auto simp: lock_inv_def)
  have ent: "cond_entries (s\<lparr>cs_phase := (cs_phase s)(t := C_reg e w), cs_cond := c, cs_aio := a\<rparr>) =
      insert (e, cs_loop s t) (cond_entries s)"
    by (auto simp: cond_entries_def w)
  have old: "(e, l) \<notin> cond_entries s" "cond_event (cs_phase s u) \<noteq> Some e" for l u
    using D(1,3) e(1) by blast+
  show ?thesis
  proof (rule cond_queueI, goal_cases)
    case (1 f l)
    then show ?case unfolding ent using D(1) by (auto simp: e intro: less_SucI)
  next
    case (2 f l u)
    then show ?case unfolding ent using D(2) lk by (auto split: if_splits)
  next
    case (3 u f)
    then show ?case using D(3) by (auto simp: e intro: less_SucI split: if_splits)
  next
    case (4 u v f)
    then show ?case using D(4) lk by (auto split: if_splits)
  next
    case (5 u v f)
    then show ?case using D(5) old(2) by (auto split: if_splits)
  next
    case (6 u f)
    then show ?case unfolding ent using D(6) by (auto simp: cond_open_def e split: if_splits)
  next
    case (7 u f l)
    then show ?case unfolding ent using D(7) old by (auto split: if_splits)
  qed
qed

lemma release_locked_aio:
  "release_locked dn lp m a = (m', a') \<Longrightarrow> next_evt a' = next_evt a \<and> scheduled a \<subseteq> scheduled a' \<and> closed a' = closed a"
  by (auto simp: release_locked_def hand_over_eq split: list.splits)

lemma mutex_acquire_aio:
  assumes "mutex_acquire (Some t) dn lp m a = (Inr r, m', a')"
  shows "scheduled a \<subseteq> scheduled a' \<and> closed a' = closed a \<and> next_evt a \<le> next_evt a' \<and> (\<forall>e. r = Suspended e \<longrightarrow> e = next_evt a)"
proof -
  obtain m1 a1 where r: "release_locked dn lp m a = (m1, a1)" by fastforce
  from release_locked_aio [OF r] assms r show ?thesis
    by (auto simp: mutex_acquire_def new_event_def Let_def split: if_splits option.splits)
qed

lemma mutex_cancelled_aio:
  "mutex_cancelled t e dn lp m a = (m', a') \<Longrightarrow> next_evt a' = next_evt a \<and> scheduled a \<subseteq> scheduled a' \<and> closed a' = closed a"
  by (auto simp: mutex_cancelled_def Let_def dest: release_locked_aio split: if_splits)

lemma mutex_release_aio:
  assumes "mutex_release (Some t) dn lp m a = (r, m', a')"
  shows "next_evt a' = next_evt a \<and> scheduled a \<subseteq> scheduled a' \<and> closed a' = closed a"
proof -
  obtain m1 a1 where r: "release_locked dn lp m a = (m1, a1)" by fastforce
  from release_locked_aio [OF r] assms r show ?thesis
    by (auto simp: mutex_release_def split: if_splits)
qed

lemma env_step_aio: "env_step p a a' \<Longrightarrow> next_evt a \<le> next_evt a' \<and> scheduled a \<subseteq> scheduled a' \<and> closed a \<subseteq> closed a'"
  by (auto simp: env_step.simps aio_step.simps run_callback_def close_loop_def new_event_def call_soon_set_Some)

lemma cond_queue_put:
  assumes ok: "cond_queue_ok s" and a: "next_evt (cs_aio s) \<le> next_evt a" "scheduled (cs_aio s) \<subseteq> scheduled a" "closed a = closed (cs_aio s)"
    and x: "cond_event x = None \<or> cond_event x = cond_event (cs_phase s t)"
    and l: "\<And>e. lock_pc x = Waiting e \<Longrightarrow> lock_pc (cs_phase s t) = Waiting e \<or> next_evt (cs_aio s) \<le> e"
  shows "cond_queue_ok (cond_put t x m a s)"
  by (rule cond_queue_change [OF ok]) (use a x l in \<open>auto simp: cond_put_def cond_entries_def split: if_splits\<close>)

lemma cond_queue_phase:
  assumes ok: "cond_queue_ok s" and x: "cond_event x = None \<or> cond_event x = cond_event (cs_phase s t)"
    and l: "\<And>e. lock_pc x \<noteq> Waiting e"
  shows "cond_queue_ok (s\<lparr>cs_phase := (cs_phase s)(t := x)\<rparr>)"
  by (rule cond_queue_change [OF ok]) (use x l in \<open>auto simp: cond_entries_def split: if_splits\<close>)

lemma cond_queue_forward:
  assumes ok: "cond_queue_ok s" and f: "cond_forward (cs_cond s) (cs_aio s) = (c, a)"
    and x: "cond_event x = None" "\<And>e. lock_pc x \<noteq> Waiting e"
  shows "cond_queue_ok (s\<lparr>cs_phase := (cs_phase s)(t := x), cs_cond := c, cs_aio := a\<rparr>)"
proof -
  have a: "next_evt a = next_evt (cs_aio s)" "scheduled (cs_aio s) \<subseteq> scheduled a" "closed a = closed (cs_aio s)"
    using cond_forward_cases(2) [OF f] by (auto simp: call_soon_set_Some)
  have sub: "set (c_waiters c) \<subseteq> set (c_waiters (cs_cond s))"
    and lost: "\<And>e l. (e, l) \<in> set (c_waiters (cs_cond s)) \<Longrightarrow> (e, l) \<in> set (c_waiters c) \<or> l \<in> closed (cs_aio s) \<or> e \<in> scheduled a"
    using cond_forward_cases(2) [OF f] by (auto simp: call_soon_set_Some) (metis snd_conv)
  show ?thesis
  proof (rule cond_queue_change [OF ok], goal_cases)
    case (8 e l u)
    then show ?case using lost [of e l] by (auto simp: cond_entries_def)
  qed (use a x sub in \<open>auto simp: cond_entries_def split: if_splits\<close>)
qed

lemma cond_queue_discard:
  assumes ok: "cond_queue_ok s" and d: "cond_discard e (cs_cond s) = (b, c)" and t: "cond_event (cs_phase s t) = Some e"
    and x: "cond_event x = None" "\<And>e. lock_pc x \<noteq> Waiting e"
  shows "cond_queue_ok (s\<lparr>cs_phase := (cs_phase s)(t := x), cs_cond := c\<rparr>)"
proof -
  have c: "c_waiters c = od_del e (c_waiters (cs_cond s))" using d by (auto simp: cond_discard_def)
  have "cond_event (cs_phase s u) = Some e \<Longrightarrow> u = t" for u using cond_queueD(5) [OF ok] t by blast
  then show ?thesis
    by (intro cond_queue_change [OF ok]) (use x c in \<open>auto simp: cond_entries_def set_od_del split: if_splits\<close>)
qed


lemma cond_queue_step:
  assumes ok: "cond_queue_ok s" and lock: "lock_inv (cond_lock_sys s)" and st: "cond_step predicate s s'"
  shows "cond_queue_ok s'"
  using st
proof cases
  case (cv_enter t m a)
  then show ?thesis using mutex_acquire_aio [of t "cond_done s" "cs_loop s" "c_lock (cs_cond s)" "cs_aio s"]
    by (auto intro!: cond_queue_put ok)
next
  case (cv_enter_wait t e m a)
  then show ?thesis using mutex_acquire_aio [OF cv_enter_wait(4)] by (auto intro!: cond_queue_put ok)
next
  case (cv_entered t e)
  then show ?thesis by (auto intro!: cond_queue_phase ok)
next
  case (cv_enter_cancelled t e m a)
  then show ?thesis using mutex_cancelled_aio [OF cv_enter_cancelled(4)] by (auto intro!: cond_queue_put ok)
next
  case (cv_leave t r m a)
  then show ?thesis using mutex_release_aio [OF cv_leave(3)] by (auto intro!: cond_queue_put ok)
next
  case (cv_finish t)
  then show ?thesis by (auto intro!: cond_queue_phase ok)
next
  case (cv_write t d)
  then show ?thesis by (intro cond_queue_change [OF ok]) (auto simp: cond_entries_def split: if_splits)
next
  case (cv_wait t e c a)
  then show ?thesis by (auto intro: cond_queue_register ok lock)
next
  case (cv_wait_for t)
  then show ?thesis by (auto intro!: cond_queue_phase ok)
next
  case (cv_true t)
  then show ?thesis by (auto intro!: cond_queue_phase ok)
next
  case (cv_false t e c a)
  then show ?thesis by (auto intro: cond_queue_register ok lock)
next
  case (cv_released t e w m a)
  then show ?thesis using mutex_release_aio [OF cv_released(3)] by (auto intro!: cond_queue_put ok)
next
  case (cv_not_released t e w err m a present c)
  then show ?thesis by (auto intro!: cond_queue_discard [of _ e present] ok)
next
  case (cv_notified t e w)
  then show ?thesis by (auto intro!: cond_queue_phase ok)
next
  case (cv_interrupted t e w present c)
  have "cond_queue_ok (s\<lparr>cs_phase := (cs_phase s)(t := x), cs_cond := c\<rparr>)" if "x \<in> {C_back False False w, C_pass w}" for x
    using cv_interrupted that by (intro cond_queue_discard [of _ e present] ok) auto
  then show ?thesis unfolding cv_interrupted(1) by simp
next
  case (cv_passed_on t w c a)
  then show ?thesis by (auto intro!: cond_queue_forward ok)
next
  case (cv_back t n x w m a)
  have "cond_event (cond_resumed n x w) = None" by (simp add: cond_resumed_def)
  with cv_back mutex_acquire_aio [OF cv_back(4)] show ?thesis by (auto intro!: cond_queue_put ok)
next
  case (cv_back_wait t n x w e m a)
  then show ?thesis using mutex_acquire_aio [OF cv_back_wait(4)] by (auto intro!: cond_queue_put ok)
next
  case (cv_relocked t e n x w)
  have "cond_event (cond_resumed n x w) = None" by (simp add: cond_resumed_def)
  with cv_relocked show ?thesis by (auto intro!: cond_queue_phase ok)
next
  case (cv_absorbed t e n x w m a)
  then show ?thesis using mutex_cancelled_aio [OF cv_absorbed(4)] by (auto intro!: cond_queue_put ok)
next
  case (cv_forwarded t c a)
  then show ?thesis by (auto intro!: cond_queue_forward ok)
next
  case (cv_notify n ws c)
  have "cond_entries s' = cond_entries s"
    using cond_pop_lock [OF cv_notify(3)] by (auto simp: cv_notify(1) cond_entries_def)
  then show ?thesis by (intro cond_queue_change [OF ok]) (auto simp: cv_notify(1))
next
  case (cv_wake ws1 x ws2)
  obtain e l where x: "x = (e, l)" by fastforce
  show ?thesis unfolding cv_wake(1) x wake_ignoring_eq
    by (rule cond_queue_change [OF ok]) (auto simp: cond_entries_def cv_wake(2) x split: if_splits)
next
  case (cv_env a)
  then show ?thesis using env_step_aio [OF cv_env(2)]
    by (intro cond_queue_change [OF ok]) (auto simp: cond_entries_def)
qed

lemma cond_users: "lock_pc (cs_phase s t) = Holding \<Longrightarrow> t \<in> users (cond_lock_sys s)"
  by (simp add: users_def tusers_def)

lemma cond_passed_step:
  assumes p: "\<And>t. cs_phase s t = C_passed \<Longrightarrow> predicate (cs_data s)" and lock: "lock_inv (cond_lock_sys s)"
    and st: "cond_step predicate s s'" and t: "cs_phase s' t = C_passed"
  shows "predicate (cs_data s')"
proof -
  have uniq: "u = v" if "lock_pc (cs_phase s u) = Holding" "lock_pc (cs_phase s v) = Holding" for u v
  proof -
    have "\<forall>x \<in> users (cond_lock_sys s). m_owner (c_lock (cs_cond s)) = Some x"
      using lock by (simp add: lock_inv_def)
    with cond_users [OF that(1)] cond_users [OF that(2)] show ?thesis by (metis option.inject)
  qed
  from st show ?thesis
  proof cases
    case (cv_write u d)
    then have "t \<noteq> u" "lock_pc (cs_phase s t) = Holding" "lock_pc (cs_phase s u) = Holding"
      using t by (auto split: if_splits)
    then show ?thesis using uniq by blast
  qed (use p t in \<open>auto simp: cond_put_def cond_resumed_def split: if_splits\<close>)
qed

lemma cond_inv_start: "cond_start s \<Longrightarrow> cond_inv predicate s"
proof -
  assume s: "cond_start s"
  have "lock_start (cond_lock_sys s)"
    using s by (auto simp: lock_start_def cond_lock_sys_def fresh_sys_def cond_start_def cond_new_def)
  then have "lock_inv (cond_lock_sys s)" by (rule lock_inv_start)
  with s show ?thesis by (auto simp: cond_inv_def cond_queue_ok_def cond_start_def cond_new_def cond_entries_def)
qed

lemma cond_inv_step: "cond_inv predicate s \<Longrightarrow> cond_step predicate s s' \<Longrightarrow> cond_inv predicate s'"
proof -
  assume i: "cond_inv predicate s" and st: "cond_step predicate s s'"
  then have l: "lock_inv (cond_lock_sys s)" and q: "cond_queue_ok s" by (simp_all add: cond_inv_def)
  have "lock_inv (cond_lock_sys s')" using cond_sim [OF q st] lock_inv_step [OF l] l by auto
  moreover have "\<forall>t. cs_phase s' t = C_passed \<longrightarrow> predicate (cs_data s')"
    using cond_passed_step [OF _ l st] i by (auto simp: cond_inv_def)
  ultimately show ?thesis using cond_queue_step [OF q l st] by (simp add: cond_inv_def)
qed

interpretation conds: simulation cond_start "cond_step predicate" "cond_inv predicate" cond_lock_sys lock_step
  for predicate
proof (unfold_locales, goal_cases)
  case (1 s)
  then show ?case by (rule cond_inv_start)
next
  case (2 s s')
  then show ?case by (rule cond_inv_step)
next
  case (3 s s')
  then show ?case using cond_sim [of s predicate s'] by (auto simp: cond_inv_def)
qed


section \<open>Properties\<close>

text \<open>A run: task 0 takes the lock, waits, and has released it.\<close>

definition cond_demo :: "mutex \<Rightarrow> (evt, loop) odict \<Rightarrow> nat \<Rightarrow> cphase \<Rightarrow> nat csys" where
  "cond_demo m q k x = \<lparr>cs_cond = \<lparr>c_lock = m, c_waiters = q\<rparr>, cs_aio = aio_init\<lparr>next_evt := k\<rparr>,
     cs_phase = (\<lambda>t. if t = 0 then x else C_out), cs_loop = (\<lambda>t. t), cs_popped = [], cs_data = 7\<rparr>"

lemma cond_demo_simps [simp]:
  "cs_cond (cond_demo m q k x) = \<lparr>c_lock = m, c_waiters = q\<rparr>" "cs_aio (cond_demo m q k x) = aio_init\<lparr>next_evt := k\<rparr>"
  "cs_phase (cond_demo m q k x) 0 = x" "cs_loop (cond_demo m q k x) t = t" "cs_data (cond_demo m q k x) = 7"
  "cond_open (cond_demo m q k x) 0" "cond_put 0 y m' (aio_init\<lparr>next_evt := j\<rparr>) (cond_demo m q k x) = cond_demo m' q j y"
  "(cond_demo m q k x)\<lparr>cs_phase := (cs_phase (cond_demo m q k x))(0 := y)\<rparr> = cond_demo m q k y"
  "(cond_demo m q k x)\<lparr>cs_cond := \<lparr>c_lock = m', c_waiters = q'\<rparr>,
     cs_aio := aio_init\<lparr>next_evt := j\<rparr>\<rparr> = cond_demo m' q' j x"
  by (simp_all add: cond_demo_def cond_open_def aio_init_def cond_put_def fun_eq_iff)

lemma cond_demo_start: "cond_start (cond_demo mutex_new [] 0 C_out)"
  by (simp add: cond_start_def cond_demo_def cond_new_def aio_init_def fun_eq_iff)

lemma cond_demo_in: "reach (cond_step predicate) (cond_demo mutex_new [] 0 C_out) (cond_demo \<lparr>m_owner = Some 0, m_waiters = []\<rparr> [] 0 C_in)"
proof (rule reach_one)
  show "cond_step predicate (cond_demo mutex_new [] 0 C_out) (cond_demo \<lparr>m_owner = Some 0, m_waiters = []\<rparr> [] 0 C_in)"
    using cv_enter [of "cond_demo mutex_new [] 0 C_out" 0 "\<lparr>m_owner = Some 0, m_waiters = []\<rparr>" "aio_init\<lparr>next_evt := 0\<rparr>" predicate]
    by (simp add: mutex_acquire_def mutex_new_def)
qed

lemma cond_demo_passed: "reach (cond_step ((<) 3)) (cond_demo mutex_new [] 0 C_out) (cond_demo \<lparr>m_owner = Some 0, m_waiters = []\<rparr> [] 0 C_passed)"
proof -
  let ?m = "\<lparr>m_owner = Some 0, m_waiters = []\<rparr>"
  have "cond_step ((<) 3) (cond_demo ?m [] 0 C_in) (cond_demo ?m [] 0 C_test)"
    using cv_wait_for [of "cond_demo ?m [] 0 C_in" 0 "(<) 3"] by simp
  moreover have "cond_step ((<) 3) (cond_demo ?m [] 0 C_test) (cond_demo ?m [] 0 C_passed)"
    using cv_true [of "cond_demo ?m [] 0 C_test" 0 "(<) 3"] by simp
  ultimately show ?thesis using cond_demo_in by (meson reach_step)
qed

lemma cond_demo_waits: "reach (cond_step predicate) (cond_demo mutex_new [] 0 C_out) (cond_demo mutex_new [(0, 0)] 1 (C_wait 0 False))"
proof -
  let ?m = "\<lparr>m_owner = Some 0, m_waiters = []\<rparr>"
  have "cond_step predicate (cond_demo ?m [] 0 C_in) (cond_demo ?m [(0, 0)] 1 (C_reg 0 False))"
    using cv_wait [of "cond_demo ?m [] 0 C_in" 0 0 "\<lparr>c_lock = ?m, c_waiters = [(0, 0)]\<rparr>" "aio_init\<lparr>next_evt := 1\<rparr>" predicate]
    by (simp add: cond_wait_check_def mutex_locked_def cond_register_def new_event_def)
  moreover have "cond_step predicate (cond_demo ?m [(0, 0)] 1 (C_reg 0 False)) (cond_demo mutex_new [(0, 0)] 1 (C_wait 0 False))"
    using cv_released [of "cond_demo ?m [(0, 0)] 1 (C_reg 0 False)" 0 0 False mutex_new "aio_init\<lparr>next_evt := 1\<rparr>" predicate]
    by (simp add: mutex_release_def release_locked_def mutex_new_def)
  ultimately show ?thesis using cond_demo_in by (meson reach_step)
qed

text \<open>
  C11: A condition refines its lock.  Whatever the tasks of any loops do with a condition (enter, wait,
  be notified, interrupted or cancelled in the re-acquisition, leave, finish without releasing), its
  lock goes through a run of the lock alone, so of all tasks that are inside, also those that have come
  back from a \<open>wait\<close>, normally or with an exception, there is at most one, and it is the recorded owner.
\<close>

theorem cond_refines_lock:
  assumes "cond_start s0" and "reach (cond_step predicate) s0 s"
    and "lock_pc (cs_phase s t) = Holding" and "lock_pc (cs_phase s u) = Holding"
  shows "reach lock_step (cond_lock_sys s0) (cond_lock_sys s) \<and> t = u \<and> m_owner (c_lock (cs_cond s)) = Some t"
proof -
  have "\<forall>t \<in> users (cond_lock_sys s). m_owner (c_lock (cs_cond s)) = Some t"
    using conds.inv_reach [OF assms(2,1)] by (simp add: cond_inv_def lock_inv_def)
  with cond_users [OF assms(3)] cond_users [OF assms(4)] conds.simulates [OF assms(2,1)]
  show ?thesis by (metis option.inject)
qed

theorem cond_refines_lock_witness:
  "reach lock_step (cond_lock_sys (cond_demo mutex_new [] 0 C_out)) (cond_lock_sys (cond_demo \<lparr>m_owner = Some 0, m_waiters = []\<rparr> [] 0 C_in))"
  using cond_refines_lock [OF cond_demo_start cond_demo_in, of 0 0] by simp

text \<open>
  C12: What \<open>wait_for\<close> is for.  When it has returned to a task, and until that task writes to the
  protected data or leaves, the predicate is true of the data and the task owns the lock, whatever
  other tasks have done between its notification and its return.
\<close>

theorem cond_wait_for_sound:
  assumes "cond_start s0" and "reach (cond_step predicate) s0 s" and "cs_phase s t = C_passed"
  shows "predicate (cs_data s) \<and> m_owner (c_lock (cs_cond s)) = Some t"
proof -
  have "cond_inv predicate s" by (rule conds.inv_reach [OF assms(2,1)])
  with cond_users [of s t] assms(3) show ?thesis by (auto simp: cond_inv_def lock_inv_def)
qed

theorem cond_wait_for_sound_witness: "3 < cs_data (cond_demo \<lparr>m_owner = Some 0, m_waiters = []\<rparr> [] 0 C_passed)"
  using cond_wait_for_sound [OF cond_demo_start cond_demo_passed, of 0] by simp

lemma fold_wake_scheduled:
  "scheduled a \<subseteq> scheduled (fold wake_ignoring ws a) \<and> closed (fold wake_ignoring ws a) = closed a \<and>
   ((e, l) \<in> set ws \<longrightarrow> l \<notin> closed a \<longrightarrow> e \<in> scheduled (fold wake_ignoring ws a))"
proof (induction ws arbitrary: a)
  case (Cons w ws)
  obtain f k where w: "w = (f, k)" by fastforce
  show ?case using Cons.IH [of "wake_ignoring w a"] by (auto simp: w wake_ignoring_eq split: if_splits)
qed simp

text \<open>
  No waiter is forgotten.  A task suspended in \<open>wait\<close> on an open loop is in the queue under its own
  loop, held by a \<open>notify\<close> that has still to wake it, or woken; so a \<open>notify_all\<close> leaves nobody behind:
  after it each of them is woken or due to be.
\<close>

theorem cond_no_waiter_forgotten:
  assumes "cond_start s0" and "reach (cond_step predicate) s0 s"
    and "cs_phase s t = C_wait e w" and "cond_open s t"
  shows "((e, cs_loop s t) \<in> set (c_waiters (cs_cond s)) \<or> (e, cs_loop s t) \<in> set (cs_popped s) \<or> e \<in> scheduled (cs_aio s)) \<and>
    ((e, cs_loop s t) \<in> set (cs_popped s) \<or> e \<in> scheduled (snd (cond_notify_all (cs_cond s) (cs_aio s))))"
proof -
  have "cond_queue_ok s" using conds.inv_reach [OF assms(2,1)] by (simp add: cond_inv_def)
  from cond_queueD(6) [OF this, of t e] assms(3,4)
  have q: "(e, cs_loop s t) \<in> set (c_waiters (cs_cond s)) \<or> (e, cs_loop s t) \<in> set (cs_popped s) \<or> e \<in> scheduled (cs_aio s)"
    by (auto simp: cond_entries_def)
  have n: "snd (cond_notify_all (cs_cond s) (cs_aio s)) = fold wake_ignoring (c_waiters (cs_cond s)) (cs_aio s)"
    by (auto simp: cond_notify_all_def cond_notify_def cond_pop_def Let_def)
  show ?thesis
    using q fold_wake_scheduled [of "cs_aio s" "c_waiters (cs_cond s)" e "cs_loop s t"] assms(4)
    unfolding n by (auto simp: cond_open_def)
qed

theorem cond_no_waiter_forgotten_witness:
  "0 \<in> scheduled (snd (cond_notify_all (cs_cond (cond_demo mutex_new [(0, 0)] 1 (C_wait 0 False))) (aio_init\<lparr>next_evt := 1\<rparr>)))"
  using cond_no_waiter_forgotten [OF cond_demo_start cond_demo_waits, of 0 0 False]
  by (simp add: cond_demo_def cond_open_def aio_init_def)

text \<open>
  \<open>notify\<close> can lose its notification.  When the first waiter belongs to a loop that was closed,
  \<open>notify(1)\<close> pops it, ignores the \<open>RuntimeError\<close> and wakes nobody, also when a live task is next in the
  queue; \<open>_forward_notify\<close> goes on to that task in the same situation.
\<close>

theorem cond_notify_lost:
  assumes "c_waiters c = (e, l) # q" and "l \<in> closed a"
  shows "cond_notify 1 c a = (c\<lparr>c_waiters := q\<rparr>, a) \<and> cond_forward c a = cond_forward (c\<lparr>c_waiters := q\<rparr>) a"
  using assms by (simp add: cond_notify_def cond_pop_def cond_forward_def wake_ignoring_def call_soon_set_def)

theorem cond_notify_lost_witness:
  "cond_notify 1 \<lparr>c_lock = mutex_new, c_waiters = [(0, 5), (1, 6)]\<rparr> (close_loop 5 (aio_init\<lparr>next_evt := 2\<rparr>)) =
     (\<lparr>c_lock = mutex_new, c_waiters = [(1, 6)]\<rparr>, close_loop 5 (aio_init\<lparr>next_evt := 2\<rparr>)) \<and>
   1 \<in> scheduled (snd (cond_forward \<lparr>c_lock = mutex_new, c_waiters = [(0, 5), (1, 6)]\<rparr> (close_loop 5 (aio_init\<lparr>next_evt := 2\<rparr>))))"
  using cond_notify_lost [of "\<lparr>c_lock = mutex_new, c_waiters = [(0, 5), (1, 6)]\<rparr>" 0 5 "[(1, 6)]" "close_loop 5 (aio_init\<lparr>next_evt := 2\<rparr>)"]
  by (simp add: cond_forward_def close_loop_def call_soon_set_def aio_init_def)

end
