(* ===== verification/NativePool.thy ===== *)
theory NativePool
  imports Asyncio "HOL-Library.Multiset"
begin

text \<open>
  \<open>NativeWorkerPool\<close> of \<open>pool.rs\<close>: the global queue, the bounded queue and the batch buffer of
  each worker, \<open>push_global\<close>, \<open>push_local\<close>, \<open>pop_work\<close>, \<open>is_drained\<close> and \<open>close\<close>.  A call is
  one step, but for \<open>close\<close>, whose three stores are separate operations.  Proved: no task is
  lost or doubled, a closed pool is emptied, and where a pinned task leaves its worker.
\<close>

section \<open>The code\<close>

text \<open>
  \<open>n_open\<close>: \<open>global_sender\<close> is there; \<open>n_locals_open\<close>: \<open>local_senders\<close> has not been cleared;
  \<open>n_closed\<close>: the flag.
\<close>

record 'w native =
  n_open :: bool
  n_locals_open :: bool
  n_closed :: bool
  n_global :: "'w list"
  n_locals :: "'w list list"
  n_buffers :: "'w list list"

definition native_new :: "nat \<Rightarrow> 'w native" where
  "native_new k = \<lparr>n_open = True, n_locals_open = True, n_closed = False, n_global = [],
     n_locals = replicate k [], n_buffers = replicate k []\<rparr>"

definition local_capacity :: nat where
  "local_capacity = 256"

definition close_global :: "'w native \<Rightarrow> 'w native" where
  "close_global n = n\<lparr>n_open := False\<rparr>"

definition close_locals :: "'w native \<Rightarrow> 'w native" where
  "close_locals n = n\<lparr>n_locals_open := False\<rparr>"

definition close_flag :: "'w native \<Rightarrow> 'w native" where
  "close_flag n = n\<lparr>n_closed := True\<rparr>"

definition native_close :: "'w native \<Rightarrow> 'w native" where
  "native_close n = close_flag (close_locals (close_global n))"

definition native_is_closed :: "'w native \<Rightarrow> bool" where
  "native_is_closed n \<longleftrightarrow> n_closed n \<or> \<not> n_open n"

definition is_drained :: "'w native \<Rightarrow> bool" where
  "is_drained n \<longleftrightarrow> n_global n = [] \<and> list_all (\<lambda>b. b = []) (n_buffers n) \<and> list_all (\<lambda>q. q = []) (n_locals n)"

definition native_refused :: error where
  "native_refused = ThreadPoolClosedError ''Pool is closed''"

text \<open>A task is never \<open>None\<close> here, so the check for it is left out.\<close>

definition push_global :: "'w \<Rightarrow> 'w native \<Rightarrow> error option \<times> 'w native" where
  "push_global w n =
     (if n_closed n then (Some native_refused, n)
      else if n_open n then (None, n\<lparr>n_global := n_global n @ [w]\<rparr>)
      else (Some native_refused, n))"

definition push_local :: "nat \<Rightarrow> 'w \<Rightarrow> 'w native \<Rightarrow> error option \<times> 'w native" where
  "push_local i w n =
     (if n_closed n then (Some native_refused, n)
      else if \<not> n_locals_open n \<or> n_locals n = [] then (Some native_refused, n)
      else if i \<ge> length (n_locals n) then (Some (RuntimeError ''Worker index out of range''), n)
      else if length (n_locals n ! i) < local_capacity then
        (None, n\<lparr>n_locals := (n_locals n)[i := n_locals n ! i @ [w]]\<rparr>)
      else push_global w n)"

text \<open>
  \<open>pop_work\<close>; \<open>polls\<close> is the number of workers that are pulling a batch at this moment.
\<close>

datatype 'w popped = Work 'w | No_work | Drained

definition batch_size :: "'w native \<Rightarrow> nat" where
  "batch_size n =
     (let len = length (n_global n); workers = length (n_locals n)
      in if n_closed n then min len 128 else if workers = 0 then 1 else min (len div workers + 1) 128)"

definition pull_batch :: "nat \<Rightarrow> nat \<Rightarrow> 'w native \<Rightarrow> 'w native" where
  "pull_batch polls i n =
     (if n_closed n \<or> polls < max 1 (length (n_locals n) div 2) then
        n\<lparr>n_buffers := (n_buffers n)[i := take (batch_size n) (n_global n)], n_global := drop (batch_size n) (n_global n)\<rparr>
      else n)"

definition pop_buffer :: "nat \<Rightarrow> 'w native \<Rightarrow> ('w \<times> 'w native) option" where
  "pop_buffer i n =
     (if i < length (n_buffers n) then
        (case n_buffers n ! i of
           [] \<Rightarrow> None
         | w # b \<Rightarrow> Some (w, n\<lparr>n_buffers := (n_buffers n)[i := b]\<rparr>))
      else None)"

definition pop_local :: "nat \<Rightarrow> 'w native \<Rightarrow> ('w \<times> 'w native) option" where
  "pop_local i n =
     (if i < length (n_locals n) then
        (case n_locals n ! i of
           [] \<Rightarrow> None
         | w # q \<Rightarrow> Some (w, n\<lparr>n_locals := (n_locals n)[i := q]\<rparr>))
      else None)"

definition pop_work :: "nat \<Rightarrow> nat \<Rightarrow> 'w native \<Rightarrow> 'w popped \<times> 'w native" where
  "pop_work polls i n =
     (case pop_buffer i n of
        Some (w, n) \<Rightarrow> (Work w, n)
      | None \<Rightarrow>
          (let n = (if i < length (n_buffers n) then pull_batch polls i n else n)
           in case pop_buffer i n of
                Some (w, n) \<Rightarrow> (Work w, n)
              | None \<Rightarrow>
                  (case pop_local i n of
                     Some (w, n) \<Rightarrow> (Work w, n)
                   | None \<Rightarrow> (if n_closed n \<and> n_global n = [] then Drained else No_work, n))))"

section \<open>Nothing is lost or doubled\<close>

definition native_bag :: "'w native \<Rightarrow> 'w multiset" where
  "native_bag n = mset (n_global n) + mset (concat (n_locals n)) + mset (concat (n_buffers n))"

lemma mset_concat_update:
  "i < length xss \<Longrightarrow> mset (concat (xss[i := ys])) + mset (xss ! i) = mset (concat xss) + mset ys"
proof (induction xss arbitrary: i)
  case (Cons xs xss)
  then show ?case by (cases i) auto
qed simp

lemma close_bag [simp]:
  "native_bag (close_global n) = native_bag n" "native_bag (close_locals n) = native_bag n"
  "native_bag (close_flag n) = native_bag n" "native_bag (native_close n) = native_bag n"
  by (simp_all add: native_bag_def close_global_def close_locals_def close_flag_def native_close_def)

lemma push_global_bag:
  "push_global w n = (r, n') \<Longrightarrow> native_bag n' = (if r = None then add_mset w (native_bag n) else native_bag n)"
  by (auto simp: push_global_def native_bag_def split: if_splits)

lemma push_local_bag:
  assumes "push_local i w n = (r, n')"
  shows "native_bag n' = (if r = None then add_mset w (native_bag n) else native_bag n)"
proof (cases "i < length (n_locals n) \<and> length (n_locals n ! i) < local_capacity \<and> \<not> n_closed n \<and> n_locals_open n")
  case True
  then have n': "r = None" "n' = n\<lparr>n_locals := (n_locals n)[i := n_locals n ! i @ [w]]\<rparr>"
    using assms by (auto simp: push_local_def split: if_splits)
  have "mset (concat ((n_locals n)[i := n_locals n ! i @ [w]])) + mset (n_locals n ! i) =
    mset (concat (n_locals n)) + mset (n_locals n ! i @ [w])"
    using True mset_concat_update by blast
  then show ?thesis by (simp add: n' native_bag_def)
next
  case False
  then have "n' = n \<and> r \<noteq> None \<or> push_global w n = (r, n')"
    using assms by (auto simp: push_local_def split: if_splits)
  then show ?thesis using push_global_bag by fastforce
qed

lemma pop_buffer_bag: "pop_buffer i n = Some (w, n') \<Longrightarrow> native_bag n = add_mset w (native_bag n')"
  using mset_concat_update [of i "n_buffers n" "tl (n_buffers n ! i)"]
  by (auto simp: pop_buffer_def native_bag_def split: if_splits list.splits)

lemma pop_local_bag: "pop_local i n = Some (w, n') \<Longrightarrow> native_bag n = add_mset w (native_bag n')"
  using mset_concat_update [of i "n_locals n" "tl (n_locals n ! i)"]
  by (auto simp: pop_local_def native_bag_def split: if_splits list.splits)

lemma pull_batch_bag:
  assumes "pop_buffer i n = None" and "i < length (n_buffers n)"
  shows "native_bag (pull_batch polls i n) = native_bag n"
proof -
  have e: "n_buffers n ! i = []" using assms by (auto simp: pop_buffer_def split: list.splits)
  let ?k = "batch_size n"
  have "mset (concat ((n_buffers n)[i := take ?k (n_global n)])) = mset (concat (n_buffers n)) + mset (take ?k (n_global n))"
    using mset_concat_update [OF assms(2), of "take ?k (n_global n)"] e by simp
  moreover have "mset (take ?k (n_global n)) + mset (drop ?k (n_global n)) = mset (n_global n)"
    by (simp flip: mset_append)
  ultimately show ?thesis by (simp add: pull_batch_def native_bag_def ac_simps)
qed

lemma pop_work_bag:
  assumes "pop_work polls i n = (r, n')"
  shows "native_bag n = (case r of Work w \<Rightarrow> add_mset w (native_bag n') | _ \<Rightarrow> native_bag n')"
proof (cases "pop_buffer i n")
  case None
  define m where "m = (if i < length (n_buffers n) then pull_batch polls i n else n)"
  have m: "native_bag m = native_bag n" using pull_batch_bag [OF None] by (simp add: m_def)
  have "pop_work polls i n = (case pop_buffer i m of Some (w, n) \<Rightarrow> (Work w, n) | None \<Rightarrow>
      (case pop_local i m of Some (w, n) \<Rightarrow> (Work w, n) | None \<Rightarrow> (if n_closed m \<and> n_global m = [] then Drained else No_work, m)))"
    by (simp only: pop_work_def None option.case Let_def m_def)
  then show ?thesis using assms m pop_buffer_bag pop_local_bag
    by (fastforce split: option.splits prod.splits popped.splits if_splits)
next
  case (Some p)
  then show ?thesis using assms pop_buffer_bag by (fastforce simp: pop_work_def split: prod.splits)
qed

lemma pop_work_flags:
  "pop_work polls i n = (r, n') \<Longrightarrow> n_open n' = n_open n \<and> n_closed n' = n_closed n \<and> n_locals_open n' = n_locals_open n \<and>
     length (n_locals n') = length (n_locals n) \<and> length (n_buffers n') = length (n_buffers n)"
  by (auto simp: pop_work_def pop_buffer_def pop_local_def pull_batch_def Let_def
      split: option.splits prod.splits if_splits list.splits)

lemma push_global_flags:
  "push_global w n = (r, n') \<Longrightarrow> n_open n' = n_open n \<and> n_closed n' = n_closed n \<and> n_locals_open n' = n_locals_open n \<and>
     length (n_locals n') = length (n_locals n) \<and> length (n_buffers n') = length (n_buffers n)"
  by (auto simp: push_global_def split: if_splits)

lemma push_local_flags:
  "push_local i w n = (r, n') \<Longrightarrow> n_open n' = n_open n \<and> n_closed n' = n_closed n \<and> n_locals_open n' = n_locals_open n \<and>
     length (n_locals n') = length (n_locals n) \<and> length (n_buffers n') = length (n_buffers n)"
  using push_global_flags [of w n r n'] by (auto simp: push_local_def split: if_splits)

section \<open>Draining\<close>

text \<open>A worker that empties a closed pool on its own, with fuel.\<close>

fun drain_from :: "nat \<Rightarrow> nat \<Rightarrow> 'w native \<Rightarrow> 'w list \<times> bool \<times> 'w native" where
  "drain_from 0 i n = ([], False, n)"
| "drain_from (Suc k) i n =
     (case pop_work 0 i n of
        (Work w, n) \<Rightarrow> (let (ws, r) = drain_from k i n in (w # ws, r))
      | (No_work, n) \<Rightarrow> ([], False, n)
      | (Drained, n) \<Rightarrow> ([], True, n))"

definition reachable_work :: "nat \<Rightarrow> 'w native \<Rightarrow> 'w list" where
  "reachable_work i n = n_buffers n ! i @ n_global n @ n_locals n ! i"

lemma pop_work_closed:
  assumes "n_closed n" and "i < length (n_buffers n)" and "length (n_locals n) = length (n_buffers n)"
  shows "case reachable_work i n of
      [] \<Rightarrow> pop_work polls i n = (Drained, n\<lparr>n_buffers := (n_buffers n)[i := []]\<rparr>)
    | w # ws \<Rightarrow> \<exists>n'. pop_work polls i n = (Work w, n') \<and> reachable_work i n' = ws"
proof (cases "n_buffers n ! i")
  case (Cons w b)
  then show ?thesis using assms by (simp add: pop_work_def pop_buffer_def reachable_work_def)
next
  case Nil
  then have e: "pop_buffer i n = None" by (simp add: pop_buffer_def)
  define m where "m = pull_batch polls i n"
  have p: "pop_work polls i n = (case pop_buffer i m of Some (w, n) \<Rightarrow> (Work w, n) | None \<Rightarrow>
      (case pop_local i m of Some (w, n) \<Rightarrow> (Work w, n) | None \<Rightarrow> (if n_closed m \<and> n_global m = [] then Drained else No_work, m)))"
    using assms(2) by (simp only: pop_work_def e option.case Let_def m_def if_True)
  have m: "m = n\<lparr>n_buffers := (n_buffers n)[i := take (min (length (n_global n)) 128) (n_global n)],
      n_global := drop (min (length (n_global n)) 128) (n_global n)\<rparr>"
    using assms(1) by (simp add: m_def pull_batch_def batch_size_def Let_def)
  show ?thesis
  proof (cases "n_global n")
    case g: (Cons w g)
    then have "pop_buffer i m = Some (w, m\<lparr>n_buffers := (n_buffers m)[i := take (min (length g) 127) g]\<rparr>)"
      using assms(2) by (simp add: m pop_buffer_def take_Cons' min_def)
    then show ?thesis using g Nil assms(2)
      by (simp add: p reachable_work_def) (simp add: m drop_Cons' min_def)
  next
    case g: Nil
    then have "pop_buffer i m = None" using assms(2) by (simp add: m pop_buffer_def)
    then show ?thesis using g Nil assms
      by (cases "n_locals n ! i") (simp_all add: p m reachable_work_def pop_local_def)
  qed
qed

section \<open>Runs\<close>

text \<open>Calls of the methods in any order; what was accepted and what was handed out is recorded.\<close>

datatype 'w native_event = Accepted 'w | Popped nat 'w | Silent

inductive native_step :: "'w native \<Rightarrow> 'w native_event \<Rightarrow> 'w native \<Rightarrow> bool" where
  step_global: "push_global w n = (r, n') \<Longrightarrow> native_step n (if r = None then Accepted w else Silent) n'"
| step_local: "push_local i w n = (r, n') \<Longrightarrow> native_step n (if r = None then Accepted w else Silent) n'"
| step_pop: "pop_work polls i n = (r, n') \<Longrightarrow> native_step n (case r of Work w \<Rightarrow> Popped i w | _ \<Rightarrow> Silent) n'"
| step_close_global: "native_step n Silent (close_global n)"
| step_close_locals: "native_step n Silent (close_locals n)"
| step_close_flag: "native_step n Silent (close_flag n)"

inductive native_run :: "'w native \<Rightarrow> 'w native_event list \<Rightarrow> 'w native \<Rightarrow> bool" where
  run_nil: "native_run n [] n"
| run_step: "native_run n es m \<Longrightarrow> native_step m e n' \<Longrightarrow> native_run n (es @ [e]) n'"

fun accepted :: "'w native_event \<Rightarrow> 'w multiset" where
  "accepted (Accepted w) = {#w#}" | "accepted e = {#}"

fun handed_out :: "'w native_event \<Rightarrow> 'w multiset" where
  "handed_out (Popped i w) = {#w#}" | "handed_out e = {#}"

lemma native_step_bag:
  assumes "native_step n e n'"
  shows "native_bag n' + handed_out e = native_bag n + accepted e"
  using assms
proof cases
  case (step_pop polls i r)
  then show ?thesis using pop_work_bag [OF step_pop(2)] by (cases r) auto
qed (use push_global_bag push_local_bag in \<open>fastforce+\<close>)

lemma native_run_bag:
  "native_run n es n' \<Longrightarrow> native_bag n' + \<Sum>\<^sub># (mset (map handed_out es)) = native_bag n + \<Sum>\<^sub># (mset (map accepted es))"
proof (induction rule: native_run.induct)
  case (run_step n es m e n')
  have "native_bag n' + (handed_out e + \<Sum>\<^sub># (mset (map handed_out es))) = (native_bag m + \<Sum>\<^sub># (mset (map handed_out es))) + accepted e"
    using native_step_bag [OF run_step(2)] by (metis add.assoc add.commute)
  also have "\<dots> = native_bag n + \<Sum>\<^sub># (mset (map accepted es)) + accepted e" by (simp only: run_step.IH)
  finally show ?case by (simp add: ac_simps)
qed simp

text \<open>The task \<open>w\<close> can only be in the queue of worker \<open>i\<close>.\<close>

definition only_local :: "nat \<Rightarrow> 'w \<Rightarrow> 'w native \<Rightarrow> bool" where
  "only_local i w n \<longleftrightarrow> w \<notin> set (n_global n) \<and> (\<forall>b \<in> set (n_buffers n). w \<notin> set b) \<and>
     (\<forall>j < length (n_locals n). j \<noteq> i \<longrightarrow> w \<notin> set (n_locals n ! j))"

lemma only_local_update:
  "\<forall>j < length qs. j \<noteq> i \<longrightarrow> w \<notin> set (qs ! j) \<Longrightarrow> (k \<noteq> i \<Longrightarrow> w \<notin> set q) \<Longrightarrow> j < length (qs[k := q]) \<Longrightarrow> j \<noteq> i \<Longrightarrow>
   w \<notin> set (qs[k := q] ! j)"
  by (cases "k = j") auto

lemma only_local_pull: "only_local i w n \<Longrightarrow> only_local i w (pull_batch polls j n)"
  by (auto simp: only_local_def pull_batch_def dest!: set_update_subset_insert [THEN subsetD] dest: in_set_takeD in_set_dropD)

lemma only_local_buffer: "only_local i w n \<Longrightarrow> pop_buffer j n = Some (v, n') \<Longrightarrow> v \<noteq> w \<and> only_local i w n'"
  by (auto simp: only_local_def pop_buffer_def split: if_splits list.splits dest!: set_update_subset_insert [THEN subsetD])
    (metis list.set_intros nth_mem)+

lemma only_local_local:
  assumes "only_local i w n" and "pop_local j n = Some (v, n')"
  shows "(v = w \<longrightarrow> j = i) \<and> only_local i w n'"
proof -
  from assms(2) obtain q where q: "j < length (n_locals n)" "n_locals n ! j = v # q" "n' = n\<lparr>n_locals := (n_locals n)[j := q]\<rparr>"
    by (auto simp: pop_local_def split: if_splits list.splits)
  have a: "\<forall>k < length (n_locals n). k \<noteq> i \<longrightarrow> w \<notin> set (n_locals n ! k)" using assms(1) by (simp add: only_local_def)
  have "j \<noteq> i \<Longrightarrow> w \<notin> set (v # q)" using a q(1,2) by metis
  then show ?thesis using assms(1) q(3) only_local_update [OF a, of j q] by (auto simp: only_local_def)
qed

lemma only_local_pop:
  assumes "only_local i w n" and "pop_work polls j n = (r, n')"
  shows "(r = Work w \<longrightarrow> j = i) \<and> only_local i w n'"
proof (cases "pop_buffer j n")
  case None
  define m where "m = (if j < length (n_buffers n) then pull_batch polls j n else n)"
  have m: "only_local i w m" using only_local_pull [OF assms(1)] assms(1) by (simp add: m_def)
  have p: "pop_work polls j n = (case pop_buffer j m of Some (w, n) \<Rightarrow> (Work w, n) | None \<Rightarrow>
      (case pop_local j m of Some (w, n) \<Rightarrow> (Work w, n) | None \<Rightarrow> (if n_closed m \<and> n_global m = [] then Drained else No_work, m)))"
    by (simp only: pop_work_def None option.case Let_def m_def)
  show ?thesis using assms(2) m only_local_buffer [OF m, of j] only_local_local [OF m, of j]
    unfolding p by (cases "pop_buffer j m"; cases "pop_local j m") (auto split: if_splits)
next
  case (Some q)
  then show ?thesis using assms only_local_buffer by (fastforce simp: pop_work_def split: prod.splits)
qed

lemma only_local_step:
  assumes "only_local i w n" and "native_step n e n'" and "e \<noteq> Accepted w"
  shows "(\<forall>j. e = Popped j w \<longrightarrow> j = i) \<and> only_local i w n'"
  using assms(2)
proof cases
  case (step_global v r)
  then show ?thesis using assms(1,3) by (auto simp: push_global_def only_local_def split: if_splits)
next
  case (step_local k v r)
  have a: "\<forall>k < length (n_locals n). k \<noteq> i \<longrightarrow> w \<notin> set (n_locals n ! k)" using assms(1) by (simp add: only_local_def)
  have "k < length (n_locals n) \<Longrightarrow> v \<noteq> w \<Longrightarrow> k \<noteq> i \<Longrightarrow> w \<notin> set (n_locals n ! k @ [v])" using a by simp
  then show ?thesis using step_local assms(1,3) only_local_update [OF a, of k "n_locals n ! k @ [v]"]
    by (auto simp: push_local_def push_global_def only_local_def split: if_splits)
next
  case (step_pop polls j r)
  then show ?thesis using only_local_pop [OF assms(1) step_pop(2)] by (cases r) auto
qed (use assms(1) in \<open>auto simp: only_local_def close_global_def close_locals_def close_flag_def\<close>)

lemma only_local_run:
  "native_run n es n' \<Longrightarrow> only_local i w n \<Longrightarrow> Accepted w \<notin> set es \<Longrightarrow>
   only_local i w n' \<and> (\<forall>j. Popped j w \<in> set es \<longrightarrow> j = i)"
proof (induction rule: native_run.induct)
  case (run_step n es m e n')
  then have "only_local i w m" "e \<noteq> Accepted w" by auto
  from only_local_step [OF this(1) run_step(2) this(2)] run_step show ?case by auto
qed simp

section \<open>Properties\<close>

text \<open>
  C8: A closed pool is emptied.  A worker that goes on calling \<open>pop_work\<close> after \<open>close\<close> gets its
  buffer, then the global queue, then its own queue, each task once and in order, and then the
  error that ends its dispatcher, after as many calls as there were tasks and one more.
\<close>

theorem native_drains:
  assumes "n_closed n" and "i < length (n_buffers n)" and "length (n_locals n) = length (n_buffers n)"
    and "drain_from (length (reachable_work i n) + 1 + k) i n = (ws, ended, n')"
  shows "ws = n_buffers n ! i @ n_global n @ n_locals n ! i \<and> ended"
proof -
  have "drain_from (Suc (length (reachable_work i n) + k)) i n = (ws, ended, n') \<Longrightarrow> ws = reachable_work i n \<and> ended" if
    "n_closed n" "i < length (n_buffers n)" "length (n_locals n) = length (n_buffers n)" for ws ended n' n
    using that
  proof (induction "reachable_work i n" arbitrary: n ws ended)
    case Nil
    then show ?case using pop_work_closed [of n i 0] by (auto split: list.splits)
  next
    case (Cons w ws')
    from pop_work_closed [OF Cons(4-6), of 0] Cons(2) obtain m where
      m: "pop_work 0 i n = (Work w, m)" "reachable_work i m = ws'" by (auto split: list.splits)
    from pop_work_flags [OF m(1)] Cons(4-6) have
      f: "n_closed m" "i < length (n_buffers m)" "length (n_locals m) = length (n_buffers m)" by simp_all
    obtain vs r where v: "drain_from (Suc (length (reachable_work i m) + k)) i m = (vs, r)" by (metis surj_pair)
    have l: "length (reachable_work i n) + k = Suc (length (reachable_work i m) + k)"
      using Cons(2) m(2) by (metis add_Suc length_Cons)
    have "ws = w # vs \<and> r = (ended, n')" using Cons(3) unfolding l drain_from.simps(2) [of "Suc _"] m(1) by (simp add: v del: drain_from.simps)
    moreover from this v have "vs = reachable_work i m \<and> ended" using Cons(1) [OF m(2) [symmetric] _ f] by simp
    ultimately show ?case using Cons(2) m(2) by simp
  qed
  from this [OF assms(1-3)] assms(4) show ?thesis by (simp add: reachable_work_def)
qed

theorem native_drains_witness:
  "fst (drain_from 4 1 (native_close ((native_new 2)\<lparr>n_global := [5, 6 :: nat], n_locals := [[], [7]]\<rparr>))) = [5, 6, 7]"
proof -
  let ?n = "native_close ((native_new 2)\<lparr>n_global := [5, 6 :: nat], n_locals := [[], [7]]\<rparr>)"
  have h: "n_closed ?n" "1 < length (n_buffers ?n)" "length (n_locals ?n) = length (n_buffers ?n)" "reachable_work 1 ?n = [5, 6, 7]"
    by (simp_all add: native_new_def native_close_def close_flag_def close_locals_def close_global_def reachable_work_def)
  have s: "drain_from (length (reachable_work 1 ?n) + 1 + 0) 1 ?n =
    (fst (drain_from 4 1 ?n), fst (snd (drain_from 4 1 ?n)), snd (snd (drain_from 4 1 ?n)))"
    unfolding h(4) by (simp add: numeral_eq_Suc del: drain_from.simps)
  from native_drains [OF h(1-3) s] h(4) show ?thesis by (simp add: reachable_work_def)
qed

text \<open>
  C7: No task is lost and none runs twice: in any sequence of calls, with the steps of \<open>close\<close>
  anywhere among them, what was handed out to workers and what is still queued is exactly what
  was accepted.
\<close>

theorem native_conserves:
  assumes "native_run (native_new k) es n"
  shows "\<Sum>\<^sub># (mset (map handed_out es)) + native_bag n = \<Sum>\<^sub># (mset (map accepted es))"
proof -
  have "native_bag (native_new k) = {#}" by (simp add: native_bag_def native_new_def)
  with native_run_bag [OF assms] show ?thesis by (simp add: add.commute)
qed

theorem native_conserves_witness:
  "\<exists>n. native_run (native_new 1) [Accepted (3 :: nat), Popped 0 3] n \<and> native_bag n = {#}"
proof -
  let ?n = "(native_new 1)\<lparr>n_global := [3 :: nat]\<rparr>"
  have "push_global 3 (native_new 1) = (None, ?n)" by (simp add: push_global_def native_new_def)
  from step_global [OF this] have 1: "native_run (native_new 1) [Accepted (3 :: nat)] ?n"
    using run_step [OF run_nil, of "native_new 1" "Accepted (3 :: nat)" ?n] by simp
  have "pop_work 0 0 ?n = (Work (3 :: nat), (native_new 1))"
    by (simp add: pop_work_def pop_buffer_def pull_batch_def batch_size_def native_new_def Let_def)
  from step_pop [OF this] have "native_run (native_new 1) [Accepted (3 :: nat), Popped 0 3] (native_new 1)"
    using run_step [OF 1] by simp
  with native_conserves [OF this] show ?thesis by auto
qed

text \<open>
  A pinned task is run by its worker while that worker's queue has room: once \<open>push_local\<close> has
  accepted it there, in any sequence of calls no other worker is handed it.
\<close>

theorem native_affinity:
  assumes "push_local i w n = (None, n1)" and "length (n_locals n ! i) < local_capacity" and "w \<notin># native_bag n"
    and "native_run n1 es n'" and "Accepted w \<notin> set es" and "Popped j w \<in> set es"
  shows "j = i"
proof -
  have "only_local i w n" using assms(3) by (auto simp: only_local_def native_bag_def in_set_conv_nth) (metis nth_mem)+
  then have "only_local i w n1" using assms(1,2)
    by (auto simp: push_local_def only_local_def nth_list_update split: if_splits)
  from only_local_run [OF assms(4) this assms(5)] assms(6) show ?thesis by blast
qed

theorem native_affinity_witness:
  "\<exists>n1 n2. push_local 0 (3 :: nat) (native_new 2) = (None, n1) \<and> native_run n1 [Popped 0 3] n2"
proof -
  let ?n = "(native_new 2)\<lparr>n_locals := [[3 :: nat], []]\<rparr>"
  have p: "push_local 0 3 (native_new 2) = (None, ?n)"
    by (simp add: push_local_def native_new_def local_capacity_def numeral_2_eq_2)
  have "pop_work 0 0 ?n = (Work 3, native_new 2)"
    by (simp add: pop_work_def pop_buffer_def pop_local_def pull_batch_def batch_size_def native_new_def Let_def numeral_2_eq_2)
  from step_pop [OF this] have r: "native_run ?n [Popped 0 3] (native_new 2)" using run_step [OF run_nil, of ?n] by fastforce
  have "(0 :: nat) = 0"
    by (rule native_affinity [OF p _ _ r]) (simp_all add: native_new_def local_capacity_def native_bag_def)
  with p r show ?thesis by blast
qed

text \<open>
  When the queue of the worker is full, a pinned task is accepted all the same, but into the
  global queue: any other worker that looks for work is handed it.
\<close>

theorem native_pin_lost:
  assumes "\<not> n_closed n" and "n_open n" and "n_locals_open n" and "i < length (n_locals n)" and "n_global n = []"
    and "length (n_locals n ! i) \<ge> local_capacity"
    and "j < length (n_buffers n)" and "n_buffers n ! j = []"
  shows "\<exists>n1 n2. push_local i w n = (None, n1) \<and> pop_work 0 j n1 = (Work w, n2)"
proof -
  have "push_local i w n = (None, n\<lparr>n_global := [w]\<rparr>)" using assms by (auto simp: push_local_def push_global_def)
  moreover have "pop_work 0 j (n\<lparr>n_global := [w]\<rparr>) = (Work w, n)"
  proof -
    have k: "min (Suc 0 div length (n_locals n) + 1) 128 = Suc (min (Suc 0 div length (n_locals n)) 127)"
      by (simp add: min_def)
    have b: "(n_buffers n)[j := []] = n_buffers n" "n\<lparr>n_global := []\<rparr> = n" using assms(5,8)
      by (metis list_update_id) (cases n, use assms(5) in simp)
    show ?thesis using assms(1,4,7,8) b
      by (auto simp: pop_work_def pop_buffer_def pull_batch_def batch_size_def Let_def k)
  qed
  ultimately show ?thesis by blast
qed

theorem native_pin_lost_witness:
  "\<exists>n1 n2. push_local 0 (9 :: nat) ((native_new 2)\<lparr>n_locals := [replicate 256 1, []]\<rparr>) = (None, n1) \<and> pop_work 0 1 n1 = (Work 9, n2)"
  by (rule native_pin_lost) (simp_all add: native_new_def local_capacity_def)

end
