(* ===== verification/Pool.thy ===== *)
theory Pool
  imports NativePool
begin

text \<open>
  \<open>EventLoopThreadPool\<close> of \<open>pool.py\<close> over the queues of \<^theory_text>\<open>NativePool\<close>: construction, \<open>start\<close>,
  \<open>submit\<close>, the dispatcher of a worker, the execution of a task, \<open>close\<close>, \<open>abort\<close>; each
  critical section and each call into the queues is one step.  Proved: a task runs at most once,
  a dispatcher does not leave while the pool runs, a completed \<open>close\<close> answers every future; and
  where \<open>abort\<close> and \<open>wait_closed\<close> do not.
\<close>

section \<open>State\<close>

type_synonym job = nat

text \<open>A task is identified with its future.  \<open>p_loops\<close>: the loops of the workers, by index.\<close>

record pool =
  p_threads :: nat
  p_native :: "job native"
  p_running :: bool
  p_started :: bool
  p_loops :: "loop list"
  p_index :: nat
  p_idle :: "nat set"
  p_outstanding :: "job set"
  p_closed_event :: bool

text \<open>\<open>cpus\<close> is \<open>os.cpu_count()\<close>, \<open>options\<close> the \<open>num_threads\<close> of the options if there are any.\<close>

definition pool_threads :: "nat option \<Rightarrow> int option \<Rightarrow> int option \<Rightarrow> error + nat" where
  "pool_threads cpus options num_threads =
     (let auto = (case cpus of None \<Rightarrow> 4 | Some 0 \<Rightarrow> 4 | Some k \<Rightarrow> k);
          num = (case num_threads of None \<Rightarrow> options | Some k \<Rightarrow> Some k)
      in case num of
           None \<Rightarrow> Inr auto
         | Some k \<Rightarrow> if k < 0 then Inl (ValueError ''num_threads must not be negative'')
                     else if k = 0 then Inr auto else Inr (nat k))"

definition pool_new :: "nat \<Rightarrow> pool" where
  "pool_new k = \<lparr>p_threads = k, p_native = native_new k, p_running = False, p_started = False, p_loops = [],
     p_index = 0, p_idle = {}, p_outstanding = {}, p_closed_event = False\<rparr>"

text \<open>\<open>start\<close> with the loops the factory makes.\<close>

definition pool_start :: "loop list \<Rightarrow> pool \<Rightarrow> error option \<times> pool" where
  "pool_start ls p =
     (if p_running p then (None, p)
      else if native_is_closed (p_native p) then (Some (RuntimeError ''pool cannot be restarted after close()''), p)
      else (None, p\<lparr>p_running := True, p_started := True, p_loops := p_loops p @ ls\<rparr>))"

definition get_loop :: "nat \<Rightarrow> pool \<Rightarrow> error + loop" where
  "get_loop i p = (if \<not> p_running p \<or> i \<ge> length (p_loops p) then Inl (RuntimeError ''pool is not running'') else Inr (p_loops p ! i))"

text \<open>\<open>wait_closed\<close> returns.\<close>

definition waited_closed :: "pool \<Rightarrow> bool" where
  "waited_closed p \<longleftrightarrow> \<not> p_started p \<or> p_closed_event p"

section \<open>Submitting\<close>

datatype pin = No_pin | Pin_index int | Pin_loop loop | Pin_other

fun index_of :: "loop \<Rightarrow> loop list \<Rightarrow> nat option" where
  "index_of l [] = None"
| "index_of l (x # xs) = (if x = l then Some 0 else map_option Suc (index_of l xs))"

definition resolve_target :: "pin \<Rightarrow> pool \<Rightarrow> error + nat option" where
  "resolve_target pin p =
     (if \<not> p_running p \<or> p_loops p = [] then Inl (ThreadPoolClosedError ''ThreadPool is not running'')
      else
        (case pin of
           No_pin \<Rightarrow> Inr None
         | Pin_index i \<Rightarrow>
             if 0 \<le> i \<and> i < int (length (p_loops p)) then Inr (Some (nat i)) else Inl (ValueError ''Worker index out of range'')
         | Pin_loop l \<Rightarrow>
             (case index_of l (p_loops p) of
                Some i \<Rightarrow> Inr (Some i)
              | None \<Rightarrow> Inl (ValueError ''Target AbstractEventLoop is not managed by this thread pool''))
         | Pin_other \<Rightarrow> Inl (TypeError ''pin_to argument must be an AbstractEventLoop, int index, or None'')))"

datatype target = Target_future | Target_coroutine | Target_other

text \<open>\<open>submit\<close> up to the creation of the future; \<open>caller\<close>: the caller has a running loop.\<close>

definition submit_enter :: "target \<Rightarrow> bool \<Rightarrow> pin \<Rightarrow> bool \<Rightarrow> pool \<Rightarrow> error + nat option" where
  "submit_enter target args pin caller p =
     (if target = Target_future then Inl (TypeError ''submit() target cannot be an asyncio.Future'')
      else if target = Target_coroutine \<and> args then Inl (TypeError ''Cannot pass arguments when target is a coroutine object'')
      else
        (case resolve_target pin p of
           Inl e \<Rightarrow> Inl e
         | Inr i \<Rightarrow> if caller then Inr i else Inl (RuntimeError ''submit() must be called from a thread with a running asyncio event loop'')))"

definition submit_register :: "job \<Rightarrow> pool \<Rightarrow> pool" where
  "submit_register j p = p\<lparr>p_outstanding := insert j (p_outstanding p)\<rparr>"

definition submit_push :: "job \<Rightarrow> nat option \<Rightarrow> pool \<Rightarrow> error option \<times> pool" where
  "submit_push j i p =
     (case (case i of Some i \<Rightarrow> push_local i j (p_native p) | None \<Rightarrow> push_global j (p_native p)) of
        (None, n) \<Rightarrow> (None, p\<lparr>p_native := n\<rparr>)
      | (Some e, n) \<Rightarrow>
          (Some (case e of ThreadPoolClosedError m \<Rightarrow> ThreadPoolClosedError ''ThreadPool is closed'' | _ \<Rightarrow> e),
           p\<lparr>p_native := n, p_outstanding := p_outstanding p - {j}\<rparr>))"

text \<open>The worker that is woken; \<open>pick\<close> is the first of the set of idle workers.\<close>

definition submit_wake :: "nat option \<Rightarrow> nat \<Rightarrow> pool \<Rightarrow> nat option \<times> pool" where
  "submit_wake i pick p =
     (case i of
        Some i \<Rightarrow> (if \<not> p_running p \<or> i \<ge> length (p_loops p) then None else Some i, p)
      | None \<Rightarrow>
          (if p_loops p \<noteq> [] \<and> p_running p then
             (if p_idle p \<noteq> {} then (Some pick, p)
              else (Some (p_index p), p\<lparr>p_index := (p_index p + 1) mod length (p_loops p)\<rparr>))
           else (None, p)))"

text \<open>A whole \<open>submit\<close> without interference.\<close>

definition pool_submit :: "target \<Rightarrow> bool \<Rightarrow> pin \<Rightarrow> bool \<Rightarrow> nat \<Rightarrow> job \<Rightarrow> pool \<Rightarrow> (error + job) \<times> pool" where
  "pool_submit target args pin caller pick j p =
     (case submit_enter target args pin caller p of
        Inl e \<Rightarrow> (Inl e, p)
      | Inr i \<Rightarrow>
          (case submit_push j i (submit_register j p) of
             (Some e, p) \<Rightarrow> (Inl e, p)
           | (None, p) \<Rightarrow> (Inr j, snd (submit_wake i pick p))))"

section \<open>Executing\<close>

text \<open>
  \<open>_execute_task\<close>: what the target did, and what the future is completed with; \<open>scope\<close>:
  \<open>cancel_scope.cancel_called\<close> afterwards, \<open>None\<close> without a scope.
\<close>

datatype ran = Returned | Raised error

datatype answer = Result | Failure error

definition execute_answer :: "bool option \<Rightarrow> ran \<Rightarrow> answer" where
  "execute_answer scope r =
     (if scope = Some True then Failure CancelledError
      else (case r of Returned \<Rightarrow> Result | Raised e \<Rightarrow> Failure e))"

text \<open>\<open>_safe_complete\<close> on a future that is not done: the first completion counts.\<close>

definition safe_complete :: "job \<Rightarrow> answer \<Rightarrow> (job \<Rightarrow> answer option) \<Rightarrow> job \<Rightarrow> answer option" where
  "safe_complete j a ans = (if ans j = None then ans(j := Some a) else ans)"

definition execute_finally :: "job \<Rightarrow> pool \<Rightarrow> pool" where
  "execute_finally j p = p\<lparr>p_outstanding := p_outstanding p - {j}\<rparr>"

section \<open>The dispatcher of a worker\<close>

text \<open>
  The places in \<open>_worker_dispatcher\<close>, with \<open>processed_any\<close>: before a \<open>pop_work\<close> of phase 1, before
  the shutdown check, before the second check of phase 3, in the wait, over.
\<close>

datatype dstage = D_drain bool | D_check bool | D_recheck | D_wait | D_gone

fun dispatcher_turn :: "nat \<Rightarrow> nat \<Rightarrow> dstage \<Rightarrow> pool \<Rightarrow> job option \<times> dstage \<times> pool" where
  "dispatcher_turn polls i (D_drain some) p =
     (case pop_work polls i (p_native p) of
        (Work j, n) \<Rightarrow> (Some j, D_drain True, p\<lparr>p_native := n\<rparr>)
      | (No_work, n) \<Rightarrow> (None, D_check some, p\<lparr>p_native := n\<rparr>)
      | (Drained, n) \<Rightarrow> (None, D_gone, p\<lparr>p_native := n\<rparr>))"
| "dispatcher_turn polls i (D_check some) p =
     (None, if \<not> p_running p \<or> native_is_closed (p_native p) then D_drain False
            else if some then D_drain False else D_recheck, p)"
| "dispatcher_turn polls i D_recheck p =
     (case pop_work polls i (p_native p) of
        (Work j, n) \<Rightarrow> (Some j, D_drain False, p\<lparr>p_native := n\<rparr>)
      | (_, n) \<Rightarrow> (None, D_wait, p\<lparr>p_native := n, p_idle := insert i (p_idle p)\<rparr>))"
| "dispatcher_turn polls i D_wait p = (None, D_drain False, p\<lparr>p_idle := p_idle p - {i}\<rparr>)"
| "dispatcher_turn polls i D_gone p = (None, D_gone, p)"

section \<open>Closing\<close>

definition close_begin :: "pool \<Rightarrow> loop list option \<times> pool" where
  "close_begin p =
     (if \<not> p_running p then (None, p\<lparr>p_closed_event := True\<rparr>)
      else (Some (p_loops p), p\<lparr>p_running := False, p_loops := []\<rparr>))"

definition abort_begin :: "pool \<Rightarrow> (loop list \<times> job set) option \<times> pool" where
  "abort_begin p =
     (case close_begin p of
        (None, p) \<Rightarrow> (None, p)
      | (Some ls, p) \<Rightarrow> (Some (ls, p_outstanding p), p\<lparr>p_outstanding := {}\<rparr>))"

definition drain_over :: "nat \<Rightarrow> pool \<Rightarrow> bool" where
  "drain_over active p \<longleftrightarrow> active = 0 \<and> is_drained (p_native p) \<and> p_outstanding p = {}"

definition close_leftover :: "pool \<Rightarrow> job set \<times> pool" where
  "close_leftover p = (p_outstanding p, p\<lparr>p_outstanding := {}\<rparr>)"

definition pool_closed_error :: "bool \<Rightarrow> error" where
  "pool_closed_error graceful = ThreadPoolClosedError (if graceful then ''Pool closed before task ran'' else ''Pool aborted'')"

definition close_end :: "pool \<Rightarrow> pool" where
  "close_end p = p\<lparr>p_closed_event := True\<rparr>"

section \<open>The pool among its callers and workers\<close>

text \<open>
  Where a task is: not submitted, past the checks of \<open>submit\<close>, its future registered, refused, in
  a queue, spawned on a loop, running there, its future completed, over; or dropped, its asyncio
  task cancelled before its first step when the loop stopped.
\<close>

datatype place =
    New | Entered "nat option" | Registered "nat option" | Refused | Queued | Spawned loop | Running loop
  | Answered loop | Over | Dropped

text \<open>
  The stages of a \<open>close\<close>, or of an \<open>abort\<close> with the futures it took at its beginning: it returned
  at once; it holds the loops it took; the three stores of the native \<open>close\<close> are done one by one;
  the loops are told to stop; the leftover futures are completed; over.  The flag says \<open>close\<close>.
\<close>

datatype closing =
    Not_closing | Returned_early | Begun "loop list" "job set option" | Global_closed "loop list" "job set option"
  | Locals_closed "loop list" "job set option" | Native_closed "loop list" "job set option"
  | Joining "job set option" | Completing bool "job set" | Close_over bool

record psys =
  s_pool :: pool
  s_place :: "job \<Rightarrow> place"
  s_answer :: "job \<Rightarrow> answer option"
  s_workers :: "loop \<Rightarrow> (nat \<times> dstage) option"
  s_stopping :: "loop set"
  s_closer :: "nat \<Rightarrow> closing"

definition psys_new :: "nat \<Rightarrow> psys" where
  "psys_new k = \<lparr>s_pool = pool_new k, s_place = (\<lambda>j. New), s_answer = (\<lambda>j. None), s_workers = (\<lambda>l. None),
     s_stopping = {}, s_closer = (\<lambda>c. Not_closing)\<rparr>"

definition put_place :: "job \<Rightarrow> place \<Rightarrow> psys \<Rightarrow> psys" where
  "put_place j x s = s\<lparr>s_place := (s_place s)(j := x)\<rparr>"

definition put_closer :: "nat \<Rightarrow> closing \<Rightarrow> psys \<Rightarrow> psys" where
  "put_closer c x s = s\<lparr>s_closer := (s_closer s)(c := x)\<rparr>"

definition put_native :: "(job native \<Rightarrow> job native) \<Rightarrow> psys \<Rightarrow> psys" where
  "put_native f s = s\<lparr>s_pool := (s_pool s)\<lparr>p_native := f (p_native (s_pool s))\<rparr>\<rparr>"

definition spawn_on :: "loop \<Rightarrow> job option \<Rightarrow> psys \<Rightarrow> psys" where
  "spawn_on l r s = (case r of None \<Rightarrow> s | Some j \<Rightarrow> put_place j (Spawned l) s)"

inductive pool_step :: "psys \<Rightarrow> psys \<Rightarrow> bool" where
  ps_start: "\<not> p_running (s_pool s) \<Longrightarrow> pool_start ls (s_pool s) = (None, p) \<Longrightarrow> (\<And>l. l \<in> set ls \<Longrightarrow> s_workers s l = None) \<Longrightarrow>
     distinct ls \<Longrightarrow> length ls = p_threads (s_pool s) \<Longrightarrow>
     pool_step s (s\<lparr>s_pool := p, s_workers := (\<lambda>l. case index_of l ls of Some i \<Rightarrow> Some (i, D_drain False) | None \<Rightarrow> s_workers s l)\<rparr>)"
| ps_enter: "s_place s j = New \<Longrightarrow> submit_enter target args pin caller (s_pool s) = Inr i \<Longrightarrow>
     pool_step s (put_place j (Entered i) s)"
| ps_register: "s_place s j = Entered i \<Longrightarrow> pool_step s (put_place j (Registered i) (s\<lparr>s_pool := submit_register j (s_pool s)\<rparr>))"
| ps_push: "s_place s j = Registered i \<Longrightarrow> submit_push j i (s_pool s) = (r, p) \<Longrightarrow>
     pool_step s (put_place j (if r = None then Queued else Refused) (s\<lparr>s_pool := p\<rparr>))"
| ps_wake: "submit_wake i pick (s_pool s) = (w, p) \<Longrightarrow> pool_step s (s\<lparr>s_pool := p\<rparr>)"
| ps_dispatch: "s_workers s l = Some (i, d) \<Longrightarrow> dispatcher_turn polls i d (s_pool s) = (r, d', p) \<Longrightarrow>
     pool_step s (spawn_on l r (s\<lparr>s_pool := p, s_workers := (s_workers s)(l := Some (i, d'))\<rparr>))"
| ps_begin: "s_place s j = Spawned l \<Longrightarrow> pool_step s (put_place j (Running l) s)"
| ps_answer: "s_place s j = Running l \<Longrightarrow>
     pool_step s (put_place j (Answered l) (s\<lparr>s_answer := safe_complete j (execute_answer scope r) (s_answer s)\<rparr>))"
| ps_finally: "s_place s j = Answered l \<Longrightarrow> pool_step s (put_place j Over (s\<lparr>s_pool := execute_finally j (s_pool s)\<rparr>))"
| ps_close: "s_closer s c = Not_closing \<Longrightarrow> close_begin (s_pool s) = (r, p) \<Longrightarrow>
     pool_step s (put_closer c (case r of None \<Rightarrow> Returned_early | Some ls \<Rightarrow> Begun ls None) (s\<lparr>s_pool := p\<rparr>))"
| ps_abort: "s_closer s c = Not_closing \<Longrightarrow> abort_begin (s_pool s) = (r, p) \<Longrightarrow>
     pool_step s (put_closer c (case r of None \<Rightarrow> Returned_early | Some (ls, js) \<Rightarrow> Begun ls (Some js)) (s\<lparr>s_pool := p\<rparr>))"
| ps_close_global: "s_closer s c = Begun ls js \<Longrightarrow> pool_step s (put_closer c (Global_closed ls js) (put_native close_global s))"
| ps_close_locals: "s_closer s c = Global_closed ls js \<Longrightarrow> pool_step s (put_closer c (Locals_closed ls js) (put_native close_locals s))"
| ps_close_flag: "s_closer s c = Locals_closed ls js \<Longrightarrow> pool_step s (put_closer c (Native_closed ls js) (put_native close_flag s))"
| ps_stop: "s_closer s c = Native_closed ls js \<Longrightarrow>
     pool_step s (put_closer c (Joining js) (s\<lparr>s_stopping := s_stopping s \<union> set ls\<rparr>))"
| ps_stopped: "l \<in> s_stopping s \<Longrightarrow> pool_step s (s\<lparr>s_workers := (s_workers s)(l := None)\<rparr>)"
| ps_drop: "s_place s j = Spawned l \<Longrightarrow> s_workers s l = None \<Longrightarrow> pool_step s (put_place j Dropped s)"
| ps_leftover: "s_closer s c = Joining None \<Longrightarrow> close_leftover (s_pool s) = (js, p) \<Longrightarrow>
     pool_step s (put_closer c (Completing True js) (s\<lparr>s_pool := p\<rparr>))"
| ps_aborted: "s_closer s c = Joining (Some js) \<Longrightarrow> pool_step s (put_closer c (Completing False js) s)"
| ps_complete: "s_closer s c = Completing b js \<Longrightarrow> j \<in> js \<Longrightarrow>
     pool_step s (put_closer c (Completing b (js - {j}))
       (s\<lparr>s_answer := safe_complete j (Failure (pool_closed_error b)) (s_answer s)\<rparr>))"
| ps_end: "s_closer s c = Completing b {} \<Longrightarrow> pool_step s (put_closer c (Close_over b) (s\<lparr>s_pool := close_end (s_pool s)\<rparr>))"

section \<open>Invariants\<close>

fun held_by :: "closing \<Rightarrow> job set" where
  "held_by (Begun ls js) = (case js of None \<Rightarrow> {} | Some js \<Rightarrow> js)"
| "held_by (Global_closed ls js) = (case js of None \<Rightarrow> {} | Some js \<Rightarrow> js)"
| "held_by (Locals_closed ls js) = (case js of None \<Rightarrow> {} | Some js \<Rightarrow> js)"
| "held_by (Native_closed ls js) = (case js of None \<Rightarrow> {} | Some js \<Rightarrow> js)"
| "held_by (Joining js) = (case js of None \<Rightarrow> {} | Some js \<Rightarrow> js)"
| "held_by (Completing b js) = js"
| "held_by x = {}"

fun global_shut :: "closing \<Rightarrow> bool" where
  "global_shut (Begun ls js) = False" | "global_shut Not_closing = False" | "global_shut Returned_early = False"
| "global_shut x = True"

fun locals_shut :: "closing \<Rightarrow> bool" where
  "locals_shut (Global_closed ls js) = False" | "locals_shut x = global_shut x"

fun swept :: "closing \<Rightarrow> bool" where
  "swept (Completing b js) = b" | "swept (Close_over b) = b" | "swept x = False"

fun accepted_at :: "place \<Rightarrow> bool" where
  "accepted_at Queued = True" | "accepted_at (Spawned l) = True" | "accepted_at (Running l) = True" | "accepted_at (Answered l) = True"
| "accepted_at Over = True" | "accepted_at Dropped = True" | "accepted_at x = False"

fun answered_at :: "place \<Rightarrow> bool" where
  "answered_at (Answered l) = True" | "answered_at Over = True" | "answered_at x = False"

text \<open>Every accepted future is tracked, or taken by a call that will complete it, or completed.\<close>

definition tracked_job :: "psys \<Rightarrow> job \<Rightarrow> bool" where
  "tracked_job s j \<longleftrightarrow> j \<in> p_outstanding (s_pool s) \<or> s_answer s j \<noteq> None \<or> (\<exists>c. j \<in> held_by (s_closer s c))"

definition pool_inv :: "psys \<Rightarrow> bool" where
  "pool_inv s \<longleftrightarrow>
     (\<forall>j. count (native_bag (p_native (s_pool s))) j = (if s_place s j = Queued then 1 else 0)) \<and>
     (\<forall>j. accepted_at (s_place s j) \<or> (\<exists>i. s_place s j = Registered i) \<longrightarrow> tracked_job s j) \<and>
     (\<forall>j. answered_at (s_place s j) \<longrightarrow> s_answer s j \<noteq> None) \<and>
     (\<forall>c. global_shut (s_closer s c) \<longrightarrow> \<not> n_open (p_native (s_pool s))) \<and>
     (\<forall>c. locals_shut (s_closer s c) \<longrightarrow> \<not> n_locals_open (p_native (s_pool s))) \<and>
     (\<forall>c j. swept (s_closer s c) \<longrightarrow> j \<in> p_outstanding (s_pool s) \<longrightarrow> (\<exists>i. s_place s j = Registered i)) \<and>
     (\<forall>l i. s_workers s l = Some (i, D_gone) \<longrightarrow> n_closed (p_native (s_pool s)))"

lemma pool_invI:
  assumes "\<And>j. count (native_bag (p_native (s_pool s))) j = (if s_place s j = Queued then 1 else 0)"
    and "\<And>j. accepted_at (s_place s j) \<Longrightarrow> tracked_job s j"
    and "\<And>j i. s_place s j = Registered i \<Longrightarrow> tracked_job s j"
    and "\<And>j. answered_at (s_place s j) \<Longrightarrow> s_answer s j \<noteq> None"
    and "\<And>c. global_shut (s_closer s c) \<Longrightarrow> \<not> n_open (p_native (s_pool s))"
    and "\<And>c. locals_shut (s_closer s c) \<Longrightarrow> \<not> n_locals_open (p_native (s_pool s))"
    and "\<And>c j. swept (s_closer s c) \<Longrightarrow> j \<in> p_outstanding (s_pool s) \<Longrightarrow> \<exists>i. s_place s j = Registered i"
    and "\<And>l i. s_workers s l = Some (i, D_gone) \<Longrightarrow> n_closed (p_native (s_pool s))"
  shows "pool_inv s"
  unfolding pool_inv_def using assms by - (intro conjI allI impI; (elim disjE exE)?; blast)

lemma pool_invD:
  assumes "pool_inv s"
  shows "count (native_bag (p_native (s_pool s))) j = (if s_place s j = Queued then 1 else 0)"
    and "accepted_at (s_place s j) \<Longrightarrow> tracked_job s j"
    and "s_place s j = Registered i \<Longrightarrow> tracked_job s j"
    and "answered_at (s_place s j) \<Longrightarrow> s_answer s j \<noteq> None"
    and "global_shut (s_closer s c) \<Longrightarrow> \<not> n_open (p_native (s_pool s))"
    and "locals_shut (s_closer s c) \<Longrightarrow> \<not> n_locals_open (p_native (s_pool s))"
    and "swept (s_closer s c) \<Longrightarrow> j \<in> p_outstanding (s_pool s) \<Longrightarrow> \<exists>i. s_place s j = Registered i"
    and "s_workers s l = Some (k, D_gone) \<Longrightarrow> n_closed (p_native (s_pool s))"
  using assms unfolding pool_inv_def by blast+

lemma psys_new_inv: "pool_inv (psys_new k)"
  by (intro pool_invI) (simp_all add: psys_new_def pool_new_def native_new_def native_bag_def)

text \<open>What a change of one place needs.\<close>

lemma place_inv:
  assumes "pool_inv s"
    and "x = Queued \<longleftrightarrow> s_place s j = Queued"
    and "accepted_at x \<or> (\<exists>i. x = Registered i) \<Longrightarrow> tracked_job s j"
    and "answered_at x \<Longrightarrow> s_answer s j \<noteq> None"
    and "(\<exists>i. s_place s j = Registered i) \<Longrightarrow> \<exists>i. x = Registered i"
  shows "pool_inv (put_place j x s)"
proof -
  note D = pool_invD [OF assms(1)]
  have t: "tracked_job (put_place j x s) k = tracked_job s k" for k by (simp add: tracked_job_def put_place_def)
  show ?thesis
  proof (rule pool_invI)
    fix k
    show "count (native_bag (p_native (s_pool (put_place j x s)))) k = (if s_place (put_place j x s) k = Queued then 1 else 0)"
      using D(1) [of k] assms(2) by (auto simp: put_place_def)
    show "accepted_at (s_place (put_place j x s) k) \<Longrightarrow> tracked_job (put_place j x s) k"
      using D(2) [of k] assms(3) by (auto simp: t) (auto simp: put_place_def split: if_splits)
    show "s_place (put_place j x s) k = Registered i \<Longrightarrow> tracked_job (put_place j x s) k" for i
      using D(3) [of k] assms(3) by (auto simp: t) (auto simp: put_place_def split: if_splits)
    show "answered_at (s_place (put_place j x s) k) \<Longrightarrow> s_answer (put_place j x s) k \<noteq> None"
      using D(4) [of k] assms(4) by (auto simp: put_place_def split: if_splits)
    show "swept (s_closer (put_place j x s) c) \<Longrightarrow> k \<in> p_outstanding (s_pool (put_place j x s)) \<Longrightarrow>
        \<exists>i. s_place (put_place j x s) k = Registered i" for c
      using D(7) [of c k] assms(5) by (auto simp: put_place_def)
  qed (use D(5,6,8) in \<open>auto simp: put_place_def\<close>)
qed

text \<open>What a change of the stage of one closer needs.\<close>

lemma closer_inv:
  assumes "pool_inv s" and "held_by (s_closer s c) \<subseteq> held_by x"
    and "global_shut x \<Longrightarrow> \<not> n_open (p_native (s_pool s))" and "locals_shut x \<Longrightarrow> \<not> n_locals_open (p_native (s_pool s))"
    and "swept x \<Longrightarrow> swept (s_closer s c) \<or> p_outstanding (s_pool s) = {}"
  shows "pool_inv (put_closer c x s)"
proof -
  note D = pool_invD [OF assms(1)]
  have t: "tracked_job s k \<Longrightarrow> tracked_job (put_closer c x s) k" for k
    using assms(2) by (auto simp: tracked_job_def put_closer_def)
  show ?thesis
    by (rule pool_invI) (use D t assms(3-5) in \<open>auto simp: put_closer_def split: if_splits\<close>)
qed

lemma native_inv:
  assumes "pool_inv s" and "native_bag (f n) = native_bag n" and "n = p_native (s_pool s)"
    and "\<not> n_open n \<Longrightarrow> \<not> n_open (f n)" and "\<not> n_locals_open n \<Longrightarrow> \<not> n_locals_open (f n)" and "n_closed n \<Longrightarrow> n_closed (f n)"
  shows "pool_inv (put_native f s)"
proof -
  note D = pool_invD [OF assms(1)]
  have t: "tracked_job (put_native f s) k = tracked_job s k" for k by (simp add: tracked_job_def put_native_def)
  have p: "s_place (put_native f s) = s_place s" "s_answer (put_native f s) = s_answer s" "s_closer (put_native f s) = s_closer s"
    "s_workers (put_native f s) = s_workers s" "p_native (s_pool (put_native f s)) = f n"
    "p_outstanding (s_pool (put_native f s)) = p_outstanding (s_pool s)"
    using assms(3) by (simp_all add: put_native_def)
  show ?thesis
    by (rule pool_invI) (use D assms(2,4-6) in \<open>auto simp: t p simp flip: assms(3)\<close>)
qed

text \<open>The rest of the pool does not matter.\<close>

lemma pool_inv_cong:
  assumes "pool_inv s" and "p_native p = p_native (s_pool s)" and "p_outstanding p = p_outstanding (s_pool s)"
  shows "pool_inv (s\<lparr>s_pool := p\<rparr>)"
proof -
  note D = pool_invD [OF assms(1)]
  have t: "tracked_job (s\<lparr>s_pool := p\<rparr>) k = tracked_job s k" for k using assms(3) by (simp add: tracked_job_def)
  show ?thesis by (rule pool_invI) (use D assms(2,3) in \<open>auto simp: t\<close>)
qed

lemma answer_inv:
  assumes "pool_inv s" and "\<And>k. s_answer s k \<noteq> None \<Longrightarrow> ans k \<noteq> None"
  shows "pool_inv (s\<lparr>s_answer := ans\<rparr>)"
proof -
  note D = pool_invD [OF assms(1)]
  have t: "tracked_job s k \<Longrightarrow> tracked_job (s\<lparr>s_answer := ans\<rparr>) k" for k using assms(2) by (auto simp: tracked_job_def)
  show ?thesis by (rule pool_invI) (use D assms(2) t in auto)
qed

lemma workers_inv:
  assumes "pool_inv s" and "\<And>l i. ws l = Some (i, D_gone) \<Longrightarrow> s_workers s l = Some (i, D_gone) \<or> n_closed (p_native (s_pool s))"
  shows "pool_inv (s\<lparr>s_workers := ws\<rparr>)"
proof -
  note D = pool_invD [OF assms(1)]
  have t: "tracked_job (s\<lparr>s_workers := ws\<rparr>) k = tracked_job s k" for k by (simp add: tracked_job_def)
  have "ws l = Some (i, D_gone) \<Longrightarrow> n_closed (p_native (s_pool s))" for l i using assms(2) D(8) by blast
  then show ?thesis by (intro pool_invI) (use D in \<open>auto simp: t\<close>)
qed

lemma push_open:
  assumes "submit_push j i p = (None, p')"
  shows "n_open (p_native p) \<or> n_locals_open (p_native p)"
  using assms by (auto simp: submit_push_def push_local_def push_global_def split: option.splits prod.splits if_splits)

lemma submit_push_native:
  assumes "submit_push j i p = (r, p')"
  shows "native_bag (p_native p') = (if r = None then add_mset j (native_bag (p_native p)) else native_bag (p_native p)) \<and>
    p_outstanding p' = (if r = None then p_outstanding p else p_outstanding p - {j}) \<and>
    n_open (p_native p') = n_open (p_native p) \<and> n_closed (p_native p') = n_closed (p_native p) \<and>
    n_locals_open (p_native p') = n_locals_open (p_native p)"
proof -
  obtain e n where e: "(case i of Some i \<Rightarrow> push_local i j (p_native p) | None \<Rightarrow> push_global j (p_native p)) = (e, n)" by (metis surj_pair)
  have "native_bag n = (if e = None then add_mset j (native_bag (p_native p)) else native_bag (p_native p)) \<and>
    n_open n = n_open (p_native p) \<and> n_closed n = n_closed (p_native p) \<and> n_locals_open n = n_locals_open (p_native p)"
    using e push_global_bag [of j "p_native p" e n] push_global_flags [of j "p_native p" e n]
      push_local_bag [of "the i" j "p_native p" e n] push_local_flags [of "the i" j "p_native p" e n]
    by (cases i) simp_all
  then show ?thesis using assms by (auto simp: submit_push_def e split: option.splits)
qed

lemma push_step_inv:
  assumes "pool_inv s" and "s_place s j = Registered i" and "submit_push j i (s_pool s) = (r, p)"
  shows "pool_inv (put_place j (if r = None then Queued else Refused) (s\<lparr>s_pool := p\<rparr>))"
proof -
  note D = pool_invD [OF assms(1)] and n = submit_push_native [OF assms(3)]
  let ?s = "put_place j (if r = None then Queued else Refused) (s\<lparr>s_pool := p\<rparr>)"
  have t: "tracked_job s k \<Longrightarrow> k \<noteq> j \<or> r = None \<Longrightarrow> tracked_job ?s k" for k
    using n by (auto simp: tracked_job_def put_place_def)
  have sw: "swept (s_closer s c) \<Longrightarrow> r \<noteq> None" for c
  proof
    assume c: "swept (s_closer s c)" and "r = None"
    then have "n_open (p_native (s_pool s)) \<or> n_locals_open (p_native (s_pool s))" using push_open assms(3) by blast
    moreover have "global_shut (s_closer s c)" "locals_shut (s_closer s c)" using c by (cases "s_closer s c"; simp)+
    ultimately show False using D(5,6) by blast
  qed
  show ?thesis
  proof (rule pool_invI)
    fix k
    show "count (native_bag (p_native (s_pool ?s))) k = (if s_place ?s k = Queued then 1 else 0)"
      using D(1) [of k] n assms(2) by (auto simp: put_place_def)
    show "accepted_at (s_place ?s k) \<Longrightarrow> tracked_job ?s k"
      using D(2,3) [of k] assms(2) t by (cases "k = j") (auto simp: put_place_def split: if_splits)
    show "s_place ?s k = Registered m \<Longrightarrow> tracked_job ?s k" for m
      using D(3) [of k m] t by (cases "k = j") (auto simp: put_place_def split: if_splits)
    show "answered_at (s_place ?s k) \<Longrightarrow> s_answer ?s k \<noteq> None"
      using D(4) [of k] by (cases "k = j") (auto simp: put_place_def split: if_splits)
    show "swept (s_closer ?s c) \<Longrightarrow> k \<in> p_outstanding (s_pool ?s) \<Longrightarrow> \<exists>m. s_place ?s k = Registered m" for c
      using D(7) [of c k] sw [of c] n by (auto simp: put_place_def)
  qed (use D(5,6,8) n in \<open>auto simp: put_place_def\<close>)
qed

lemma register_step_inv:
  assumes "pool_inv s" and "s_place s j = Entered i"
  shows "pool_inv (put_place j (Registered i) (s\<lparr>s_pool := submit_register j (s_pool s)\<rparr>))"
proof -
  note D = pool_invD [OF assms(1)]
  let ?s = "put_place j (Registered i) (s\<lparr>s_pool := submit_register j (s_pool s)\<rparr>)"
  have t: "tracked_job s k \<or> k = j \<Longrightarrow> tracked_job ?s k" for k
    by (auto simp: tracked_job_def put_place_def submit_register_def)
  show ?thesis
  proof (rule pool_invI)
    fix k
    show "count (native_bag (p_native (s_pool ?s))) k = (if s_place ?s k = Queued then 1 else 0)"
      using D(1) [of k] assms(2) by (auto simp: put_place_def submit_register_def)
    show "accepted_at (s_place ?s k) \<Longrightarrow> tracked_job ?s k" using D(2) [of k] t by (cases "k = j") (auto simp: put_place_def)
    show "s_place ?s k = Registered m \<Longrightarrow> tracked_job ?s k" for m using D(3) [of k m] t by (cases "k = j") (auto simp: put_place_def)
    show "swept (s_closer ?s c) \<Longrightarrow> k \<in> p_outstanding (s_pool ?s) \<Longrightarrow> \<exists>m. s_place ?s k = Registered m" for c
      using D(7) [of c k] by (auto simp: put_place_def submit_register_def)
  qed (use D(4,5,6,8) in \<open>auto simp: put_place_def submit_register_def split: if_splits\<close>)
qed

lemma dispatcher_turn_native:
  assumes "dispatcher_turn polls i d p = (r, d', p')"
  shows "native_bag (p_native p) = (case r of Some j \<Rightarrow> add_mset j (native_bag (p_native p')) | None \<Rightarrow> native_bag (p_native p')) \<and>
    p_outstanding p' = p_outstanding p \<and> n_open (p_native p') = n_open (p_native p) \<and>
    n_closed (p_native p') = n_closed (p_native p) \<and> n_locals_open (p_native p') = n_locals_open (p_native p) \<and>
    (d' = D_gone \<longrightarrow> d = D_gone \<or> n_closed (p_native p))"
proof -
  obtain w n where w: "pop_work polls i (p_native p) = (w, n)" by (metis surj_pair)
  have "w = Drained \<Longrightarrow> n_closed (p_native p)"
    using w by (auto simp: pop_work_def pull_batch_def Let_def split: option.splits if_splits)
  moreover note f = pop_work_flags [OF w] and b = pop_work_bag [OF w]
  ultimately show ?thesis using assms by (cases d; cases w) (auto simp: w f b split: if_splits)
qed

lemma dispatch_step_inv:
  assumes "pool_inv s" and "s_workers s l = Some (i, d)" and "dispatcher_turn polls i d (s_pool s) = (r, d', p)"
  shows "pool_inv (spawn_on l r (s\<lparr>s_pool := p, s_workers := (s_workers s)(l := Some (i, d'))\<rparr>))"
proof -
  note D = pool_invD [OF assms(1)] and n = dispatcher_turn_native [OF assms(3)]
  have g: "d' = D_gone \<Longrightarrow> n_closed (p_native (s_pool s))" using n D(8) assms(2) by blast
  let ?s = "spawn_on l r (s\<lparr>s_pool := p, s_workers := (s_workers s)(l := Some (i, d'))\<rparr>)"
  have t: "tracked_job ?s k = tracked_job s k" for k
    using n by (auto simp: tracked_job_def spawn_on_def put_place_def split: option.split)
  have q: "s_place s j = Queued" if "r = Some j" for j
    using n that D(1) [of j] by (auto split: if_splits)
  have p: "s_place ?s k = (if r = Some k then Spawned l else s_place s k)" for k
    by (simp add: spawn_on_def put_place_def split: option.split)
  show ?thesis
  proof (rule pool_invI)
    fix k
    show "count (native_bag (p_native (s_pool ?s))) k = (if s_place ?s k = Queued then 1 else 0)"
      using D(1) [of k] n q [of k] unfolding p by (auto simp: spawn_on_def put_place_def split: option.splits if_splits)
    show "accepted_at (s_place ?s k) \<Longrightarrow> tracked_job ?s k" using D(2) [of k] q [of k] unfolding t p by (auto split: if_splits)
    show "s_place ?s k = Registered m \<Longrightarrow> tracked_job ?s k" for m using D(3) [of k m] unfolding t p by (auto split: if_splits)
    show "answered_at (s_place ?s k) \<Longrightarrow> s_answer ?s k \<noteq> None"
      using D(4) [of k] unfolding p by (auto simp: spawn_on_def put_place_def split: if_splits option.split)
    show "swept (s_closer ?s c) \<Longrightarrow> k \<in> p_outstanding (s_pool ?s) \<Longrightarrow> \<exists>m. s_place ?s k = Registered m" for c
      using D(7) [of c k] n q [of k] unfolding p by (auto simp: spawn_on_def put_place_def split: option.splits)
  qed (use D(5,6,8) n g in \<open>auto simp: spawn_on_def put_place_def split: option.splits if_splits\<close>)
qed

lemma leftover_step_inv:
  assumes "pool_inv s" and "s_closer s c = Joining None" and "close_leftover (s_pool s) = (js, p)"
  shows "pool_inv (put_closer c (Completing True js) (s\<lparr>s_pool := p\<rparr>))"
proof -
  note D = pool_invD [OF assms(1)]
  let ?s = "put_closer c (Completing True js) (s\<lparr>s_pool := p\<rparr>)"
  have p: "js = p_outstanding (s_pool s)" "p_native p = p_native (s_pool s)" "p_outstanding p = {}"
    using assms(3) by (auto simp: close_leftover_def)
  have t: "tracked_job s k \<Longrightarrow> tracked_job ?s k" for k
    using assms(2) p by (auto simp: tracked_job_def put_closer_def) (metis emptyE held_by.simps(5) option.simps(4))
  show ?thesis
    by (rule pool_invI) (use D D(5,6) [of c] assms(2) t p in \<open>auto simp: put_closer_def split: if_splits\<close>)
qed

lemma abort_step_inv:
  assumes "pool_inv s" and "s_closer s c = Not_closing" and "abort_begin (s_pool s) = (Some (ls, js), p)"
  shows "pool_inv (put_closer c (Begun ls (Some js)) (s\<lparr>s_pool := p\<rparr>))"
proof -
  note D = pool_invD [OF assms(1)]
  let ?s = "put_closer c (Begun ls (Some js)) (s\<lparr>s_pool := p\<rparr>)"
  have p: "js = p_outstanding (s_pool s)" "p_native p = p_native (s_pool s)" "p_outstanding p = {}"
    using assms(3) by (auto simp: abort_begin_def close_begin_def split: if_splits)
  have t: "tracked_job s k \<Longrightarrow> tracked_job ?s k" for k
    using assms(2) p by (auto simp: tracked_job_def put_closer_def) (metis emptyE held_by.simps(7))
  show ?thesis
    by (rule pool_invI) (use D assms(2) t p in \<open>auto simp: put_closer_def split: if_splits\<close>)
qed

lemma complete_step_inv:
  assumes "pool_inv s" and "s_closer s c = Completing b js"
  shows "pool_inv (put_closer c (Completing b (js - {j})) (s\<lparr>s_answer := safe_complete j a (s_answer s)\<rparr>))"
proof -
  note D = pool_invD [OF assms(1)]
  let ?s = "put_closer c (Completing b (js - {j})) (s\<lparr>s_answer := safe_complete j a (s_answer s)\<rparr>)"
  have a: "s_answer s k \<noteq> None \<or> k = j \<Longrightarrow> s_answer ?s k \<noteq> None" for k
    by (auto simp: put_closer_def safe_complete_def)
  have t: "tracked_job s k \<Longrightarrow> tracked_job ?s k" for k
    using assms(2) a [of k] by (cases "k = j") (auto simp: tracked_job_def put_closer_def, metis held_by.simps(6))
  show ?thesis
    by (rule pool_invI) (use D D(5-7) [of c] assms(2) t a in \<open>auto simp: put_closer_def split: if_splits\<close>)
qed

lemma safe_complete_some: "ans k \<noteq> None \<Longrightarrow> safe_complete j a ans k \<noteq> None" "safe_complete j a ans j \<noteq> None"
  by (auto simp: safe_complete_def)

lemma answer_step_inv:
  assumes "pool_inv s" and "s_place s j = Running l"
  shows "pool_inv (put_place j (Answered l) (s\<lparr>s_answer := safe_complete j a (s_answer s)\<rparr>))"
proof (rule place_inv)
  show "pool_inv (s\<lparr>s_answer := safe_complete j a (s_answer s)\<rparr>)" using assms(1) safe_complete_some(1) by (rule answer_inv)
  show "tracked_job (s\<lparr>s_answer := safe_complete j a (s_answer s)\<rparr>) j" using safe_complete_some(2) by (simp add: tracked_job_def)
qed (use assms(2) safe_complete_some(2) in auto)

lemma finally_step_inv:
  assumes "pool_inv s" and "s_place s j = Answered l"
  shows "pool_inv (put_place j Over (s\<lparr>s_pool := execute_finally j (s_pool s)\<rparr>))"
proof -
  note D = pool_invD [OF assms(1)]
  let ?s = "put_place j Over (s\<lparr>s_pool := execute_finally j (s_pool s)\<rparr>)"
  have a: "s_answer s j \<noteq> None" using D(4) [of j] assms(2) by simp
  have t: "tracked_job s k \<Longrightarrow> tracked_job ?s k" for k
    using a by (auto simp: tracked_job_def put_place_def execute_finally_def)
  show ?thesis
    by (rule pool_invI) (use D a assms(2) t in \<open>auto simp: put_place_def execute_finally_def split: if_splits\<close>)
qed

lemma pool_step_inv:
  assumes "pool_step s s'" and inv: "pool_inv s"
  shows "pool_inv s'"
  using assms(1)
proof cases
  case (ps_start ls p)
  have "pool_inv (s\<lparr>s_pool := p\<rparr>)"
    using ps_start by (auto intro!: pool_inv_cong [OF inv] simp: pool_start_def split: if_splits)
  then show ?thesis unfolding ps_start(1) by (rule workers_inv) (auto split: option.splits)
next
  case (ps_enter j target args pin caller i)
  then show ?thesis by (auto intro: place_inv [OF inv])
next
  case (ps_register j i)
  then show ?thesis using register_step_inv [OF inv] by simp
next
  case (ps_push j i r p)
  then show ?thesis using push_step_inv [OF inv] by simp
next
  case (ps_wake i pick w p)
  then show ?thesis by (auto intro!: pool_inv_cong [OF inv] simp: submit_wake_def split: option.splits if_splits)
next
  case (ps_dispatch l i d polls r d' p)
  then show ?thesis using dispatch_step_inv [OF inv] by simp
next
  case (ps_begin j l)
  then show ?thesis using pool_invD(2) [OF inv, of j] by (auto intro: place_inv [OF inv])
next
  case (ps_answer j l scope r)
  then show ?thesis using answer_step_inv [OF inv] by simp
next
  case (ps_finally j l)
  then show ?thesis using finally_step_inv [OF inv] by simp
next
  case (ps_close c r p)
  have "pool_inv (s\<lparr>s_pool := p\<rparr>)"
    using ps_close by (auto intro!: pool_inv_cong [OF inv] simp: close_begin_def split: if_splits)
  then show ?thesis unfolding ps_close(1) by (rule closer_inv) (use ps_close in \<open>auto split: option.splits\<close>)
next
  case (ps_abort c r p)
  show ?thesis
  proof (cases r)
    case None
    then have "pool_inv (s\<lparr>s_pool := p\<rparr>)"
      using ps_abort by (auto intro!: pool_inv_cong [OF inv] simp: abort_begin_def close_begin_def split: if_splits)
    then show ?thesis unfolding ps_abort(1) None option.case by (rule closer_inv) (use ps_abort in auto)
  next
    case (Some q)
    obtain ls js where q: "q = (ls, js)" by fastforce
    from abort_step_inv [OF inv ps_abort(2)] ps_abort Some q show ?thesis by simp
  qed
next
  case (ps_close_global c ls js)
  have "pool_inv (put_native close_global s)" by (rule native_inv [of s close_global, OF inv close_bag(1) refl]) (simp_all add: close_global_def)
  then show ?thesis unfolding ps_close_global(1)
    by (rule closer_inv) (use ps_close_global in \<open>auto simp: put_native_def close_global_def\<close>)
next
  case (ps_close_locals c ls js)
  have "pool_inv (put_native close_locals s)" by (rule native_inv [of s close_locals, OF inv close_bag(2) refl]) (simp_all add: close_locals_def)
  then show ?thesis unfolding ps_close_locals(1)
    by (rule closer_inv) (use ps_close_locals pool_invD(5) [OF inv, of c] in \<open>auto simp: put_native_def close_locals_def\<close>)
next
  case (ps_close_flag c ls js)
  have "pool_inv (put_native close_flag s)" by (rule native_inv [of s close_flag, OF inv close_bag(3) refl]) (simp_all add: close_flag_def)
  then show ?thesis unfolding ps_close_flag(1)
    by (rule closer_inv) (use ps_close_flag pool_invD(5,6) [OF inv, of c] in \<open>auto simp: put_native_def close_flag_def\<close>)
next
  case (ps_stop c ls js)
  have "pool_inv (put_closer c (Joining js) s)"
    by (rule closer_inv [OF inv]) (use ps_stop pool_invD(5,6) [OF inv, of c] in auto)
  then show ?thesis unfolding ps_stop(1) by (simp add: pool_inv_def tracked_job_def put_closer_def)
next
  case (ps_stopped l)
  then show ?thesis by (auto intro: workers_inv [OF inv] split: if_splits)
next
  case (ps_drop j l)
  then show ?thesis using pool_invD(2) [OF inv, of j] by (auto intro: place_inv [OF inv])
next
  case (ps_leftover c js p)
  then show ?thesis using leftover_step_inv [OF inv] by simp
next
  case (ps_aborted c js)
  show ?thesis unfolding ps_aborted(1)
    by (rule closer_inv [OF inv]) (use ps_aborted pool_invD(5,6) [OF inv, of c] in auto)
next
  case (ps_complete c b js j)
  then show ?thesis using complete_step_inv [OF inv] by simp
next
  case (ps_end c b)
  have "pool_inv (s\<lparr>s_pool := close_end (s_pool s)\<rparr>)" by (rule pool_inv_cong [OF inv]) (simp_all add: close_end_def)
  then show ?thesis unfolding ps_end(1)
    by (rule closer_inv) (use ps_end pool_invD(5,6) [OF inv, of c] in \<open>auto simp: close_end_def\<close>)
qed

interpretation pools: invariant_system "\<lambda>s. \<exists>k. s = psys_new k" pool_step pool_inv
  by unfold_locales (auto simp: psys_new_inv intro: pool_step_inv)

lemma index_of_mem: "index_of l ls = Some i \<Longrightarrow> l \<in> set ls"
  by (induction ls arbitrary: i) (auto split: if_splits)

lemma submit_enter_ok:
  assumes "submit_enter target args pin caller p = Inr i"
  shows "p_running p \<and> caller \<and> target \<noteq> Target_future \<and> (target \<noteq> Target_coroutine \<or> \<not> args) \<and>
    (case pin of No_pin \<Rightarrow> True | Pin_index i \<Rightarrow> 0 \<le> i \<and> i < int (length (p_loops p)) | Pin_loop l \<Rightarrow> l \<in> set (p_loops p) | Pin_other \<Rightarrow> False)"
proof (cases "resolve_target pin p")
  case (Inr k)
  then have "p_running p \<and> (case pin of No_pin \<Rightarrow> True | Pin_index i \<Rightarrow> 0 \<le> i \<and> i < int (length (p_loops p))
      | Pin_loop l \<Rightarrow> l \<in> set (p_loops p) | Pin_other \<Rightarrow> False)"
    by (cases pin) (auto simp: resolve_target_def dest: index_of_mem index_of_mem [OF sym] split: if_splits option.splits)
  then show ?thesis using assms Inr by (auto simp: submit_enter_def split: if_splits)
qed (use assms in \<open>auto simp: submit_enter_def split: if_splits\<close>)

section \<open>A run of one worker and one task\<close>

text \<open>A state in which only the task 0, the loop 0 and the closer 0 matter.\<close>

definition snap :: "pool \<Rightarrow> place \<Rightarrow> answer option \<Rightarrow> (nat \<times> dstage) option \<Rightarrow> loop set \<Rightarrow> closing \<Rightarrow> psys" where
  "snap p x a w st cl = \<lparr>s_pool = p, s_place = (\<lambda>j. if j = 0 then x else New), s_answer = (\<lambda>j. if j = 0 then a else None),
     s_workers = (\<lambda>l. if l = 0 then w else None), s_stopping = st, s_closer = (\<lambda>c. if c = 0 then cl else Not_closing)\<rparr>"

lemma snap_simps [simp]:
  "s_pool (snap p x a w st cl) = p" "s_place (snap p x a w st cl) 0 = x" "s_answer (snap p x a w st cl) 0 = a"
  "s_workers (snap p x a w st cl) 0 = w" "s_stopping (snap p x a w st cl) = st" "s_closer (snap p x a w st cl) 0 = cl"
  "put_place 0 y (snap p x a w st cl) = snap p y a w st cl" "put_closer 0 cl' (snap p x a w st cl) = snap p x a w st cl'"
  "(snap p x a w st cl)\<lparr>s_pool := q\<rparr> = snap q x a w st cl"
  "(snap p x a w st cl)\<lparr>s_stopping := st'\<rparr> = snap p x a w st' cl"
  "put_native f (snap p x a w st cl) = snap (p\<lparr>p_native := f (p_native p)\<rparr>) x a w st cl"
  by (simp_all add: snap_def put_place_def put_closer_def put_native_def fun_eq_iff)

lemma snap_new: "psys_new 1 = snap (pool_new 1) New None None {} Not_closing"
  by (simp add: psys_new_def snap_def)

lemma snap_started:
  "reach pool_step (psys_new 1)
     (snap ((pool_new 1)\<lparr>p_running := True, p_started := True, p_loops := [0]\<rparr>) New None (Some (0, D_drain False)) {} Not_closing)"
proof -
  let ?p = "(pool_new 1)\<lparr>p_running := True, p_started := True, p_loops := [0]\<rparr>"
  have "pool_start [0] (pool_new 1) = (None, ?p)"
    by (simp add: pool_start_def pool_new_def native_is_closed_def native_new_def)
  from ps_start [of "psys_new 1", OF _ _ _ _, of "[0]" ?p] this
  have "pool_step (psys_new 1) ((psys_new 1)\<lparr>s_pool := ?p,
      s_workers := (\<lambda>l. case index_of l [0] of Some i \<Rightarrow> Some (i, D_drain False) | None \<Rightarrow> s_workers (psys_new 1) l)\<rparr>)"
    by (simp add: psys_new_def pool_new_def)
  moreover have "(psys_new 1)\<lparr>s_pool := ?p,
      s_workers := (\<lambda>l. case index_of l [0] of Some i \<Rightarrow> Some (i, D_drain False) | None \<Rightarrow> s_workers (psys_new 1) l)\<rparr> =
    snap ?p New None (Some (0, D_drain False)) {} Not_closing"
    by (simp add: psys_new_def snap_def fun_eq_iff)
  ultimately show ?thesis by (metis reach_one)
qed

lemma snap_close_native:
  "reach pool_step (snap p x a w st (Begun ls js)) (snap (p\<lparr>p_native := native_close (p_native p)\<rparr>) x a w st (Native_closed ls js))"
proof -
  let ?p1 = "p\<lparr>p_native := close_global (p_native p)\<rparr>" and ?p2 = "p\<lparr>p_native := close_locals (close_global (p_native p))\<rparr>"
  have "pool_step (snap p x a w st (Begun ls js)) (snap ?p1 x a w st (Global_closed ls js))"
    using ps_close_global [of "snap p x a w st (Begun ls js)" 0] by simp
  moreover have "pool_step (snap ?p1 x a w st (Global_closed ls js)) (snap ?p2 x a w st (Locals_closed ls js))"
    using ps_close_locals [of "snap ?p1 x a w st (Global_closed ls js)" 0] by simp
  moreover have "pool_step (snap ?p2 x a w st (Locals_closed ls js))
      (snap (p\<lparr>p_native := native_close (p_native p)\<rparr>) x a w st (Native_closed ls js))"
    using ps_close_flag [of "snap ?p2 x a w st (Locals_closed ls js)" 0] by (simp add: native_close_def)
  ultimately show ?thesis by (meson reach_one reach_step)
qed

lemma snap_stop:
  "reach pool_step (snap p x a w {} (Native_closed [0] js)) (snap p x a None {0} (Joining js))"
proof -
  have "pool_step (snap p x a w {} (Native_closed [0] js)) (snap p x a w {0} (Joining js))"
    using ps_stop [of "snap p x a w {} (Native_closed [0] js)" 0 "[0]" js] by simp
  moreover have "(snap p x a w {0} (Joining js))\<lparr>s_workers := (s_workers (snap p x a w {0} (Joining js)))(0 := None)\<rparr> =
      snap p x a None {0} (Joining js)"
    by (simp add: snap_def fun_eq_iff)
  then have "pool_step (snap p x a w {0} (Joining js)) (snap p x a None {0} (Joining js))"
    using ps_stopped [of 0 "snap p x a w {0} (Joining js)"] by simp
  ultimately show ?thesis by (meson reach_one reach_step)
qed

definition one_worker :: pool where
  "one_worker = (pool_new 1)\<lparr>p_running := True, p_started := True, p_loops := [0]\<rparr>"

definition one_task :: pool where
  "one_task = one_worker\<lparr>p_outstanding := {0}, p_native := (native_new 1)\<lparr>n_global := [0]\<rparr>\<rparr>"

lemma snap_one_worker: "reach pool_step (psys_new 1) (snap one_worker New None (Some (0, D_drain False)) {} Not_closing)"
  unfolding one_worker_def by (rule snap_started)

lemma snap_queued: "reach pool_step (psys_new 1) (snap one_task Queued None (Some (0, D_drain False)) {} Not_closing)"
proof -
  let ?w = "Some (0, D_drain False)" and ?p = "one_worker\<lparr>p_outstanding := {0}\<rparr>"
  have "submit_enter Target_other False No_pin True (s_pool (snap one_worker New None ?w {} Not_closing)) = Inr None"
    by (simp add: submit_enter_def resolve_target_def one_worker_def)
  from ps_enter [OF _ this, of 0]
  have 1: "pool_step (snap one_worker New None ?w {} Not_closing) (snap one_worker (Entered None) None ?w {} Not_closing)" by simp
  have "submit_register 0 one_worker = ?p" by (simp add: submit_register_def one_worker_def pool_new_def)
  then have 2: "pool_step (snap one_worker (Entered None) None ?w {} Not_closing) (snap ?p (Registered None) None ?w {} Not_closing)"
    using ps_register [of "snap one_worker (Entered None) None ?w {} Not_closing" 0 None] by simp
  have "submit_push 0 None ?p = (None, one_task)"
    by (simp add: submit_push_def push_global_def pool_new_def native_new_def one_worker_def one_task_def)
  then have 3: "pool_step (snap ?p (Registered None) None ?w {} Not_closing) (snap one_task Queued None ?w {} Not_closing)"
    using ps_push [of "snap ?p (Registered None) None ?w {} Not_closing" 0 None None one_task] by simp
  from snap_one_worker 1 2 3 show ?thesis by (meson reach_step)
qed

lemma snap_close:
  assumes "p_running p" and "p_loops p = [0]"
  shows "reach pool_step (snap p x None w {} Not_closing)
    (snap (p\<lparr>p_running := False, p_loops := [], p_native := native_close (p_native p)\<rparr>) x None w {} (Native_closed [0] None))"
proof -
  have "close_begin p = (Some [0], p\<lparr>p_running := False, p_loops := []\<rparr>)" using assms by (simp add: close_begin_def)
  then have "pool_step (snap p x None w {} Not_closing) (snap (p\<lparr>p_running := False, p_loops := []\<rparr>) x None w {} (Begun [0] None))"
    using ps_close [of "snap p x None w {} Not_closing" 0 "Some [0]"] by simp
  from reach_trans [OF snap_close_native reach_one [of pool_step, OF this]] show ?thesis by simp
qed

text \<open>Nothing happens to a task that is queued where no worker is left and nobody closes.\<close>

lemma submit_push_fields:
  "submit_push j i p = (r, p') \<Longrightarrow> p_running p' = p_running p \<and> native_is_closed (p_native p') = native_is_closed (p_native p)"
  using submit_push_native [of j i p r p']
  by (auto simp: native_is_closed_def submit_push_def split: option.splits prod.splits)

lemma lost_for_ever:
  assumes "s_place s 0 = Queued \<and> s_answer s 0 = None \<and> (\<forall>l. s_workers s l = None) \<and>
    native_is_closed (p_native (s_pool s)) \<and> \<not> p_running (s_pool s) \<and>
    (\<forall>c. s_closer s c \<in> {Not_closing, Returned_early, Close_over False})" and "pool_step s s'"
  shows "s_place s' 0 = Queued \<and> s_answer s' 0 = None \<and> (\<forall>l. s_workers s' l = None) \<and>
    native_is_closed (p_native (s_pool s')) \<and> \<not> p_running (s_pool s') \<and>
    (\<forall>c. s_closer s' c \<in> {Not_closing, Returned_early, Close_over False})"
proof -
  have c: "s_closer s c \<noteq> Begun ls js" "s_closer s c \<noteq> Global_closed ls js" "s_closer s c \<noteq> Locals_closed ls js"
    "s_closer s c \<noteq> Native_closed ls js" "s_closer s c \<noteq> Joining js'" "s_closer s c \<noteq> Completing b x" for c ls js js' b x
    using assms(1) by (metis closing.distinct insertE singletonD)+
  have n: "0 < j" if "s_place s j \<noteq> Queued" for j using that assms(1) by (cases "j = 0") auto
  from assms(2) show ?thesis
  proof cases
    case (ps_push j i r p)
    then show ?thesis using assms(1) submit_push_fields [OF ps_push(3)] by (cases "j = 0") (auto simp: put_place_def)
  qed (use assms(1) c in \<open>auto simp: put_place_def put_closer_def pool_start_def submit_enter_def resolve_target_def
      submit_register_def submit_wake_def execute_finally_def close_begin_def abort_begin_def safe_complete_def
      intro: n split: option.splits if_splits\<close>)
qed

section \<open>Properties\<close>

text \<open>
  C5: A task runs at most once.  In every reachable state the queues hold exactly the tasks that
  were accepted and not handed out, each once; so a step that puts a task on a loop takes it out
  of the queues, and it was there.
\<close>

theorem pool_runs_once:
  assumes "reach pool_step (psys_new k) s" and "pool_step s s'"
    and "s_place s' j = Spawned l" and "s_place s j \<noteq> Spawned l"
  shows "s_place s j = Queued \<and> count (native_bag (p_native (s_pool s))) j = 1 \<and> j \<notin># native_bag (p_native (s_pool s'))"
proof -
  have inv: "pool_inv s" by (rule pools.inv_reach [OF assms(1)]) blast
  have q: "s_place s j = Queued"
    using assms(2)
  proof cases
    case (ps_dispatch l' i d polls r d' p)
    then have "r = Some j" using assms(3,4) by (auto simp: spawn_on_def put_place_def split: option.splits if_splits)
    then have "count (native_bag (p_native (s_pool s))) j > 0" using dispatcher_turn_native [OF ps_dispatch(3)] by simp
    then show ?thesis using pool_invD(1) [OF inv, of j] by (auto split: if_splits)
  qed (use assms(3,4) in \<open>auto simp: put_place_def put_closer_def put_native_def split: if_splits\<close>)
  have "count (native_bag (p_native (s_pool s'))) j = 0"
    using pool_invD(1) [OF pool_step_inv [OF assms(2) inv], of j] assms(3) by simp
  with q pool_invD(1) [OF inv, of j] show ?thesis by (simp add: not_in_iff)
qed


text \<open>
  A dispatcher leaves only a closed pool: while the pool has not been closed, every loop of a
  worker goes on taking tasks.
\<close>

theorem pool_dispatcher_stays:
  assumes "reach pool_step (psys_new k) s" and "s_workers s l = Some (i, D_gone)"
  shows "n_closed (p_native (s_pool s)) \<and> native_is_closed (p_native (s_pool s))"
proof -
  have "pool_inv s" by (rule pools.inv_reach [OF assms(1)]) blast
  from pool_invD(8) [OF this assms(2)] show ?thesis by (simp add: native_is_closed_def)
qed

text \<open>
  \<open>wait_closed\<close> can return at once.  From every reachable state in which the pool runs, two
  calls of \<open>close\<close> lead to a state where \<open>wait_closed\<close> returns although no task has moved, every
  worker is as before, and nothing has been told to stop.
\<close>

theorem pool_wait_closed_early:
  assumes "reach pool_step (psys_new k) s" and "p_running (s_pool s)"
    and "s_closer s c1 = Not_closing" and "s_closer s c2 = Not_closing" and "c1 \<noteq> c2"
  shows "\<exists>s'. reach pool_step s s' \<and> waited_closed (s_pool s') \<and> s_place s' = s_place s \<and> s_answer s' = s_answer s \<and>
    s_workers s' = s_workers s \<and> s_stopping s' = s_stopping s \<and> p_native (s_pool s') = p_native (s_pool s)"
proof -
  let ?p = "(s_pool s)\<lparr>p_running := False, p_loops := []\<rparr>"
  let ?s = "put_closer c1 (Begun (p_loops (s_pool s)) None) (s\<lparr>s_pool := ?p\<rparr>)"
  have "close_begin (s_pool s) = (Some (p_loops (s_pool s)), ?p)" using assms(2) by (simp add: close_begin_def)
  from ps_close [OF assms(3) this] have 1: "pool_step s ?s" by simp
  have "close_begin (s_pool ?s) = (None, ?p\<lparr>p_closed_event := True\<rparr>)" by (simp add: close_begin_def put_closer_def)
  from ps_close [OF _ this, of c2] assms(4,5)
  have "pool_step ?s (put_closer c2 Returned_early (?s\<lparr>s_pool := ?p\<lparr>p_closed_event := True\<rparr>\<rparr>))" by (simp add: put_closer_def)
  from reach_step [OF reach_one [of pool_step, OF 1] this]
  have "reach pool_step s (put_closer c2 Returned_early (?s\<lparr>s_pool := ?p\<lparr>p_closed_event := True\<rparr>\<rparr>))" .
  then show ?thesis
    by (intro exI [of _ "put_closer c2 Returned_early (?s\<lparr>s_pool := ?p\<lparr>p_closed_event := True\<rparr>\<rparr>)"])
      (simp add: put_closer_def waited_closed_def)
qed

text \<open>
  C34: \<open>abort\<close> can lose a task for ever.  A \<open>submit\<close> that passed its checks before \<open>abort\<close> took the
  outstanding futures, and registers its future and queues its task before the queues are closed,
  is accepted; but the future is in no list that anybody completes, and no worker is left: in
  every state from then on the task is queued and its future is not done, though \<open>abort\<close> and
  \<open>wait_closed\<close> have returned.
\<close>

theorem pool_abort_loses:
  "\<exists>s. reach pool_step (psys_new 1) s \<and> waited_closed (s_pool s) \<and> s_closer s 0 = Close_over False \<and> accepted_at (s_place s 0) \<and>
     Collect (reach pool_step s) \<subseteq> {s'. s_place s' 0 = Queued \<and> s_answer s' 0 = None}"
proof -
  let ?p1 = "(pool_new 1)\<lparr>p_running := True, p_started := True, p_loops := [0]\<rparr>"
  let ?p2 = "?p1\<lparr>p_running := False, p_loops := []\<rparr>"
  let ?p3 = "?p2\<lparr>p_outstanding := {0}\<rparr>"
  let ?p4 = "?p3\<lparr>p_native := (native_new 1)\<lparr>n_global := [0]\<rparr>\<rparr>"
  let ?p5 = "?p4\<lparr>p_native := native_close (p_native ?p4)\<rparr>"
  let ?w = "Some (0, D_drain False)" and ?b = "Begun [0] (Some {})"
  let ?s = "snap (close_end ?p5) Queued None None {0} (Close_over False)"
  have "submit_enter Target_other False No_pin True (s_pool (snap ?p1 New None ?w {} Not_closing)) = Inr None"
    by (simp add: submit_enter_def resolve_target_def)
  from ps_enter [OF _ this, of 0]
  have 1: "pool_step (snap ?p1 New None ?w {} Not_closing) (snap ?p1 (Entered None) None ?w {} Not_closing)" by simp
  have "abort_begin ?p1 = (Some ([0], {}), ?p2)"
    by (simp add: abort_begin_def close_begin_def pool_new_def)
  then have 2: "pool_step (snap ?p1 (Entered None) None ?w {} Not_closing) (snap ?p2 (Entered None) None ?w {} ?b)"
    using ps_abort [of "snap ?p1 (Entered None) None ?w {} Not_closing" 0 "Some ([0], {})" ?p2] by simp
  have "submit_register 0 ?p2 = ?p3" by (simp add: submit_register_def pool_new_def)
  then have 3: "pool_step (snap ?p2 (Entered None) None ?w {} ?b) (snap ?p3 (Registered None) None ?w {} ?b)"
    using ps_register [of "snap ?p2 (Entered None) None ?w {} ?b" 0 None] by simp
  have "submit_push 0 None ?p3 = (None, ?p4)"
    by (simp add: submit_push_def push_global_def pool_new_def native_new_def)
  then have 4: "pool_step (snap ?p3 (Registered None) None ?w {} ?b) (snap ?p4 Queued None ?w {} ?b)"
    using ps_push [of "snap ?p3 (Registered None) None ?w {} ?b" 0 None None ?p4] by simp
  have 5: "pool_step (snap ?p5 Queued None None {0} (Joining (Some {}))) (snap ?p5 Queued None None {0} (Completing False {}))"
    using ps_aborted [of "snap ?p5 Queued None None {0} (Joining (Some {}))" 0 "{}"] by simp
  have 6: "pool_step (snap ?p5 Queued None None {0} (Completing False {})) ?s"
    using ps_end [of "snap ?p5 Queued None None {0} (Completing False {})" 0 False] by simp
  have r: "reach pool_step (psys_new 1) ?s"
    using snap_started 1 2 3 4 snap_close_native [of ?p4 Queued None ?w "{}" "[0]" "Some {}"]
      snap_stop [of ?p5 Queued None ?w "Some {}"] 5 6
    by (meson reach_one reach_step reach_trans)
  define K where "K s \<longleftrightarrow> s_place s 0 = Queued \<and> s_answer s 0 = None \<and> (\<forall>l. s_workers s l = None) \<and>
    native_is_closed (p_native (s_pool s)) \<and> \<not> p_running (s_pool s) \<and>
    (\<forall>c. s_closer s c \<in> {Not_closing, Returned_early, Close_over False})" for s :: psys
  have step: "K s \<Longrightarrow> pool_step s s' \<Longrightarrow> K s'" for s s' by (rule lost_for_ever [folded K_def])
  have "reach pool_step a b \<Longrightarrow> K a \<Longrightarrow> K b" for a b by (induction rule: reach.induct) (auto intro: step)
  moreover have "K ?s"
    by (auto simp: K_def snap_def close_end_def native_close_def native_is_closed_def close_flag_def pool_new_def)
  ultimately have "Collect (reach pool_step ?s) \<subseteq> {s'. s_place s' 0 = Queued \<and> s_answer s' 0 = None}"
    by (auto simp: K_def)
  with r show ?thesis by (intro exI [of _ ?s]) (simp add: waited_closed_def close_end_def)
qed

theorem pool_runs_once_witness:
  "\<exists>s s'. reach pool_step (psys_new 1) s \<and> pool_step s s' \<and> s_place s 0 = Queued \<and> s_place s' 0 = Spawned 0"
proof -
  let ?s = "snap one_task Queued None (Some (0, D_drain False)) {} Not_closing"
  have "\<exists>p d. dispatcher_turn 0 0 (D_drain False) one_task = (Some 0, d, p)"
    by (simp add: one_task_def one_worker_def pop_work_def pop_buffer_def pull_batch_def batch_size_def native_new_def Let_def)
  then obtain p d where t: "dispatcher_turn 0 0 (D_drain False) (s_pool ?s) = (Some 0, d, p)" by auto
  have w: "s_workers ?s 0 = Some (0, D_drain False)" by simp
  let ?s' = "spawn_on 0 (Some 0) (?s\<lparr>s_pool := p, s_workers := (s_workers ?s)(0 := Some (0, d))\<rparr>)"
  have st: "pool_step ?s ?s'" by (rule ps_dispatch [OF w t])
  have x: "s_place ?s' 0 = Spawned 0" "s_place ?s 0 \<noteq> Spawned 0" by (simp_all add: spawn_on_def put_place_def)
  from pool_runs_once [OF snap_queued st x] snap_queued st x(1) show ?thesis by blast
qed


theorem pool_dispatcher_stays_witness:
  "\<exists>s. reach pool_step (psys_new 1) s \<and> s_workers s 0 = Some (0, D_gone) \<and> n_closed (p_native (s_pool s))"
proof -
  let ?q = "one_worker\<lparr>p_running := False, p_loops := [], p_native := native_close (p_native one_worker)\<rparr>"
  let ?s = "snap ?q New None (Some (0, D_drain False)) {} (Native_closed [0] None)"
  have run: "p_running one_worker" "p_loops one_worker = [0]" by (simp_all add: one_worker_def)
  have "\<exists>p. dispatcher_turn 0 0 (D_drain False) ?q = (None, D_gone, p)"
    by (simp add: one_worker_def pool_new_def native_close_def close_flag_def close_locals_def close_global_def pop_work_def
        pop_buffer_def pop_local_def pull_batch_def native_new_def Let_def)
  then obtain p where t: "dispatcher_turn 0 0 (D_drain False) (s_pool ?s) = (None, D_gone, p)" by auto
  have w: "s_workers ?s 0 = Some (0, D_drain False)" by simp
  from ps_dispatch [OF w t] have st: "pool_step ?s (?s\<lparr>s_pool := p, s_workers := (s_workers ?s)(0 := Some (0, D_gone))\<rparr>)"
    by (simp add: spawn_on_def del: snap_simps)
  have "reach pool_step (psys_new 1) ?s" using snap_one_worker snap_close [OF run] by (meson reach_trans)
  from reach_step [OF this st] have r: "reach pool_step (psys_new 1) (?s\<lparr>s_pool := p, s_workers := (s_workers ?s)(0 := Some (0, D_gone))\<rparr>)" .
  from pool_dispatcher_stays [OF r, of 0 0] r show ?thesis
    by (intro exI [of _ "?s\<lparr>s_pool := p, s_workers := (s_workers ?s)(0 := Some (0, D_gone))\<rparr>"]) simp
qed

theorem pool_wait_closed_early_witness:
  "\<exists>s'. reach pool_step (psys_new 1) s' \<and> waited_closed (s_pool s') \<and> s_place s' 0 = Queued \<and> s_stopping s' = {}"
proof -
  let ?s = "snap one_task Queued None (Some (0, D_drain False)) {} Not_closing"
  have h: "p_running (s_pool ?s)" "s_closer ?s 0 = Not_closing" "s_closer ?s 1 = Not_closing"
    by (simp_all add: one_task_def one_worker_def) (simp add: snap_def)
  from pool_wait_closed_early [OF snap_queued h] obtain s' where
    "reach pool_step ?s s'" "waited_closed (s_pool s')" "s_place s' = s_place ?s" "s_stopping s' = s_stopping ?s" by auto
  then show ?thesis using reach_trans [of pool_step ?s s' "psys_new 1"] snap_queued by auto
qed

text \<open>
  What \<open>submit\<close> does without interference.  It succeeds only on a running pool, for a caller
  with a running loop, a target that is no future and a pin that names a worker of the pool; then
  exactly this task is queued and its future tracked.  When it raises, nothing is queued and no
  new future is tracked.
\<close>

theorem pool_submit_outcome:
  "case pool_submit target args pin caller pick j p of
     (Inl e, p') \<Rightarrow> native_bag (p_native p') = native_bag (p_native p) \<and> p_outstanding p' \<subseteq> p_outstanding p
   | (Inr k, p') \<Rightarrow> k = j \<and> p_running p \<and> caller \<and> target \<noteq> Target_future \<and> (target \<noteq> Target_coroutine \<or> \<not> args) \<and>
       (case pin of No_pin \<Rightarrow> True | Pin_index i \<Rightarrow> 0 \<le> i \<and> i < int (length (p_loops p)) | Pin_loop l \<Rightarrow> l \<in> set (p_loops p) | Pin_other \<Rightarrow> False) \<and>
       native_bag (p_native p') = add_mset j (native_bag (p_native p)) \<and> p_outstanding p' = insert j (p_outstanding p)"
proof (cases "submit_enter target args pin caller p")
  case (Inr i)
  obtain r q where q: "submit_push j i (submit_register j p) = (r, q)" by (metis surj_pair)
  have w: "p_native (snd (submit_wake i pick q)) = p_native q" "p_outstanding (snd (submit_wake i pick q)) = p_outstanding q"
    by (auto simp: submit_wake_def split: option.splits)
  have n: "p_native (submit_register j p) = p_native p" "p_outstanding (submit_register j p) = insert j (p_outstanding p)"
    by (simp_all add: submit_register_def)
  note u = submit_push_native [OF q, unfolded n]
  show ?thesis
  proof (cases r)
    case None
    then have "pool_submit target args pin caller pick j p = (Inr j, snd (submit_wake i pick q))"
      by (simp add: pool_submit_def Inr q)
    then show ?thesis using u None submit_enter_ok [OF Inr] w by simp
  next
    case (Some e)
    then have "pool_submit target args pin caller pick j p = (Inl e, q)" by (simp add: pool_submit_def Inr q)
    then show ?thesis using u Some by auto
  qed
qed (simp add: pool_submit_def)

theorem pool_submit_outcome_witness:
  "\<exists>p'. pool_submit Target_other True (Pin_index 0) True 0 5 one_worker = (Inr 5, p') \<and> p_outstanding p' = {5}"
proof -
  have "\<exists>p'. pool_submit Target_other True (Pin_index 0) True 0 5 one_worker = (Inr 5, p')"
    by (simp add: pool_submit_def submit_enter_def resolve_target_def one_worker_def submit_push_def push_local_def submit_register_def
        pool_new_def native_new_def local_capacity_def)
  then obtain p' where p: "pool_submit Target_other True (Pin_index 0) True 0 5 one_worker = (Inr 5, p')" ..
  with pool_submit_outcome [where target = Target_other and args = True and pin = "Pin_index 0" and caller = True and pick = 0 and j = 5
      and p = one_worker] show ?thesis
    by (auto simp: one_worker_def pool_new_def)
qed

end
