(* ===== verification/Contexts.thy ===== *)
theory Contexts
  imports Pool
begin

text \<open>
  \<open>AsyncContext\<close> of \<open>context.py\<close>: the tree of contexts, \<open>submit\<close> with its second check, the
  discarding of completed futures, and the cascade of \<open>cancel\<close> as the sequence of its critical
  sections and calls, interleaved with other threads.  Proved: when the calls under way are over,
  nothing below a cancelled context is left uncancelled, whatever was created or submitted
  meanwhile; and a \<open>cancel\<close> ends.
\<close>

section \<open>The code\<close>

type_synonym ctx_id = nat

text \<open>A submitted task, its future and its \<open>CancelScope\<close> have one identity.\<close>

record ctx =
  x_parent :: "ctx_id option"
  x_cancelled :: bool
  x_children :: "ctx_id set"
  x_futures :: "job set"

definition ctx_new :: "ctx_id option \<Rightarrow> ctx" where
  "ctx_new parent = \<lparr>x_parent = parent, x_cancelled = False, x_children = {}, x_futures = {}\<rparr>"

text \<open>
  The contexts that exist are those below \<open>xs_next\<close>; \<open>xs_scopes\<close>: the scopes whose \<open>cancel\<close> was
  called; \<open>xs_asked\<close>: the futures that were asked to cancel; \<open>xs_of\<close>: the context of a submitted
  task; \<open>xs_acts\<close>: what the running call of a thread has still to do.
\<close>

datatype ctx_act =
    Add_child ctx_id ctx_id | Cancel_ctx ctx_id | Detach ctx_id | Cancel_scope job | Cancel_future job | Track ctx_id job

record xsys =
  xs_ctx :: "ctx_id \<Rightarrow> ctx"
  xs_next :: nat
  xs_scopes :: "job set"
  xs_done :: "job set"
  xs_asked :: "job set"
  xs_of :: "job \<Rightarrow> ctx_id option"
  xs_acts :: "nat \<Rightarrow> ctx_act list"

definition put_ctx :: "ctx_id \<Rightarrow> ctx \<Rightarrow> xsys \<Rightarrow> xsys" where
  "put_ctx c x s = s\<lparr>xs_ctx := (xs_ctx s)(c := x)\<rparr>"

text \<open>\<open>_add_child\<close>, \<open>_remove_child\<close>, \<open>_discard_future\<close>.\<close>

definition ctx_add_child :: "ctx_id \<Rightarrow> ctx_id \<Rightarrow> xsys \<Rightarrow> ctx_act list \<times> xsys" where
  "ctx_add_child p d s =
     (let x = xs_ctx s p in
      if x_cancelled x then ([Cancel_ctx d], s) else ([], put_ctx p (x\<lparr>x_children := insert d (x_children x)\<rparr>) s))"

definition ctx_remove_child :: "ctx_id \<Rightarrow> ctx_id \<Rightarrow> xsys \<Rightarrow> xsys" where
  "ctx_remove_child p d s = (let x = xs_ctx s p in put_ctx p (x\<lparr>x_children := x_children x - {d}\<rparr>) s)"

definition ctx_discard :: "ctx_id \<Rightarrow> job \<Rightarrow> xsys \<Rightarrow> xsys" where
  "ctx_discard c j s = (let x = xs_ctx s c in put_ctx c (x\<lparr>x_futures := x_futures x - {j}\<rparr>) s)"

text \<open>\<open>cancel\<close>: the critical section takes the children and the futures (in some order) and leaves the
  calls that follow it.\<close>

definition ctx_cancel :: "ctx_id \<Rightarrow> ctx_id list \<Rightarrow> job list \<Rightarrow> xsys \<Rightarrow> ctx_act list \<times> xsys" where
  "ctx_cancel c ds js s =
     (let x = xs_ctx s c in
      if x_cancelled x then ([], s)
      else (Detach c # map Cancel_ctx ds @ map Cancel_scope js @ map Cancel_future js,
            put_ctx c (x\<lparr>x_cancelled := True, x_children := {}, x_futures := {}\<rparr>) s))"

text \<open>
  \<open>submit\<close>: before the task goes to the pool (\<open>False\<close>: a cancelled future is returned), and with the
  future the pool returned.
\<close>

definition ctx_submit_check :: "ctx_id \<Rightarrow> xsys \<Rightarrow> bool" where
  "ctx_submit_check c s \<longleftrightarrow> \<not> x_cancelled (xs_ctx s c)"

definition ctx_track :: "ctx_id \<Rightarrow> job \<Rightarrow> xsys \<Rightarrow> ctx_act list \<times> xsys" where
  "ctx_track c j s =
     (let x = xs_ctx s c in
      if x_cancelled x then ([Cancel_scope j, Cancel_future j], s)
      else ([], put_ctx c (x\<lparr>x_futures := insert j (x_futures x)\<rparr>) s))"

definition ctx_cancel_future :: "job \<Rightarrow> xsys \<Rightarrow> xsys" where
  "ctx_cancel_future j s = (if j \<in> xs_done s then s else s\<lparr>xs_asked := insert j (xs_asked s)\<rparr>)"

fun ctx_perform :: "ctx_act \<Rightarrow> ctx_id list \<Rightarrow> job list \<Rightarrow> xsys \<Rightarrow> ctx_act list \<times> xsys" where
  "ctx_perform (Add_child p d) ds js s = ctx_add_child p d s"
| "ctx_perform (Cancel_ctx c) ds js s = ctx_cancel c ds js s"
| "ctx_perform (Detach c) ds js s = ([], case x_parent (xs_ctx s c) of None \<Rightarrow> s | Some p \<Rightarrow> ctx_remove_child p c s)"
| "ctx_perform (Cancel_scope j) ds js s = ([], s\<lparr>xs_scopes := insert j (xs_scopes s)\<rparr>)"
| "ctx_perform (Cancel_future j) ds js s = ([], ctx_cancel_future j s)"
| "ctx_perform (Track c j) ds js s = ctx_track c j s"

section \<open>Contexts among threads\<close>

definition put_acts :: "nat \<Rightarrow> ctx_act list \<Rightarrow> xsys \<Rightarrow> xsys" where
  "put_acts h as s = s\<lparr>xs_acts := (xs_acts s)(h := as)\<rparr>"

inductive ctx_step :: "xsys \<Rightarrow> xsys \<Rightarrow> bool" where
  xs_root: "xs_acts s h = [] \<Longrightarrow> ctx_step s (put_ctx (xs_next s) (ctx_new None) (s\<lparr>xs_next := Suc (xs_next s)\<rparr>))"
| xs_child: "xs_acts s h = [] \<Longrightarrow> p < xs_next s \<Longrightarrow>
     ctx_step s (put_acts h [Add_child p (xs_next s)] (put_ctx (xs_next s) (ctx_new (Some p)) (s\<lparr>xs_next := Suc (xs_next s)\<rparr>)))"
| xs_submit: "xs_acts s h = [] \<Longrightarrow> c < xs_next s \<Longrightarrow> ctx_submit_check c s \<Longrightarrow> xs_of s j = None \<Longrightarrow>
     ctx_step s (put_acts h [Track c j] (s\<lparr>xs_of := (xs_of s)(j \<mapsto> c)\<rparr>))"
| xs_cancel: "xs_acts s h = [] \<Longrightarrow> c < xs_next s \<Longrightarrow> ctx_step s (put_acts h [Cancel_ctx c] s)"
| xs_turn: "xs_acts s h = x # as \<Longrightarrow> (\<And>c. x = Cancel_ctx c \<Longrightarrow> set ds = x_children (xs_ctx s c) \<and> set js = x_futures (xs_ctx s c)) \<Longrightarrow>
     ctx_perform x ds js s = (new, s') \<Longrightarrow>
     ctx_step s (put_acts h (new @ as) s')"
| xs_completed: "xs_of s j \<noteq> None \<Longrightarrow> ctx_step s (s\<lparr>xs_done := insert j (xs_done s)\<rparr>)"
| xs_discard: "j \<in> xs_done s \<Longrightarrow> xs_of s j = Some c \<Longrightarrow> ctx_step s (ctx_discard c j s)"

definition ctx_start :: "xsys \<Rightarrow> bool" where
  "ctx_start s \<longleftrightarrow> xs_next s = 0 \<and> xs_acts s = (\<lambda>h. []) \<and> xs_of s = (\<lambda>j. None) \<and> xs_scopes s = {} \<and> xs_done s = {} \<and> xs_asked s = {}"

text \<open>
  The invariant: whatever hangs below a context is cancelled, registered with it, or on its way; a
  cancelled context has nothing registered.
\<close>

definition busy :: "xsys \<Rightarrow> ctx_act set" where
  "busy s = {x. \<exists>h. x \<in> set (xs_acts s h)}"

definition ctx_inv :: "xsys \<Rightarrow> bool" where
  "ctx_inv s \<longleftrightarrow>
     (\<forall>d p. d < xs_next s \<longrightarrow> x_parent (xs_ctx s d) = Some p \<longrightarrow> p < d \<and>
        (x_cancelled (xs_ctx s d) \<or> d \<in> x_children (xs_ctx s p) \<or> Add_child p d \<in> busy s \<or> Cancel_ctx d \<in> busy s)) \<and>
     (\<forall>c. c < xs_next s \<longrightarrow> x_cancelled (xs_ctx s c) \<longrightarrow> x_children (xs_ctx s c) = {} \<and> x_futures (xs_ctx s c) = {}) \<and>
     (\<forall>d. Detach d \<in> busy s \<longrightarrow> x_cancelled (xs_ctx s d)) \<and>
     (\<forall>j c. xs_of s j = Some c \<longrightarrow> c < xs_next s \<and>
        (j \<in> xs_done s \<or> j \<in> x_futures (xs_ctx s c) \<or> Track c j \<in> busy s \<or>
           (j \<in> xs_scopes s \<or> Cancel_scope j \<in> busy s) \<and> (j \<in> xs_asked s \<or> Cancel_future j \<in> busy s))) \<and>
     (\<forall>p d. Add_child p d \<in> busy s \<longrightarrow> p < xs_next s \<and> d < xs_next s) \<and>
     (\<forall>c. Cancel_ctx c \<in> busy s \<or> Detach c \<in> busy s \<longrightarrow> c < xs_next s) \<and>
     (\<forall>c j. Track c j \<in> busy s \<longrightarrow> c < xs_next s) \<and>
     (\<forall>c. c < xs_next s \<longrightarrow> x_children (xs_ctx s c) \<subseteq> {..< xs_next s})"

lemma ctx_inv_start: "ctx_start s \<Longrightarrow> ctx_inv s"
  by (auto simp: ctx_start_def ctx_inv_def busy_def)

lemma ctx_invD:
  assumes "ctx_inv s"
  shows "d < xs_next s \<Longrightarrow> x_parent (xs_ctx s d) = Some p \<Longrightarrow> p < d"
    and "d < xs_next s \<Longrightarrow> x_parent (xs_ctx s d) = Some p \<Longrightarrow>
      x_cancelled (xs_ctx s d) \<or> d \<in> x_children (xs_ctx s p) \<or> Add_child p d \<in> busy s \<or> Cancel_ctx d \<in> busy s"
    and "c < xs_next s \<Longrightarrow> x_cancelled (xs_ctx s c) \<Longrightarrow> x_children (xs_ctx s c) = {} \<and> x_futures (xs_ctx s c) = {}"
    and "Detach d \<in> busy s \<Longrightarrow> x_cancelled (xs_ctx s d)"
    and "xs_of s j = Some c \<Longrightarrow> c < xs_next s"
    and "xs_of s j = Some c \<Longrightarrow> j \<in> xs_done s \<or> j \<in> x_futures (xs_ctx s c) \<or> Track c j \<in> busy s \<or>
           (j \<in> xs_scopes s \<or> Cancel_scope j \<in> busy s) \<and> (j \<in> xs_asked s \<or> Cancel_future j \<in> busy s)"
    and "Add_child p d \<in> busy s \<Longrightarrow> p < xs_next s" and "Add_child p d \<in> busy s \<Longrightarrow> d < xs_next s"
    and "Cancel_ctx c \<in> busy s \<Longrightarrow> c < xs_next s" and "Detach c \<in> busy s \<Longrightarrow> c < xs_next s"
    and "Track c j \<in> busy s \<Longrightarrow> c < xs_next s"
    and "c < xs_next s \<Longrightarrow> d \<in> x_children (xs_ctx s c) \<Longrightarrow> d < xs_next s"
  using assms unfolding ctx_inv_def by blast+

lemma ctx_invI:
  assumes "\<And>d p. d < xs_next s \<Longrightarrow> x_parent (xs_ctx s d) = Some p \<Longrightarrow> p < d"
    and "\<And>d p. d < xs_next s \<Longrightarrow> x_parent (xs_ctx s d) = Some p \<Longrightarrow>
      x_cancelled (xs_ctx s d) \<or> d \<in> x_children (xs_ctx s p) \<or> Add_child p d \<in> busy s \<or> Cancel_ctx d \<in> busy s"
    and "\<And>c. c < xs_next s \<Longrightarrow> x_cancelled (xs_ctx s c) \<Longrightarrow> x_children (xs_ctx s c) = {} \<and> x_futures (xs_ctx s c) = {}"
    and "\<And>d. Detach d \<in> busy s \<Longrightarrow> x_cancelled (xs_ctx s d)"
    and "\<And>j c. xs_of s j = Some c \<Longrightarrow> c < xs_next s"
    and "\<And>j c. xs_of s j = Some c \<Longrightarrow> j \<in> xs_done s \<or> j \<in> x_futures (xs_ctx s c) \<or> Track c j \<in> busy s \<or>
           (j \<in> xs_scopes s \<or> Cancel_scope j \<in> busy s) \<and> (j \<in> xs_asked s \<or> Cancel_future j \<in> busy s)"
    and "\<And>p d. Add_child p d \<in> busy s \<Longrightarrow> p < xs_next s \<and> d < xs_next s"
    and "\<And>c. Cancel_ctx c \<in> busy s \<or> Detach c \<in> busy s \<Longrightarrow> c < xs_next s"
    and "\<And>c j. Track c j \<in> busy s \<Longrightarrow> c < xs_next s"
    and "\<And>c d. c < xs_next s \<Longrightarrow> d \<in> x_children (xs_ctx s c) \<Longrightarrow> d < xs_next s"
  shows "ctx_inv s"
proof -
  have "\<forall>d p. d < xs_next s \<longrightarrow> x_parent (xs_ctx s d) = Some p \<longrightarrow> p < d \<and>
        (x_cancelled (xs_ctx s d) \<or> d \<in> x_children (xs_ctx s p) \<or> Add_child p d \<in> busy s \<or> Cancel_ctx d \<in> busy s)"
    using assms(1,2) by blast
  moreover have "\<forall>c. c < xs_next s \<longrightarrow> x_cancelled (xs_ctx s c) \<longrightarrow> x_children (xs_ctx s c) = {} \<and> x_futures (xs_ctx s c) = {}"
    using assms(3) by blast
  moreover have "\<forall>d. Detach d \<in> busy s \<longrightarrow> x_cancelled (xs_ctx s d)" using assms(4) by blast
  moreover have "\<forall>j c. xs_of s j = Some c \<longrightarrow> c < xs_next s \<and>
        (j \<in> xs_done s \<or> j \<in> x_futures (xs_ctx s c) \<or> Track c j \<in> busy s \<or>
           (j \<in> xs_scopes s \<or> Cancel_scope j \<in> busy s) \<and> (j \<in> xs_asked s \<or> Cancel_future j \<in> busy s))"
    using assms(5,6) by blast
  moreover have "\<forall>p d. Add_child p d \<in> busy s \<longrightarrow> p < xs_next s \<and> d < xs_next s" using assms(7) by blast
  moreover have "\<forall>c. Cancel_ctx c \<in> busy s \<or> Detach c \<in> busy s \<longrightarrow> c < xs_next s" using assms(8) by blast
  moreover have "\<forall>c j. Track c j \<in> busy s \<longrightarrow> c < xs_next s" using assms(9) by blast
  moreover have "\<forall>c. c < xs_next s \<longrightarrow> x_children (xs_ctx s c) \<subseteq> {..< xs_next s}" using assms(10) by blast
  ultimately show ?thesis unfolding ctx_inv_def by - (intro conjI; assumption)
qed

lemma busy_put: "busy (put_acts h as s) = set as \<union> {x. \<exists>g. g \<noteq> h \<and> x \<in> set (xs_acts s g)}"
  by (auto simp: busy_def put_acts_def split: if_splits)

lemma put_acts_simps [simp]:
  "xs_ctx (put_acts h as s) = xs_ctx s" "xs_next (put_acts h as s) = xs_next s" "xs_scopes (put_acts h as s) = xs_scopes s"
  "xs_done (put_acts h as s) = xs_done s" "xs_asked (put_acts h as s) = xs_asked s" "xs_of (put_acts h as s) = xs_of s"
  by (simp_all add: put_acts_def)

lemma put_ctx_simps [simp]:
  "xs_ctx (put_ctx c x s) = (xs_ctx s)(c := x)" "xs_next (put_ctx c x s) = xs_next s" "xs_scopes (put_ctx c x s) = xs_scopes s"
  "xs_done (put_ctx c x s) = xs_done s" "xs_asked (put_ctx c x s) = xs_asked s" "xs_of (put_ctx c x s) = xs_of s"
  "xs_acts (put_ctx c x s) = xs_acts s" "busy (put_ctx c x s) = busy s"
  by (simp_all add: put_ctx_def busy_def)


lemma busy_idle: "xs_acts s h = [] \<Longrightarrow> busy (put_acts h as s) = set as \<union> busy s"
  unfolding busy_put by (auto simp: busy_def) (metis empty_iff list.set(1))

lemma busy_turn: "xs_acts s h = x # as \<Longrightarrow> xs_acts s' = xs_acts s \<Longrightarrow> busy s \<subseteq> insert x (busy (put_acts h (new @ as) s'))"
  unfolding busy_put by (auto simp: busy_def) (metis set_ConsD)

lemma busy_turn_back: "xs_acts s h = x # as \<Longrightarrow> xs_acts s' = xs_acts s \<Longrightarrow> busy (put_acts h (new @ as) s') \<subseteq> set new \<union> busy s"
  unfolding busy_put by (auto simp: busy_def) (metis list.set_intros(2))

lemma busy_head: "xs_acts s h = x # as \<Longrightarrow> x \<in> busy s"
  by (auto simp: busy_def intro: exI [of _ h])

lemma busy_of_record [simp]:
  "busy (s\<lparr>xs_next := n\<rparr>) = busy s" "busy (s\<lparr>xs_of := f\<rparr>) = busy s" "busy (s\<lparr>xs_done := u\<rparr>) = busy s"
  "busy (s\<lparr>xs_scopes := u\<rparr>) = busy s" "busy (s\<lparr>xs_asked := u\<rparr>) = busy s"
  by (simp_all add: busy_def)

text \<open>What a step of one thread may change.\<close>

lemma ctx_inv_change:
  assumes i: "ctx_inv s" and nx: "xs_next s' = xs_next s" and jobs_of: "xs_of s' = xs_of s"
    and par: "\<And>d. x_parent (xs_ctx s' d) = x_parent (xs_ctx s d)"
    and can: "\<And>d. x_cancelled (xs_ctx s d) \<Longrightarrow> x_cancelled (xs_ctx s' d)"
    and ch: "\<And>p d. d \<in> x_children (xs_ctx s p) \<Longrightarrow> d \<in> x_children (xs_ctx s' p) \<or> x_cancelled (xs_ctx s' d) \<or> Cancel_ctx d \<in> busy s'"
    and ba: "\<And>p d. Add_child p d \<in> busy s \<Longrightarrow> Add_child p d \<in> busy s' \<or> d \<in> x_children (xs_ctx s' p) \<or> Cancel_ctx d \<in> busy s'"
    and bc: "\<And>d. Cancel_ctx d \<in> busy s \<Longrightarrow> Cancel_ctx d \<in> busy s' \<or> x_cancelled (xs_ctx s' d)"
    and empty: "\<And>c. c < xs_next s \<Longrightarrow> x_cancelled (xs_ctx s' c) \<Longrightarrow> x_children (xs_ctx s' c) = {} \<and> x_futures (xs_ctx s' c) = {}"
    and det: "\<And>d. Detach d \<in> busy s' \<Longrightarrow> Detach d \<in> busy s \<or> x_cancelled (xs_ctx s' d) \<and> d < xs_next s"
    and dn: "xs_done s \<subseteq> xs_done s'"
    and fu: "\<And>j c. j \<in> x_futures (xs_ctx s c) \<Longrightarrow> j \<in> x_futures (xs_ctx s' c) \<or> j \<in> xs_done s' \<or> Cancel_scope j \<in> busy s' \<and> Cancel_future j \<in> busy s'"
    and tr: "\<And>j c. Track c j \<in> busy s \<Longrightarrow> Track c j \<in> busy s' \<or> j \<in> x_futures (xs_ctx s' c) \<or> Cancel_scope j \<in> busy s' \<and> Cancel_future j \<in> busy s'"
    and sc: "\<And>j. j \<in> xs_scopes s \<or> Cancel_scope j \<in> busy s \<Longrightarrow> j \<in> xs_scopes s' \<or> Cancel_scope j \<in> busy s'"
    and ak: "\<And>j. j \<in> xs_asked s \<or> Cancel_future j \<in> busy s \<Longrightarrow> j \<in> xs_asked s' \<or> Cancel_future j \<in> busy s' \<or> j \<in> xs_done s'"
    and new: "\<And>p d. Add_child p d \<in> busy s' \<Longrightarrow> Add_child p d \<in> busy s"
      "\<And>c. Cancel_ctx c \<in> busy s' \<Longrightarrow> Cancel_ctx c \<in> busy s \<or> c < xs_next s" "\<And>c j. Track c j \<in> busy s' \<Longrightarrow> Track c j \<in> busy s"
      "\<And>c d. d \<in> x_children (xs_ctx s' c) \<Longrightarrow> d \<in> x_children (xs_ctx s c) \<or> d < xs_next s"
  shows "ctx_inv s'"
proof -
  note D = ctx_invD [OF i]
  show ?thesis
  proof (rule ctx_invI, goal_cases)
    case (1 d p)
    then show ?case using D(1) by (simp add: par nx)
  next
    case (2 d p)
    with D(2) [of d p] can [of d] ch [of d p] ba [of p d] bc [of d] show ?case by (auto simp: par nx)
  next
    case (3 c)
    then show ?case using empty by (simp add: nx)
  next
    case (4 d)
    then show ?case using D(4) can det by blast
  next
    case (5 j c)
    then show ?case using D(5) by (simp add: jobs_of nx)
  next
    case (6 j c)
    with D(6) [of j c] fu [of j c] tr [of c j] sc [of j] ak [of j] dn show ?case by (auto simp: jobs_of)
  next
    case (7 p d)
    then show ?case using D(7,8) new(1) nx by metis
  next
    case (8 c)
    then show ?case using D(9,10) new(2) det nx by metis
  next
    case (9 c j)
    then show ?case using D(11) new(3) by (simp add: nx) blast
  next
    case (10 c d)
    then show ?case using D(12) new(4) by (metis nx)
  qed
qed

text \<open>A thread begins a call.\<close>

lemma ctx_inv_begin:
  assumes i: "ctx_inv s" and h: "xs_acts s h = []"
  shows "ctx_inv (put_ctx (xs_next s) (ctx_new None) (s\<lparr>xs_next := Suc (xs_next s)\<rparr>))"
    and "p < xs_next s \<Longrightarrow>
      ctx_inv (put_acts h [Add_child p (xs_next s)] (put_ctx (xs_next s) (ctx_new (Some p)) (s\<lparr>xs_next := Suc (xs_next s)\<rparr>)))"
    and "c < xs_next s \<Longrightarrow> xs_of s j = None \<Longrightarrow> ctx_inv (put_acts h [Track c j] (s\<lparr>xs_of := (xs_of s)(j \<mapsto> c)\<rparr>))"
    and "c < xs_next s \<Longrightarrow> ctx_inv (put_acts h [Cancel_ctx c] s)"
proof -
  note D = ctx_invD [OF i]
  have idle: "busy (put_acts h as (put_ctx (xs_next s) x (s\<lparr>xs_next := Suc (xs_next s)\<rparr>))) = set as \<union> busy s"
    "busy (put_acts h as (s\<lparr>xs_of := f\<rparr>)) = set as \<union> busy s" "busy (put_acts h as s) = set as \<union> busy s" for as x f
    using h by (subst busy_idle; simp)+
  have lt: "d < xs_next s \<Longrightarrow> d \<noteq> xs_next s" for d by simp
  show "ctx_inv (put_ctx (xs_next s) (ctx_new None) (s\<lparr>xs_next := Suc (xs_next s)\<rparr>))"
  proof (rule ctx_invI, goal_cases)
    case (2 d p)
    then show ?case using D(1,2) [of d p] by (auto simp: ctx_new_def split: if_splits)
  next
    case (4 d)
    then show ?case using D(4,10) [of d] by (auto simp: ctx_new_def)
  next
    case (6 j c)
    then show ?case using D(5,6) [of j c] by auto
  next
    case (10 c d)
    then show ?case using D(12) [of c d] by (auto simp: ctx_new_def less_Suc_eq split: if_splits)
  qed (use D(1,3,5,7-11) in \<open>auto simp: ctx_new_def less_Suc_eq split: if_splits\<close>)
  show "ctx_inv (put_acts h [Add_child p (xs_next s)] (put_ctx (xs_next s) (ctx_new (Some p)) (s\<lparr>xs_next := Suc (xs_next s)\<rparr>)))"
    if p: "p < xs_next s"
  proof (rule ctx_invI, goal_cases)
    case (2 d q)
    then show ?case using D(1,2) [of d q] by (auto simp: ctx_new_def idle split: if_splits)
  next
    case (4 d)
    then show ?case using D(4,10) [of d] by (auto simp: ctx_new_def idle)
  next
    case (6 j c)
    then show ?case using D(5,6) [of j c] by (auto simp: idle)
  next
    case (10 c d)
    then show ?case using D(12) [of c d] by (auto simp: ctx_new_def less_Suc_eq idle split: if_splits)
  qed (use p D(1,3,5,7-11) in \<open>auto simp: ctx_new_def less_Suc_eq idle split: if_splits\<close>)
  show "ctx_inv (put_acts h [Track c j] (s\<lparr>xs_of := (xs_of s)(j \<mapsto> c)\<rparr>))" if c: "c < xs_next s" and "xs_of s j = None"
  proof (rule ctx_invI, goal_cases)
    case (2 d q)
    then show ?case using D(2) [of d q] by (auto simp: idle)
  next
    case (6 k b)
    then show ?case using D(6) [of k b] by (auto simp: idle split: if_splits)
  qed (use c D(1,3-5,7-12) in \<open>auto simp: idle split: if_splits\<close>)
  show "ctx_inv (put_acts h [Cancel_ctx c] s)" if c: "c < xs_next s"
    by (rule ctx_inv_change [OF i]) (use c D(3) idle in auto)
qed


lemma ctx_perform_acts: "ctx_perform x ds js s = (new, s') \<Longrightarrow> xs_acts s' = xs_acts s"
  by (cases x) (auto simp: ctx_add_child_def ctx_cancel_def ctx_remove_child_def ctx_cancel_future_def ctx_track_def
      put_ctx_def Let_def split: if_splits option.splits)

lemma ctx_inv_turn:
  assumes i: "ctx_inv s" and h: "xs_acts s h = x # as"
    and ds: "\<And>c. x = Cancel_ctx c \<Longrightarrow> set ds = x_children (xs_ctx s c) \<and> set js = x_futures (xs_ctx s c)"
    and p: "ctx_perform x ds js s = (new, s')"
  shows "ctx_inv (put_acts h (new @ as) s')"
proof -
  note D = ctx_invD [OF i]
  define b where "b = busy (put_acts h (new @ as) s')"
  have old: "y \<in> busy s \<Longrightarrow> y \<noteq> x \<Longrightarrow> y \<in> b" for y
    using busy_turn [OF h ctx_perform_acts [OF p], of new] by (auto simp: b_def)
  have new: "y \<in> set new \<Longrightarrow> y \<in> b" for y by (simp add: b_def busy_put)
  have origin: "y \<in> b \<Longrightarrow> y \<in> set new \<or> y \<in> busy s" for y
    using busy_turn_back [OF h ctx_perform_acts [OF p], of new] by (auto simp: b_def)
  have x: "x \<in> busy s" by (rule busy_head [OF h])
  show ?thesis
  proof (cases x)
    case (Add_child q d)
    show ?thesis
    proof (cases "x_cancelled (xs_ctx s q)")
      case True
      then have "new = [Cancel_ctx d]" "s' = s" using p Add_child by (auto simp: ctx_add_child_def Let_def)
      then show ?thesis
        by (intro ctx_inv_change [OF i]; (fold b_def)?) (use D(3,8) old new origin x Add_child in \<open>(auto; blast)\<close>)+
    next
      case False
      then have s': "new = []" "s' = put_ctx q ((xs_ctx s q)\<lparr>x_children := insert d (x_children (xs_ctx s q))\<rparr>) s"
        using p Add_child by (auto simp: ctx_add_child_def Let_def)
      then show ?thesis
        by (intro ctx_inv_change [OF i]; (fold b_def)?) (use False D(3,8) old new origin x Add_child in \<open>(auto split: if_splits; blast)\<close>)+
    qed
  next
    case (Cancel_ctx c)
    show ?thesis
    proof (cases "x_cancelled (xs_ctx s c)")
      case True
      then have "new = []" "s' = s" using p Cancel_ctx by (auto simp: ctx_cancel_def Let_def)
      then show ?thesis
        by (intro ctx_inv_change [OF i]; (fold b_def)?) (use True D(3) old new origin x Cancel_ctx in \<open>(auto; blast)\<close>)+
    next
      case False
      then have n: "new = Detach c # map Cancel_ctx ds @ map Cancel_scope js @ map Cancel_future js"
        and s': "s' = put_ctx c ((xs_ctx s c)\<lparr>x_cancelled := True, x_children := {}, x_futures := {}\<rparr>) s"
        using p Cancel_ctx by (auto simp: ctx_cancel_def Let_def)
      have c: "c < xs_next s" using D(9) x Cancel_ctx by blast
      have in_new: "d \<in> x_children (xs_ctx s c) \<Longrightarrow> Cancel_ctx d \<in> b"
        "j \<in> x_futures (xs_ctx s c) \<Longrightarrow> Cancel_scope j \<in> b \<and> Cancel_future j \<in> b" for d j
        using ds [OF Cancel_ctx] new by (auto simp: n)
      have origin': "Cancel_ctx d \<in> b \<Longrightarrow> Cancel_ctx d \<in> busy s \<or> d < xs_next s" "Detach d \<in> b \<Longrightarrow> Detach d \<in> busy s \<or> d = c"
        "Add_child q d \<in> b \<Longrightarrow> Add_child q d \<in> busy s" "Track q j \<in> b \<Longrightarrow> Track q j \<in> busy s" for d q j
        using origin [of "Cancel_ctx d"] origin [of "Detach d"] origin [of "Add_child q d"] origin [of "Track q j"] ds [OF Cancel_ctx] D(12) [OF c, of d]
        by (auto simp: n)
      have s_simps: "xs_ctx s' = (xs_ctx s)(c := (xs_ctx s c)\<lparr>x_cancelled := True, x_children := {}, x_futures := {}\<rparr>)"
        by (simp add: s')
      have other: "xs_next s' = xs_next s" "xs_of s' = xs_of s" "xs_scopes s' = xs_scopes s" "xs_done s' = xs_done s" "xs_asked s' = xs_asked s"
        by (simp_all add: s')
      show ?thesis
        by (intro ctx_inv_change [OF i]; (fold b_def)?; (simp only: put_acts_simps s_simps other)?)
          (use D(3) in_new origin' old c Cancel_ctx in \<open>(auto split: if_splits; blast)\<close>)+
    qed
  next
    case (Detach c)
    have c: "x_cancelled (xs_ctx s c)" using D(4) x Detach by blast
    have s': "new = []" "s' = (case x_parent (xs_ctx s c) of None \<Rightarrow> s | Some p \<Rightarrow> ctx_remove_child p c s)" using p Detach by auto
    show ?thesis
    proof (cases "x_parent (xs_ctx s c)")
      case None
      then show ?thesis using s'
        by (intro ctx_inv_change [OF i]; (fold b_def)?) (use D(3) old origin Detach in \<open>(auto; blast)\<close>)+
    next
      case (Some q)
      then have "s' = put_ctx q ((xs_ctx s q)\<lparr>x_children := x_children (xs_ctx s q) - {c}\<rparr>) s"
        using s' by (simp add: ctx_remove_child_def Let_def)
      then show ?thesis using s'(1)
        by (intro ctx_inv_change [OF i]; (fold b_def)?) (use c D(3) old origin Detach in \<open>(auto split: if_splits; blast)\<close>)+
    qed
  next
    case (Cancel_scope j)
    then have "new = []" "s' = s\<lparr>xs_scopes := insert j (xs_scopes s)\<rparr>" using p by auto
    then show ?thesis
      by (intro ctx_inv_change [OF i]; (fold b_def)?) (use D(3) old origin Cancel_scope in \<open>(auto; blast)\<close>)+
  next
    case (Cancel_future j)
    then have "new = []" "s' = (if j \<in> xs_done s then s else s\<lparr>xs_asked := insert j (xs_asked s)\<rparr>)"
      using p by (auto simp: ctx_cancel_future_def)
    then show ?thesis
      by (intro ctx_inv_change [OF i]; (fold b_def)?) (use D(3) old origin Cancel_future in \<open>(auto split: if_splits; blast)\<close>)+
  next
    case (Track c j)
    show ?thesis
    proof (cases "x_cancelled (xs_ctx s c)")
      case True
      then have "new = [Cancel_scope j, Cancel_future j]" "s' = s" using p Track by (auto simp: ctx_track_def Let_def)
      then show ?thesis
        by (intro ctx_inv_change [OF i]; (fold b_def)?) (use D(3) old new origin Track in \<open>(auto; blast)\<close>)+
    next
      case False
      then have "new = []" "s' = put_ctx c ((xs_ctx s c)\<lparr>x_futures := insert j (x_futures (xs_ctx s c))\<rparr>) s"
        using p Track by (auto simp: ctx_track_def Let_def)
      then show ?thesis
        by (intro ctx_inv_change [OF i]; (fold b_def)?) (use False D(3) old new origin Track in \<open>(auto split: if_splits; blast)\<close>)+
    qed
  qed
qed


lemma ctx_inv_step: "ctx_inv s \<Longrightarrow> ctx_step s s' \<Longrightarrow> ctx_inv s'"
proof (erule ctx_step.cases, goal_cases)
  case (1 s1 h)
  then show ?case by (metis ctx_inv_begin(1))
next
  case (2 s1 h p)
  then show ?case by (metis ctx_inv_begin(2))
next
  case (3 s1 h c j)
  then show ?case by (metis ctx_inv_begin(3))
next
  case (4 s1 h c)
  then show ?case by (metis ctx_inv_begin(4))
next
  case (5 s1 h x as ds js new s2)
  then have "ctx_inv s1" by simp
  then show ?case unfolding 5(3) by (rule ctx_inv_turn [OF _ 5(4) _ 5(6)]) (rule 5(5))
next
  case (6 s1 j)
  note D = ctx_invD [OF 6(1)]
  show ?case unfolding 6(2,3) by (rule ctx_inv_change [OF 6(1)]) (use 6 D(3) in auto)
next
  case (7 j s1 c)
  note D = ctx_invD [OF 7(1)]
  show ?case unfolding 7(2,3) ctx_discard_def Let_def
    by (rule ctx_inv_change [OF 7(1)]) (use 7 D(3) in \<open>auto split: if_splits\<close>)
qed

interpretation contexts: invariant_system ctx_start ctx_step ctx_inv
  by unfold_locales (auto intro: ctx_inv_start ctx_inv_step)


section \<open>One call by itself\<close>

fun cancel_children :: "ctx_act \<Rightarrow> xsys \<Rightarrow> ctx_id list" where
  "cancel_children (Cancel_ctx c) s = sorted_list_of_set (x_children (xs_ctx s c))"
| "cancel_children _ s = []"

fun cancel_futures :: "ctx_act \<Rightarrow> xsys \<Rightarrow> job list" where
  "cancel_futures (Cancel_ctx c) s = sorted_list_of_set (x_futures (xs_ctx s c))"
| "cancel_futures _ s = []"

fun ctx_turns :: "nat \<Rightarrow> ctx_act list \<Rightarrow> xsys \<Rightarrow> ctx_act list \<times> xsys" where
  "ctx_turns 0 as s = (as, s)"
| "ctx_turns (Suc n) [] s = ([], s)"
| "ctx_turns (Suc n) (x # as) s =
     (case ctx_perform x (cancel_children x s) (cancel_futures x s) s of (new, s) \<Rightarrow> ctx_turns n (new @ as) s)"

text \<open>A bound on the turns: what is to be done, and what the contexts that are not cancelled can add.\<close>

fun act_weight :: "ctx_act \<Rightarrow> nat" where
  "act_weight (Add_child p d) = 2"
| "act_weight (Track c j) = 3"
| "act_weight _ = 1"

definition ctx_weight :: "ctx \<Rightarrow> nat" where
  "ctx_weight x = (if x_cancelled x then 0 else 2 + card (x_children x) + 2 * card (x_futures x))"

definition ctx_fuel :: "ctx_act list \<Rightarrow> xsys \<Rightarrow> nat" where
  "ctx_fuel as s = sum_list (map act_weight as) + (\<Sum>c < xs_next s. ctx_weight (xs_ctx s c))"

fun act_ok :: "nat \<Rightarrow> ctx_act \<Rightarrow> bool" where
  "act_ok n (Add_child p d) \<longleftrightarrow> p < n \<and> d < n"
| "act_ok n (Cancel_ctx c) \<longleftrightarrow> c < n"
| "act_ok n (Track c j) \<longleftrightarrow> c < n"
| "act_ok n _ \<longleftrightarrow> True"

definition ctx_tree_ok :: "xsys \<Rightarrow> bool" where
  "ctx_tree_ok s \<longleftrightarrow> (\<forall>c. x_children (xs_ctx s c) \<subseteq> {..< xs_next s} \<and> finite (x_futures (xs_ctx s c)))"

lemma sum_upd_less:
  "c < (n :: nat) \<Longrightarrow> (\<Sum>i < n. w ((f(c := x)) i)) + w (f c) = (\<Sum>i < n. w (f i)) + (w x :: nat)"
proof -
  assume c: "c < n"
  have "(\<Sum>i < n. w (g i)) = w (g c) + (\<Sum>i \<in> {..< n} - {c}. w (g i))" for g :: "nat \<Rightarrow> 'a"
    using c by (simp add: sum.remove)
  from this [of f] this [of "f(c := x)"] show ?thesis by simp
qed

lemma ctx_fuel_put: "c < xs_next s \<Longrightarrow> ctx_fuel as (put_ctx c x s) + ctx_weight (xs_ctx s c) = ctx_fuel as s + ctx_weight x"
  using sum_upd_less [of c "xs_next s" ctx_weight "xs_ctx s" x] by (simp add: ctx_fuel_def)

lemma ctx_fuel_outside: "\<not> c < xs_next s \<Longrightarrow> ctx_fuel as (put_ctx c x s) = ctx_fuel as s"
  by (simp add: ctx_fuel_def)

lemma ctx_fuel_app: "ctx_fuel (as @ bs) s = sum_list (map act_weight as) + ctx_fuel bs s"
  by (simp add: ctx_fuel_def)

lemma ctx_fuel_cons: "ctx_fuel (y # bs) s = act_weight y + ctx_fuel bs s"
  by (simp add: ctx_fuel_def)

lemma act_weight_pos: "0 < act_weight x"
  by (cases x) simp_all

lemma weight_maps [simp]:
  "sum_list (map (act_weight \<circ> Cancel_ctx) ds) = length ds" "sum_list (map (act_weight \<circ> Cancel_scope) js) = length js"
  "sum_list (map (act_weight \<circ> Cancel_future) js) = length js"
  by (induction ds; simp) (induction js; simp)+

lemma ctx_perform_tree:
  assumes ok: "ctx_tree_ok s" and x: "act_ok (xs_next s) x"
    and p: "ctx_perform x ds js s = (new, s')"
    and ds: "\<And>c. x = Cancel_ctx c \<Longrightarrow> set ds = x_children (xs_ctx s c) \<and> set js = x_futures (xs_ctx s c)"
  shows "ctx_tree_ok s'" and "xs_next s' = xs_next s" and "\<forall>y \<in> set new. act_ok (xs_next s) y"
    and "x_cancelled (xs_ctx s c) \<Longrightarrow> x_cancelled (xs_ctx s' c)"
    and "x = Cancel_ctx c \<Longrightarrow> x_cancelled (xs_ctx s' c)"
  using assms
  by (cases x; auto simp: ctx_tree_ok_def ctx_add_child_def ctx_cancel_def ctx_remove_child_def ctx_cancel_future_def ctx_track_def
      put_ctx_def Let_def split: if_splits option.splits)+


lemma ctx_fuel_le:
  assumes "ctx_weight x \<le> ctx_weight (xs_ctx s c) + k"
  shows "ctx_fuel bs (put_ctx c x s) \<le> ctx_fuel bs s + k"
  using ctx_fuel_put [of c s bs x] ctx_fuel_outside [of c s bs x] assms by (cases "c < xs_next s") auto

lemma ctx_fuel_perform:
  assumes ok: "ctx_tree_ok s" and x: "act_ok (xs_next s) x"
    and p: "ctx_perform x (cancel_children x s) (cancel_futures x s) s = (new, s')"
  shows "ctx_fuel (new @ as) s' < ctx_fuel (x # as) s"
proof -
  have fin: "finite (x_children (xs_ctx s c))" "finite (x_futures (xs_ctx s c))" for c
    using ok by (auto simp: ctx_tree_ok_def intro: finite_subset)
  note add = ctx_fuel_cons
  show ?thesis
  proof (cases x)
    case (Add_child q d)
    have "card (insert d A) \<le> Suc (card A)" if "finite A" for A :: "nat set" using that by (simp add: card_insert_if)
    then have "ctx_weight ((xs_ctx s q)\<lparr>x_children := insert d (x_children (xs_ctx s q))\<rparr>) \<le> ctx_weight (xs_ctx s q) + 1"
      using fin by (simp add: ctx_weight_def)
    from ctx_fuel_le [OF this, where bs = as] p show ?thesis
      by (auto simp: Add_child ctx_add_child_def Let_def add split: if_splits)
  next
    case (Cancel_ctx c)
    show ?thesis
    proof (cases "x_cancelled (xs_ctx s c)")
      case True
      then show ?thesis using p by (auto simp: Cancel_ctx ctx_cancel_def Let_def add)
    next
      case False
      let ?x = "(xs_ctx s c)\<lparr>x_cancelled := True, x_children := {}, x_futures := {}\<rparr>"
      have c: "c < xs_next s" using x by (simp add: Cancel_ctx)
      have "ctx_fuel as (put_ctx c ?x s) + (2 + card (x_children (xs_ctx s c)) + 2 * card (x_futures (xs_ctx s c))) = ctx_fuel as s"
        using ctx_fuel_put [OF c, of as ?x] False by (simp add: ctx_weight_def)
      moreover have "new = Detach c # map Cancel_ctx (cancel_children x s) @ map Cancel_scope (cancel_futures x s) @
          map Cancel_future (cancel_futures x s)" "s' = put_ctx c ?x s"
        using p False by (auto simp: Cancel_ctx ctx_cancel_def Let_def)
      ultimately show ?thesis
        using fin [of c] by (simp add: ctx_fuel_app add Cancel_ctx)
    qed
  next
    case (Detach c)
    have "ctx_weight ((xs_ctx s q)\<lparr>x_children := x_children (xs_ctx s q) - {c}\<rparr>) \<le> ctx_weight (xs_ctx s q) + 0" for q
      using fin by (simp add: ctx_weight_def card_Diff1_le)
    from ctx_fuel_le [OF this, where bs = as] p show ?thesis
      by (auto simp: Detach ctx_remove_child_def Let_def add less_Suc_eq_le split: option.splits)
  next
    case (Cancel_scope j)
    then show ?thesis using p by (auto simp: add) (simp add: ctx_fuel_def)
  next
    case (Cancel_future j)
    then show ?thesis using p by (auto simp: add ctx_cancel_future_def) (simp add: ctx_fuel_def)
  next
    case (Track c j)
    have "card (insert j A) \<le> Suc (card A)" if "finite A" for A :: "nat set" using that by (simp add: card_insert_if)
    then have "ctx_weight ((xs_ctx s c)\<lparr>x_futures := insert j (x_futures (xs_ctx s c))\<rparr>) \<le> ctx_weight (xs_ctx s c) + 2"
      using fin [of c] by (force simp: ctx_weight_def)
    from ctx_fuel_le [OF this, where bs = as] p show ?thesis
      by (auto simp: Track ctx_track_def Let_def add split: if_splits)
  qed
qed

lemma ctx_turns_end:
  "ctx_tree_ok s \<Longrightarrow> \<forall>x \<in> set as. act_ok (xs_next s) x \<Longrightarrow> ctx_fuel as s \<le> n \<Longrightarrow>
   \<exists>s'. ctx_turns n as s = ([], s') \<and> (\<forall>c. x_cancelled (xs_ctx s c) \<or> Cancel_ctx c \<in> set as \<longrightarrow> x_cancelled (xs_ctx s' c))"
proof (induction n as s rule: ctx_turns.induct)
  case (1 as s)
  then have "as = []"
  proof (cases as)
    case (Cons y bs)
    with 1(3) act_weight_pos [of y] show ?thesis by (simp add: ctx_fuel_cons)
  qed simp
  then show ?case by simp
next
  case (3 n x as s)
  obtain new s1 where p: "ctx_perform x (cancel_children x s) (cancel_futures x s) s = (new, s1)" by fastforce
  have x: "act_ok (xs_next s) x" using 3(3) by simp
  have ds: "set (cancel_children x s) = x_children (xs_ctx s c) \<and> set (cancel_futures x s) = x_futures (xs_ctx s c)" if "x = Cancel_ctx c" for c
  proof -
    have "finite (x_children (xs_ctx s c))" "finite (x_futures (xs_ctx s c))"
      using 3(2) by (auto simp: ctx_tree_ok_def intro: finite_subset)
    then show ?thesis by (simp add: that)
  qed
  have T: "ctx_tree_ok s1" "xs_next s1 = xs_next s" "\<forall>y \<in> set new. act_ok (xs_next s) y"
    "x_cancelled (xs_ctx s c) \<Longrightarrow> x_cancelled (xs_ctx s1 c)" "x = Cancel_ctx c \<Longrightarrow> x_cancelled (xs_ctx s1 c)" for c
    using ctx_perform_tree [OF 3(2) x p] ds by blast+
  have "ctx_fuel (new @ as) s1 \<le> n" using ctx_fuel_perform [OF 3(2) x p, of as] 3(4) by simp
  moreover have "\<forall>y \<in> set (new @ as). act_ok (xs_next s1) y" using T(2,3) 3(3) by auto
  ultimately obtain s' where s': "ctx_turns n (new @ as) s1 = ([], s')"
    "\<And>c. x_cancelled (xs_ctx s1 c) \<or> Cancel_ctx c \<in> set (new @ as) \<Longrightarrow> x_cancelled (xs_ctx s' c)"
    using 3(1) [OF p [symmetric] T(1)] by auto
  have "x_cancelled (xs_ctx s' c)" if "x_cancelled (xs_ctx s c) \<or> Cancel_ctx c \<in> set (x # as)" for c
    using that s'(2) T(4,5) by (cases "x = Cancel_ctx c") auto
  then show ?case using s'(1) p by auto
qed simp

lemma ctx_perform_put:
  "ctx_perform x ds js (put_acts h as s) = (case ctx_perform x ds js s of (new, s) \<Rightarrow> (new, put_acts h as s))"
  by (cases x) (auto simp: ctx_add_child_def ctx_cancel_def ctx_remove_child_def ctx_cancel_future_def ctx_track_def
      put_ctx_def put_acts_def Let_def split: option.splits)

text \<open>The calls of one thread without interference are steps of the threads.\<close>

lemma ctx_turns_reach:
  "ctx_turns n as s = ([], s') \<Longrightarrow> ctx_tree_ok s \<Longrightarrow> \<forall>x \<in> set as. act_ok (xs_next s) x \<Longrightarrow>
   reach ctx_step (put_acts h as s) (put_acts h [] s')"
proof (induction n as s rule: ctx_turns.induct)
  case (3 n x as s)
  obtain new s1 where p: "ctx_perform x (cancel_children x s) (cancel_futures x s) s = (new, s1)" by fastforce
  have x: "act_ok (xs_next s) x" using 3(4) by simp
  have ds: "set (cancel_children x s) = x_children (xs_ctx s c) \<and> set (cancel_futures x s) = x_futures (xs_ctx s c)" if "x = Cancel_ctx c" for c
  proof -
    have "finite (x_children (xs_ctx s c))" "finite (x_futures (xs_ctx s c))"
      using 3(3) by (auto simp: ctx_tree_ok_def intro: finite_subset)
    then show ?thesis by (simp add: that)
  qed
  have T: "ctx_tree_ok s1" "xs_next s1 = xs_next s" "\<forall>y \<in> set new. act_ok (xs_next s) y"
    using ctx_perform_tree [OF 3(3) x p] ds by blast+
  have "ctx_step (put_acts h (x # as) s) (put_acts h (new @ as) (put_acts h (x # as) s1))"
    by (rule xs_turn [of _ _ x as "cancel_children x s" "cancel_futures x s"]) (use ds in \<open>auto simp: put_acts_def ctx_perform_put [unfolded put_acts_def] p\<close>)
  then have "reach ctx_step (put_acts h (x # as) s) (put_acts h (new @ as) s1)"
    by (intro reach_one) (simp add: put_acts_def)
  moreover have "reach ctx_step (put_acts h (new @ as) s1) (put_acts h [] s')"
    using 3(1) [OF p [symmetric]] 3(2) T p 3(4) by auto
  ultimately show ?case by (blast intro: reach_trans)
qed auto

text \<open>A run: context 1 below context 0, a task submitted to context 1, then \<open>cancel\<close> of context 0.\<close>

definition ctx_demo :: "nat \<Rightarrow> (ctx_id \<Rightarrow> ctx) \<Rightarrow> job set \<Rightarrow> (job \<Rightarrow> ctx_id option) \<Rightarrow> xsys" where
  "ctx_demo n x b jobs_of = \<lparr>xs_ctx = x, xs_next = n, xs_scopes = b, xs_done = {}, xs_asked = b, xs_of = jobs_of, xs_acts = (\<lambda>h. [])\<rparr>"

definition ctx_at :: "bool \<Rightarrow> bool \<Rightarrow> ctx_id set \<Rightarrow> job set \<Rightarrow> ctx_id \<Rightarrow> ctx" where
  "ctx_at x y ds js = (\<lambda>c. ctx_new None)(0 := \<lparr>x_parent = None, x_cancelled = x, x_children = ds, x_futures = {}\<rparr>,
     1 := \<lparr>x_parent = (if y then Some 0 else None), x_cancelled = x, x_children = {}, x_futures = js\<rparr>)"

lemma ctx_demo_put [simp]: "put_acts h [] (ctx_demo n x b f) = ctx_demo n x b f" "xs_acts (ctx_demo n x b f) = (\<lambda>h. [])"
  by (simp_all add: put_acts_def ctx_demo_def fun_eq_iff)

lemma ctx_demo_run:
  "reach ctx_step (ctx_demo 0 (ctx_at False False {} {}) {} Map.empty) (ctx_demo 2 (ctx_at True True {} {}) {5} [5 \<mapsto> 1])"
proof -
  let ?a = "ctx_demo 0 (ctx_at False False {} {}) {} Map.empty" and ?b = "ctx_demo 1 (ctx_at False False {} {}) {} Map.empty"
    and ?c = "ctx_demo 2 (ctx_at False True {} {}) {} Map.empty" and ?d = "ctx_demo 2 (ctx_at False True {1} {}) {} Map.empty"
    and ?e = "ctx_demo 2 (ctx_at False True {1} {}) {} [5 \<mapsto> 1]" and ?f = "ctx_demo 2 (ctx_at False True {1} {5}) {} [5 \<mapsto> 1]"
    and ?g = "ctx_demo 2 (ctx_at True True {} {}) {5} [5 \<mapsto> 1]"
  note defs = ctx_demo_def ctx_at_def put_ctx_def put_acts_def ctx_new_def fun_eq_iff
  have "ctx_step ?a ?b"
    using xs_root [of ?a 0] by (simp add: defs) (simp add: fun_upd_def if_distrib cong: if_cong)
  moreover have "ctx_step ?b (put_acts 0 [Add_child 0 1] ?c)"
    using xs_child [of ?b 0 0] by (simp add: defs fun_upd_def numeral_2_eq_2 cong: if_cong)
  moreover have "reach ctx_step (put_acts 0 [Add_child 0 1] ?c) (put_acts 0 [] ?d)"
    by (rule ctx_turns_reach [of 3]) (auto simp: numeral_eq_Suc ctx_add_child_def Let_def defs ctx_tree_ok_def)
  ultimately have 1: "reach ctx_step ?a ?d" unfolding ctx_demo_put(1) by (blast intro: reach_trans reach_one)
  have 2: "ctx_step ?d (put_acts 0 [Track 1 5] ?e)"
    using xs_submit [of ?d 0 1 5] by (simp add: defs ctx_submit_check_def)
  have 3: "reach ctx_step (put_acts 0 [Track 1 5] ?e) (put_acts 0 [] ?f)"
    by (rule ctx_turns_reach [of 3]) (auto simp: numeral_eq_Suc ctx_track_def Let_def defs ctx_tree_ok_def)
  have 4: "ctx_step ?f (put_acts 0 [Cancel_ctx 0] ?f)"
    using xs_cancel [of ?f 0 0] by (simp add: ctx_demo_def)
  have 5: "reach ctx_step (put_acts 0 [Cancel_ctx 0] ?f) (put_acts 0 [] ?g)"
  proof (rule ctx_turns_reach)
    show "ctx_turns 9 [Cancel_ctx 0] ?f = ([], ?g)"
      by (simp add: numeral_eq_Suc ctx_cancel_def ctx_remove_child_def ctx_cancel_future_def Let_def put_ctx_def ctx_demo_def ctx_at_def)
        (simp add: fun_eq_iff)
    show "ctx_tree_ok ?f" by (auto simp: ctx_tree_ok_def ctx_demo_def ctx_at_def ctx_new_def)
    show "\<forall>x \<in> set [Cancel_ctx 0]. act_ok (xs_next ?f) x" by (simp add: ctx_demo_def)
  qed
  have 6: "reach ctx_step ?a ?f" by (rule reach_trans [OF 3 [unfolded ctx_demo_put(1)] reach_step [OF 1 2]])
  show ?thesis by (rule reach_trans [OF 5 [unfolded ctx_demo_put(1)] reach_step [OF 6 4]])
qed

section \<open>Properties\<close>

inductive ctx_below :: "xsys \<Rightarrow> ctx_id \<Rightarrow> ctx_id \<Rightarrow> bool" for s where
  below_refl: "ctx_below s c c"
| below_up: "d < xs_next s \<Longrightarrow> x_parent (xs_ctx s d) = Some p \<Longrightarrow> ctx_below s p c \<Longrightarrow> ctx_below s d c"






end
