(* ===== verification/Lifespan.thy ===== *)
theory Lifespan
  imports Asyncio
begin

text \<open>
  \<open>multiloop._lifespan.LifespanManager\<close>: the startup and shutdown protocol between the server
  and the task that runs the application, with its timeouts.  Proved: the states follow the
  diagram of the enum, no wait of the server can hang once the application has ended, what
  startup makes of each way the application behaves, and that a finished shutdown hides the
  failure the application reported.
\<close>

section \<open>State\<close>

datatype lifespan_state =
  UNINITIALIZED | STARTING | RUNNING | STOPPING | STOPPED | FAILED

text \<open>\<open>_lifespan_task\<close>: not created, running, done.\<close>

datatype app_task = NoTask | Live | Finished

text \<open>
  The three events as flags, the two status dictionaries by their keys; the contents of
  \<open>scope["state"]\<close> are a dictionary of strings.
\<close>

record lifespan =
  mode :: string
  lstate :: lifespan_state
  startup_event :: bool
  shutdown_trigger :: bool
  shutdown_event :: bool
  startup_complete :: bool
  startup_failed :: bool
  startup_unsupported :: bool
  startup_message :: string
  startup_exception :: "string option"
  shutdown_complete :: bool
  shutdown_failed :: bool
  shutdown_message :: string
  app_task :: app_task
  startup_sent :: bool
  scope_state :: "(string \<times> string) list"
  frozen_state :: "(string \<times> string) list option"

definition lifespan_new :: "string \<Rightarrow> lifespan" where
  "lifespan_new m = \<lparr>mode = m, lstate = UNINITIALIZED, startup_event = False, shutdown_trigger = False,
     shutdown_event = False, startup_complete = False, startup_failed = False, startup_unsupported = False,
     startup_message = [], startup_exception = None, shutdown_complete = False, shutdown_failed = False,
     shutdown_message = [], app_task = NoTask, startup_sent = False, scope_state = [], frozen_state = None\<rparr>"

text \<open>The property \<open>lifespan_state\<close>.\<close>

definition shared_state :: "lifespan \<Rightarrow> (string \<times> string) list" where
  "shared_state s = (case frozen_state s of Some d \<Rightarrow> d | None \<Rightarrow> scope_state s)"

section \<open>The application's side\<close>

datatype received = Startup | Shutdown

text \<open>\<open>_lifespan_receive\<close>; \<open>None\<close>: it waits for \<open>_shutdown_trigger\<close>.\<close>

definition lifespan_receive :: "lifespan \<Rightarrow> received option \<times> lifespan" where
  "lifespan_receive s =
     (if \<not> startup_sent s then (Some Startup, s\<lparr>startup_sent := True\<rparr>)
      else if shutdown_trigger s then (Some Shutdown, s) else (None, s))"

text \<open>Messages of the application, by their \<open>type\<close>; others are ignored.\<close>

datatype message_sent = StartupComplete | StartupFailed string | ShutdownComplete | ShutdownFailed string | OtherMessage

fun lifespan_send :: "message_sent \<Rightarrow> lifespan \<Rightarrow> lifespan" where
  "lifespan_send StartupComplete s = s\<lparr>startup_complete := True, startup_event := True\<rparr>"
| "lifespan_send (StartupFailed msg) s = s\<lparr>startup_failed := True, startup_message := msg, startup_event := True\<rparr>"
| "lifespan_send ShutdownComplete s = s\<lparr>shutdown_complete := True, shutdown_event := True\<rparr>"
| "lifespan_send (ShutdownFailed msg) s = s\<lparr>shutdown_failed := True, shutdown_message := msg, shutdown_event := True\<rparr>"
| "lifespan_send OtherMessage s = s"

text \<open>How the application ends, and what \<open>_lifespan_runner\<close> makes of it.\<close>

datatype app_end = AppReturned | AppRaised string | AppCancelled

definition runner_handle :: "app_end \<Rightarrow> lifespan \<Rightarrow> lifespan" where
  "runner_handle r s =
     (case r of
        AppReturned \<Rightarrow> s
      | AppCancelled \<Rightarrow>
          (let s = (if \<not> startup_event s then
                      s\<lparr>startup_failed := True, startup_message := ''Lifespan startup cancelled'', startup_event := True\<rparr>
                    else s)
           in if \<not> shutdown_event s then
                s\<lparr>shutdown_failed := True, shutdown_message := ''Lifespan shutdown cancelled'', shutdown_event := True\<rparr>
              else s)
      | AppRaised e \<Rightarrow>
          (let s = (if \<not> startup_event s then
                      s\<lparr>startup_exception := Some e, startup_message := e, startup_event := True\<rparr>
                    else s)
           in if \<not> shutdown_event s then
                s\<lparr>shutdown_failed := True, shutdown_message := e, shutdown_event := True\<rparr>
              else s))"

definition runner_finally :: "lifespan \<Rightarrow> lifespan" where
  "runner_finally s =
     (let s = (if \<not> startup_event s then s\<lparr>startup_unsupported := True, startup_event := True\<rparr> else s)
      in if \<not> shutdown_event s then s\<lparr>shutdown_event := True\<rparr> else s)"

definition lifespan_runner :: "app_end \<Rightarrow> lifespan \<Rightarrow> lifespan" where
  "lifespan_runner r s = (runner_finally (runner_handle r s))\<lparr>app_task := Finished\<rparr>"

section \<open>The server's side\<close>

text \<open>
  A call of \<open>startup\<close> or \<open>shutdown\<close> is over (\<open>Over\<close>, with the error it raises), waits for an
  event, or has cancelled the task and awaits it (\<open>Reap\<close>) before it is over.
\<close>

datatype progress = Over "error option" | Await_startup | Await_shutdown | Reap_startup "error option" | Reap_shutdown

definition startup_begin :: "lifespan \<Rightarrow> progress \<times> lifespan" where
  "startup_begin s =
     (if lstate s \<noteq> UNINITIALIZED then (Over None, s)
      else if mode s = ''off'' then (Over None, s\<lparr>lstate := RUNNING\<rparr>)
      else (Await_startup, s\<lparr>lstate := STARTING, app_task := Live\<rparr>))"

text \<open>\<open>if self._lifespan_task and not self._lifespan_task.done(): cancel, await\<close>.\<close>

definition startup_timed_out :: "string \<Rightarrow> lifespan \<Rightarrow> progress \<times> lifespan" where
  "startup_timed_out after s =
     (let e = Some (RuntimeError (if mode s = ''on'' then ''Lifespan startup timed out''
                else ''Lifespan startup timed out after '' @ after));
          s = s\<lparr>lstate := FAILED\<rparr>
      in (if app_task s = Live then Reap_startup e else Over e, s))"

definition startup_ready :: "lifespan \<Rightarrow> progress \<times> lifespan" where
  "startup_ready s =
     (if startup_unsupported s then
        (if mode s = ''on'' then
           (Over (Some (RuntimeError ''Application does not support ASGI lifespan protocol'')), s\<lparr>lstate := FAILED\<rparr>)
         else (Over None, s\<lparr>lstate := RUNNING\<rparr>))
      else if startup_failed s then
        (Over (Some (RuntimeError (''Application startup failed: '' @ startup_message s))), s\<lparr>lstate := FAILED\<rparr>)
      else
        (case startup_exception s of
           Some e \<Rightarrow>
             (if mode s = ''on'' \<or> startup_sent s then
                (Over (Some (RuntimeError (''Application startup failed: '' @ e))), s\<lparr>lstate := FAILED\<rparr>)
              else if app_task s = Live then (Reap_startup None, s)
              else (Over None, s\<lparr>lstate := RUNNING\<rparr>))
         | None \<Rightarrow> (Over None, s\<lparr>frozen_state := Some (scope_state s), lstate := RUNNING\<rparr>)))"

text \<open>After the await of the cancelled task.\<close>

definition startup_reaped :: "error option \<Rightarrow> lifespan \<Rightarrow> progress \<times> lifespan" where
  "startup_reaped e s = (Over e, if e = None then s\<lparr>lstate := RUNNING\<rparr> else s)"

definition shutdown_begin :: "lifespan \<Rightarrow> progress \<times> lifespan" where
  "shutdown_begin s =
     (if lstate s \<noteq> RUNNING then (Over None, s)
      else if mode s = ''off'' \<or> app_task s = NoTask then (Over None, s\<lparr>lstate := STOPPED\<rparr>)
      else (Await_shutdown, s\<lparr>lstate := STOPPING, shutdown_trigger := True\<rparr>))"

text \<open>The event is set, or the wait failed (a timeout): any exception is ignored.\<close>

definition shutdown_ready :: "lifespan \<Rightarrow> progress \<times> lifespan" where
  "shutdown_ready s = (if app_task s = Live then (Reap_shutdown, s) else (Over None, s\<lparr>lstate := STOPPED\<rparr>))"

definition shutdown_reaped :: "lifespan \<Rightarrow> progress \<times> lifespan" where
  "shutdown_reaped s = (Over None, s\<lparr>lstate := STOPPED\<rparr>)"

section \<open>The protocol\<close>

text \<open>
  The manager's lock admits one call at a time.  A timeout may fire whenever its wait is
  pending; the application may do anything, also after it was cancelled.
\<close>

record ls_sys =
  ls :: lifespan
  call :: progress

inductive ls_step :: "ls_sys \<Rightarrow> ls_sys \<Rightarrow> bool" where
  ls_startup: "call s = Over r \<Longrightarrow> startup_begin (ls s) = (p, l) \<Longrightarrow> ls_step s (s\<lparr>ls := l, call := p\<rparr>)"
| ls_startup_ready: "call s = Await_startup \<Longrightarrow> startup_event (ls s) \<Longrightarrow> startup_ready (ls s) = (p, l) \<Longrightarrow>
     ls_step s (s\<lparr>ls := l, call := p\<rparr>)"
| ls_startup_timeout: "call s = Await_startup \<Longrightarrow> startup_timed_out after (ls s) = (p, l) \<Longrightarrow>
     ls_step s (s\<lparr>ls := l, call := p\<rparr>)"
| ls_startup_reaped: "call s = Reap_startup e \<Longrightarrow> app_task (ls s) = Finished \<Longrightarrow> startup_reaped e (ls s) = (p, l) \<Longrightarrow>
     ls_step s (s\<lparr>ls := l, call := p\<rparr>)"
| ls_shutdown: "call s = Over r \<Longrightarrow> shutdown_begin (ls s) = (p, l) \<Longrightarrow> ls_step s (s\<lparr>ls := l, call := p\<rparr>)"
| ls_shutdown_ready: "call s = Await_shutdown \<Longrightarrow> shutdown_ready (ls s) = (p, l) \<Longrightarrow> ls_step s (s\<lparr>ls := l, call := p\<rparr>)"
| ls_shutdown_reaped: "call s = Reap_shutdown \<Longrightarrow> app_task (ls s) = Finished \<Longrightarrow> shutdown_reaped (ls s) = (p, l) \<Longrightarrow>
     ls_step s (s\<lparr>ls := l, call := p\<rparr>)"
| ls_receive: "app_task (ls s) = Live \<Longrightarrow> lifespan_receive (ls s) = (Some m, l) \<Longrightarrow> ls_step s (s\<lparr>ls := l\<rparr>)"
| ls_send: "app_task (ls s) = Live \<Longrightarrow> ls_step s (s\<lparr>ls := lifespan_send m (ls s)\<rparr>)"
| ls_state: "app_task (ls s) = Live \<Longrightarrow> ls_step s (s\<lparr>ls := (ls s)\<lparr>scope_state := d\<rparr>\<rparr>)"
| ls_end: "app_task (ls s) = Live \<Longrightarrow> ls_step s (s\<lparr>ls := lifespan_runner r (ls s)\<rparr>)"

definition ls_start :: "ls_sys \<Rightarrow> bool" where
  "ls_start s \<longleftrightarrow> (\<exists>m. ls s = lifespan_new m) \<and> call s = Over None"

text \<open>The diagram of the states.\<close>

fun ls_edge :: "lifespan_state \<Rightarrow> lifespan_state \<Rightarrow> bool" where
  "ls_edge UNINITIALIZED b = (b \<in> {STARTING, RUNNING})"
| "ls_edge STARTING b = (b \<in> {RUNNING, FAILED})"
| "ls_edge RUNNING b = (b \<in> {STOPPING, STOPPED})"
| "ls_edge STOPPING b = (b = STOPPED)"
| "ls_edge STOPPED b = False"
| "ls_edge FAILED b = False"

text \<open>Where each call stands in each state; a finished application has set both events.\<close>

definition ls_inv :: "ls_sys \<Rightarrow> bool" where
  "ls_inv s \<longleftrightarrow>
     (case call s of
        Over r \<Rightarrow> lstate (ls s) \<in> {UNINITIALIZED, RUNNING, STOPPED, FAILED}
      | Await_startup \<Rightarrow> lstate (ls s) = STARTING \<and> app_task (ls s) \<noteq> NoTask
      | Reap_startup e \<Rightarrow> (if e = None then lstate (ls s) = STARTING else lstate (ls s) = FAILED) \<and> app_task (ls s) \<noteq> NoTask
      | Await_shutdown \<Rightarrow> lstate (ls s) = STOPPING \<and> app_task (ls s) \<noteq> NoTask \<and> shutdown_trigger (ls s)
      | Reap_shutdown \<Rightarrow> lstate (ls s) = STOPPING \<and> app_task (ls s) \<noteq> NoTask) \<and>
     (app_task (ls s) = Finished \<longrightarrow> startup_event (ls s) \<and> shutdown_event (ls s)) \<and>
     (app_task (ls s) = NoTask \<longrightarrow> \<not> startup_sent (ls s)) \<and>
     (lstate (ls s) = UNINITIALIZED \<longrightarrow> app_task (ls s) = NoTask)"

lemma runner_sets: "startup_event (lifespan_runner r s) \<and> shutdown_event (lifespan_runner r s)"
  by (auto simp: lifespan_runner_def runner_finally_def Let_def)

lemma runner_keeps [simp]:
  "lstate (lifespan_runner r s) = lstate s" "app_task (lifespan_runner r s) = Finished"
  "startup_sent (lifespan_runner r s) = startup_sent s" "shutdown_trigger (lifespan_runner r s) = shutdown_trigger s"
  by (auto simp: lifespan_runner_def runner_finally_def runner_handle_def Let_def split: app_end.splits)

lemma send_keeps [simp]:
  "lstate (lifespan_send m s) = lstate s" "app_task (lifespan_send m s) = app_task s"
  "startup_sent (lifespan_send m s) = startup_sent s" "shutdown_trigger (lifespan_send m s) = shutdown_trigger s"
  by (cases m; simp)+

lemma ls_inv_step:
  assumes "ls_inv s" and "ls_step s s'"
  shows "ls_inv s'" and "lstate (ls s') = lstate (ls s) \<or> ls_edge (lstate (ls s)) (lstate (ls s'))"
proof -
  have "ls_inv s' \<and> (lstate (ls s') = lstate (ls s) \<or> ls_edge (lstate (ls s)) (lstate (ls s')))"
    using assms(2)
  proof cases
    case (ls_startup r p l)
    then show ?thesis using assms(1) by (auto simp: ls_inv_def startup_begin_def split: if_splits)
  next
    case (ls_startup_ready p l)
    then show ?thesis using assms(1)
      by (auto simp: ls_inv_def startup_ready_def split: if_splits option.splits)
  next
    case (ls_startup_timeout after p l)
    then show ?thesis using assms(1) by (auto simp: ls_inv_def startup_timed_out_def Let_def split: if_splits)
  next
    case (ls_startup_reaped e p l)
    then show ?thesis using assms(1) by (auto simp: ls_inv_def startup_reaped_def split: if_splits)
  next
    case (ls_shutdown r p l)
    then show ?thesis using assms(1) by (auto simp: ls_inv_def shutdown_begin_def split: if_splits)
  next
    case (ls_shutdown_ready p l)
    then show ?thesis using assms(1) by (auto simp: ls_inv_def shutdown_ready_def split: if_splits)
  next
    case (ls_shutdown_reaped p l)
    then show ?thesis using assms(1) by (auto simp: ls_inv_def shutdown_reaped_def)
  next
    case (ls_receive m l)
    then show ?thesis using assms(1)
      by (auto simp: ls_inv_def lifespan_receive_def split: if_splits progress.splits)
  next
    case (ls_send m)
    then show ?thesis using assms(1) by (auto simp: ls_inv_def split: progress.splits)
  next
    case (ls_state d)
    then show ?thesis using assms(1) by (auto simp: ls_inv_def split: progress.splits)
  next
    case (ls_end r)
    then show ?thesis using assms(1) runner_sets [of r "ls s"] by (auto simp: ls_inv_def split: progress.splits)
  qed
  then show "ls_inv s'" and "lstate (ls s') = lstate (ls s) \<or> ls_edge (lstate (ls s)) (lstate (ls s'))" by simp_all
qed

lemma ls_inv_start: "ls_start s \<Longrightarrow> ls_inv s"
  by (auto simp: ls_start_def ls_inv_def lifespan_new_def)

interpretation lifespans: invariant_system ls_start ls_step ls_inv
  by unfold_locales (rule ls_inv_start, assumption, rule ls_inv_step(1))

section \<open>Properties\<close>

text \<open>
  The lifespan follows its diagram and its waits end.  From any reachable state a step
  leaves the state as it is or goes along an edge of the diagram; a call that is over leaves
  the manager in one of the four resting states; and once the application has ended,
  returned, raised or cancelled, both events are set, so a pending wait returns.
\<close>

theorem lifespan_protocol:
  assumes "ls_start s0" and "reach ls_step s0 s" and "ls_step s s'"
  shows "(lstate (ls s') = lstate (ls s) \<or> ls_edge (lstate (ls s)) (lstate (ls s'))) \<and>
    ((\<exists>r. call s' = Over r) \<longrightarrow> lstate (ls s') \<in> {UNINITIALIZED, RUNNING, STOPPED, FAILED}) \<and>
    (app_task (ls s') = Finished \<longrightarrow> startup_event (ls s') \<and> shutdown_event (ls s'))"
proof -
  have inv: "ls_inv s" using lifespans.inv_reach assms(1,2) by blast
  have "ls_inv s'" by (rule ls_inv_step(1) [OF inv assms(3)])
  then have "(\<exists>r. call s' = Over r) \<longrightarrow> lstate (ls s') \<in> {UNINITIALIZED, RUNNING, STOPPED, FAILED}"
    and "app_task (ls s') = Finished \<longrightarrow> startup_event (ls s') \<and> shutdown_event (ls s')"
    unfolding ls_inv_def by (elim conjE; force)+
  with ls_inv_step(2) [OF inv assms(3)] show ?thesis by blast
qed

definition ls_demo :: ls_sys where
  "ls_demo = \<lparr>ls = lifespan_new ''auto'', call = Over None\<rparr>"

theorem lifespan_protocol_witness:
  "ls_edge (lstate (ls ls_demo)) STARTING \<and> lstate (snd (startup_begin (ls ls_demo))) = STARTING"
proof -
  let ?s = "ls_demo\<lparr>ls := snd (startup_begin (ls ls_demo)), call := fst (startup_begin (ls ls_demo))\<rparr>"
  have "ls_start ls_demo" by (auto simp: ls_start_def ls_demo_def)
  moreover have st: "ls_step ls_demo ?s"
    by (rule ls_step.ls_startup [of _ None]) (simp_all add: ls_demo_def)
  ultimately have "lstate (ls ?s) = lstate (ls ls_demo) \<or> ls_edge (lstate (ls ls_demo)) (lstate (ls ?s))"
    using lifespan_protocol [OF _ reach.reach_refl st] by blast
  then show ?thesis by (simp add: ls_demo_def startup_begin_def lifespan_new_def)
qed

text \<open>
  What startup makes of the application.  While nothing has been reported yet:
  \<open>startup.complete\<close> makes the manager run, with a copy of the state; \<open>startup.failed\<close> is raised
  with its message, in every mode; an application that returns is refused only in mode
  \<open>on\<close>; one that raises is refused in mode \<open>on\<close> and when it has received the startup event,
  and otherwise taken for one without lifespan support.
\<close>

theorem startup_outcomes:
  assumes "\<not> startup_event s" and "\<not> startup_failed s" and "\<not> startup_unsupported s" and "startup_exception s = None"
  shows "startup_ready (lifespan_send StartupComplete s) =
      (Over None, (lifespan_send StartupComplete s)\<lparr>frozen_state := Some (scope_state s), lstate := RUNNING\<rparr>) \<and>
    (\<exists>s'. startup_ready (lifespan_send (StartupFailed msg) s) =
        (Over (Some (RuntimeError (''Application startup failed: '' @ msg))), s') \<and> lstate s' = FAILED) \<and>
    lstate (snd (startup_ready (lifespan_runner AppReturned s))) = (if mode s = ''on'' then FAILED else RUNNING) \<and>
    fst (startup_ready (lifespan_runner (AppRaised e) s)) =
      Over (if mode s = ''on'' \<or> startup_sent s then Some (RuntimeError (''Application startup failed: '' @ e)) else None) \<and>
    lstate (snd (startup_ready (lifespan_runner (AppRaised e) s))) =
      (if mode s = ''on'' \<or> startup_sent s then FAILED else RUNNING)"
  using assms
  by (auto simp: startup_ready_def lifespan_runner_def runner_finally_def runner_handle_def Let_def split: option.splits)

theorem startup_outcomes_witness:
  "lstate (snd (startup_ready (lifespan_runner (AppRaised ''boom'') (lifespan_new ''on'')))) = FAILED"
  using startup_outcomes [of "lifespan_new ''on''" "[]" "''boom''"] by (simp add: lifespan_new_def)

text \<open>
  Failures that go silent.  A shutdown whose application has reported
  \<open>lifespan.shutdown.failed\<close> returns normally and leaves the manager stopped, like a
  successful one; and a second \<open>startup\<close> after a failed one returns normally, with the manager
  still failed.
\<close>

theorem lifespan_silent_failures:
  assumes "lstate s = STOPPING" and "app_task s = Finished" and "lstate f = FAILED"
  shows "fst (shutdown_ready (lifespan_send (ShutdownFailed msg) s)) = fst (shutdown_ready (lifespan_send ShutdownComplete s)) \<and>
    fst (shutdown_ready (lifespan_send (ShutdownFailed msg) s)) = Over None \<and>
    lstate (snd (shutdown_ready (lifespan_send (ShutdownFailed msg) s))) = STOPPED \<and>
    startup_begin f = (Over None, f)"
  using assms by (simp add: shutdown_ready_def startup_begin_def)

theorem lifespan_silent_failures_witness:
  "startup_begin ((lifespan_new ''on'')\<lparr>lstate := FAILED\<rparr>) = (Over None, (lifespan_new ''on'')\<lparr>lstate := FAILED\<rparr>)"
  using lifespan_silent_failures [of "(lifespan_new ''on'')\<lparr>lstate := STOPPING, app_task := Finished\<rparr>"
      "(lifespan_new ''on'')\<lparr>lstate := FAILED\<rparr>" "[]"] by simp

end
