(* ===== verification/Servers.thy ===== *)
theory Servers
  imports Pool
begin

text \<open>
  \<open>ConnectionPinningServer\<close> of \<open>server.py\<close>: the listeners \<open>start\<close> opens and the workers it puts to
  accept, the accept loop with its back-off, a connection from its socket to its release, and
  \<open>close\<close> among accept loops that run on the workers.  Proved: which listeners a started server
  has, how long an accept loop sleeps, that a closed server has cancelled every connection but
  at most one for each worker; and where one escapes, and where \<open>start\<close> fails half-way.
\<close>

section \<open>Starting\<close>

text \<open>
  Sockets are numbered by listener; \<open>v_port\<close> is \<open>port\<close>, \<open>v_acceptors\<close> the workers whose loops got an
  accept loop.
\<close>

record server =
  v_running :: bool
  v_port :: nat
  v_sockets :: "nat list"
  v_acceptors :: "nat list"

definition server_new :: "nat \<Rightarrow> server" where
  "server_new port = \<lparr>v_running = False, v_port = port, v_sockets = [], v_acceptors = []\<rparr>"

definition can_reuseport :: "bool \<Rightarrow> bool \<Rightarrow> nat \<Rightarrow> bool" where
  "can_reuseport linux has_option threads \<longleftrightarrow> linux \<and> has_option \<and> threads > 1"

text \<open>
  \<open>bind i p\<close>: listener \<open>i\<close> bound to port \<open>p\<close>, the port it got or \<open>None\<close> for an \<open>OSError\<close>.  The first
  listener fixes the port; after a failure all of them are closed, and the port stays.
\<close>

definition bind_reuseport :: "(nat \<Rightarrow> nat \<Rightarrow> nat option) \<Rightarrow> nat \<Rightarrow> nat \<Rightarrow> nat \<times> nat list option" where
  "bind_reuseport bind threads port =
     (case bind 0 port of
        None \<Rightarrow> (port, None)
      | Some p \<Rightarrow> (p, if list_all (\<lambda>i. bind i p \<noteq> None) [1 ..< threads] then Some [0 ..< max 1 threads] else None))"

text \<open>The accept loops, in order, until a loop of the pool is not to be had.\<close>

fun put_acceptors :: "pool \<Rightarrow> nat list \<Rightarrow> server \<Rightarrow> error option \<times> server" where
  "put_acceptors p [] s = (None, s)"
| "put_acceptors p (i # is) s =
     (case get_loop i p of
        Inl e \<Rightarrow> (Some e, s)
      | Inr l \<Rightarrow> put_acceptors p is (s\<lparr>v_acceptors := v_acceptors s @ [i]\<rparr>))"

definition server_start ::
    "bool \<Rightarrow> bool \<Rightarrow> (nat \<Rightarrow> nat \<Rightarrow> nat option) \<Rightarrow> (nat \<Rightarrow> nat option) \<Rightarrow> pool \<Rightarrow> server \<Rightarrow> error option \<times> server" where
  "server_start reuse windows bind shared p s =
     (if v_running s then (None, s)
      else
        (let (port, socks) = (if reuse then bind_reuseport bind (p_threads p) (v_port s) else (v_port s, None));
             s = s\<lparr>v_port := port, v_sockets := [], v_acceptors := []\<rparr> in
         case socks of
           Some ss \<Rightarrow> put_acceptors p ss (s\<lparr>v_running := True, v_sockets := ss\<rparr>)
         | None \<Rightarrow>
             (case shared port of
                None \<Rightarrow> (Some (OSError ''bind''), s)
              | Some q \<Rightarrow>
                  put_acceptors p [0 ..< (if windows then 1 else p_threads p)]
                    (s\<lparr>v_running := True, v_port := q, v_sockets := [0]\<rparr>))))"

section \<open>The accept loop\<close>

text \<open>How \<open>sock_accept\<close> and the set-up of a connection end; \<open>soft\<close> tells the error numbers that are ignored.\<close>

datatype accept_end = Accepted_conn | Accept_cancelled | Accept_blocked | Accept_oserror int "int option" | Accept_runtime

definition soft_errno :: "int list \<Rightarrow> int \<Rightarrow> int option \<Rightarrow> bool" where
  "soft_errno soft e winerror \<longleftrightarrow> e \<in> set soft \<or> winerror \<in> {Some 995, Some 10038, Some 10022, Some 10054}"

text \<open>One turn of the loop, in milliseconds: whether it goes on, its sleep, the next back-off.\<close>

definition accept_fail :: "bool \<Rightarrow> nat \<Rightarrow> bool \<times> nat \<times> nat" where
  "accept_fail running backoff = (if \<not> running then (False, 0, backoff) else (True, backoff, min (backoff * 2) 100))"

fun accept_turn :: "int list \<Rightarrow> bool \<Rightarrow> accept_end \<Rightarrow> nat \<Rightarrow> bool \<times> nat \<times> nat" where
  "accept_turn soft running Accepted_conn backoff = (True, 0, 1)"
| "accept_turn soft running Accept_cancelled backoff = (False, 0, backoff)"
| "accept_turn soft running Accept_blocked backoff = (True, 0, backoff)"
| "accept_turn soft running (Accept_oserror e w) backoff =
     (if running \<and> soft_errno soft e w then (True, 0, backoff) else accept_fail running backoff)"
| "accept_turn soft running Accept_runtime backoff = accept_fail running backoff"

text \<open>The sleeps of a loop of a running server.\<close>

fun accept_sleeps :: "int list \<Rightarrow> accept_end list \<Rightarrow> nat \<Rightarrow> nat list" where
  "accept_sleeps soft [] backoff = []"
| "accept_sleeps soft (r # rs) backoff =
     (case accept_turn soft True r backoff of
        (on, sleep, backoff) \<Rightarrow> (if sleep > 0 then [sleep] else []) @ (if on then accept_sleeps soft rs backoff else []))"

section \<open>A connection\<close>

text \<open>
  \<open>_run_pinned_connection\<close>: \<open>Lost\<close> are the exceptions it absorbs.  \<open>factory\<close> is the protocol factory
  and how it ended, \<open>connect\<close> the attachment of the socket, \<open>body\<close> the handler or \<open>wait_closed\<close>.
\<close>

datatype conn_exn = Lost | Other_exn

datatype release = Socket_closed | Transport_closed | Already_closing

definition absorbed :: "conn_exn option \<Rightarrow> conn_exn option" where
  "absorbed e = (if e = Some Lost then None else e)"

definition run_pinned :: "conn_exn option \<Rightarrow> conn_exn option \<Rightarrow> conn_exn option \<Rightarrow> bool \<Rightarrow> release \<times> conn_exn option" where
  "run_pinned factory connect body is_closing =
     (if factory \<noteq> None then (Socket_closed, absorbed factory)
      else if connect \<noteq> None then (Socket_closed, absorbed connect)
      else (if is_closing then Already_closing else Transport_closed, absorbed body))"

section \<open>Closing among accept loops\<close>

type_synonym conn_id = nat

text \<open>
  An accept loop is before its test of \<open>is_running\<close>, in \<open>sock_accept\<close>, has created the task of a
  connection and is about to add it to the set of its loop, or is over.  A connection is tracked, or
  taken out of the table by a \<open>close\<close>, or was added to a set that is in the table no more.
\<close>

datatype acceptor = At_test | Accepting | Got conn_id | Acceptor_over

datatype tracking = Unknown | In_hand | Tracked nat | Taken | Stray nat

datatype server_closing =
    Serving | Stopped | Acceptors_cancelled | Sockets_closed | Drained_out | Cancelling "conn_id list" | Server_closed

record ssys =
  ss_running :: bool
  ss_listening :: bool
  ss_workers :: nat
  ss_acceptor :: "nat \<Rightarrow> acceptor"
  ss_conn :: "conn_id \<Rightarrow> tracking"
  ss_done :: "conn_id set"
  ss_asked :: "conn_id set"
  ss_closer :: server_closing

definition ssys_new :: "nat \<Rightarrow> ssys" where
  "ssys_new n = \<lparr>ss_running = True, ss_listening = True, ss_workers = n, ss_acceptor = (\<lambda>w. if w < n then At_test else Acceptor_over),
     ss_conn = (\<lambda>k. Unknown), ss_done = {}, ss_asked = {}, ss_closer = Serving\<rparr>"

definition put_acceptor :: "nat \<Rightarrow> acceptor \<Rightarrow> ssys \<Rightarrow> ssys" where
  "put_acceptor w x s = s\<lparr>ss_acceptor := (ss_acceptor s)(w := x)\<rparr>"

definition put_conn :: "conn_id \<Rightarrow> tracking \<Rightarrow> ssys \<Rightarrow> ssys" where
  "put_conn k x s = s\<lparr>ss_conn := (ss_conn s)(k := x)\<rparr>"

text \<open>The table \<open>_worker_conn_tasks\<close> still has the sets the accept loops add to.\<close>

definition table_kept :: "ssys \<Rightarrow> bool" where
  "table_kept s \<longleftrightarrow> ss_closer s \<in> {Serving, Stopped, Acceptors_cancelled, Sockets_closed, Drained_out}"

definition acceptor_test :: "nat \<Rightarrow> ssys \<Rightarrow> ssys" where
  "acceptor_test w s = put_acceptor w (if ss_running s then Accepting else Acceptor_over) s"

definition acceptor_add :: "nat \<Rightarrow> conn_id \<Rightarrow> ssys \<Rightarrow> ssys" where
  "acceptor_add w k s = put_acceptor w At_test (put_conn k (if table_kept s then Tracked w else Stray w) s)"

text \<open>The snapshot that empties the table.\<close>

definition close_snapshot :: "conn_id list \<Rightarrow> ssys \<Rightarrow> ssys" where
  "close_snapshot ks s = s\<lparr>ss_closer := Cancelling ks, ss_conn := (\<lambda>k. if k \<in> set ks then Taken else ss_conn s k)\<rparr>"

inductive server_step :: "ssys \<Rightarrow> ssys \<Rightarrow> bool" where
  sv_test: "ss_acceptor s w = At_test \<Longrightarrow> server_step s (acceptor_test w s)"
| sv_accept: "ss_acceptor s w = Accepting \<Longrightarrow> ss_conn s k = Unknown \<Longrightarrow>
     server_step s (put_acceptor w (Got k) (put_conn k In_hand s))"
| sv_again: "ss_acceptor s w = Accepting \<Longrightarrow> fst (accept_turn soft (ss_running s) r b) \<Longrightarrow> r \<noteq> Accepted_conn \<Longrightarrow>
     server_step s (put_acceptor w At_test s)"
| sv_stop_accepting: "ss_acceptor s w = Accepting \<Longrightarrow> \<not> fst (accept_turn soft (ss_running s) r b) \<Longrightarrow>
     server_step s (put_acceptor w Acceptor_over s)"
| sv_add: "ss_acceptor s w = Got k \<Longrightarrow> server_step s (acceptor_add w k s)"
| sv_done: "ss_conn s k \<noteq> Unknown \<Longrightarrow> server_step s (s\<lparr>ss_done := insert k (ss_done s)\<rparr>)"
| sv_close: "ss_closer s = Serving \<Longrightarrow> server_step s (s\<lparr>ss_running := False, ss_closer := Stopped\<rparr>)"
| sv_cancel_acceptors: "ss_closer s = Stopped \<Longrightarrow> server_step s (s\<lparr>ss_closer := Acceptors_cancelled\<rparr>)"
| sv_close_sockets: "ss_closer s = Acceptors_cancelled \<Longrightarrow>
     server_step s (s\<lparr>ss_listening := False, ss_closer := Sockets_closed\<rparr>)"
| sv_drained: "ss_closer s = Sockets_closed \<Longrightarrow> server_step s (s\<lparr>ss_closer := Drained_out\<rparr>)"
| sv_snapshot: "ss_closer s = Drained_out \<Longrightarrow> distinct ks \<Longrightarrow> set ks = {k. \<exists>w. ss_conn s k = Tracked w} \<Longrightarrow>
     server_step s (close_snapshot ks s)"
| sv_cancel: "ss_closer s = Cancelling (k # ks) \<Longrightarrow>
     server_step s (s\<lparr>ss_asked := insert k (ss_asked s), ss_closer := Cancelling ks\<rparr>)"
| sv_over: "ss_closer s = Cancelling [] \<Longrightarrow> server_step s (s\<lparr>ss_closer := Server_closed\<rparr>)"


section \<open>The invariant of closing\<close>

definition ssys_start :: "ssys \<Rightarrow> bool" where
  "ssys_start s \<longleftrightarrow> (\<exists>n. s = ssys_new n)"

definition ssys_inv :: "ssys \<Rightarrow> bool" where
  "ssys_inv s \<longleftrightarrow>
     (ss_running s \<longleftrightarrow> ss_closer s = Serving) \<and>
     (\<forall>k w. ss_conn s k = Stray w \<longrightarrow> \<not> table_kept s \<and> ss_acceptor s w \<in> {At_test, Acceptor_over} \<and> w < ss_workers s) \<and>
     (\<forall>k k' w. ss_conn s k = Stray w \<longrightarrow> ss_conn s k' = Stray w \<longrightarrow> k = k') \<and>
     (\<forall>k w. ss_conn s k = Tracked w \<longrightarrow> table_kept s) \<and>
     (\<forall>k. ss_conn s k = Taken \<longrightarrow> k \<in> ss_asked s \<or> (\<exists>ks. ss_closer s = Cancelling ks \<and> k \<in> set ks)) \<and>
     (\<forall>k. ss_conn s k = In_hand \<longrightarrow> (\<exists>w. ss_acceptor s w = Got k)) \<and>
     (\<forall>k w. ss_acceptor s w = Got k \<longrightarrow> ss_conn s k = In_hand) \<and>
     (\<forall>k v w. ss_acceptor s v = Got k \<longrightarrow> ss_acceptor s w = Got k \<longrightarrow> v = w) \<and>
     (\<forall>w. ss_workers s \<le> w \<longrightarrow> ss_acceptor s w = Acceptor_over)"

lemma ssys_inv_start: "ssys_start s \<Longrightarrow> ssys_inv s"
  by (auto simp: ssys_start_def ssys_inv_def ssys_new_def split: if_splits)

lemma ssys_invD:
  assumes "ssys_inv s"
  shows "ss_running s \<longleftrightarrow> ss_closer s = Serving"
    and "ss_conn s k = Stray w \<Longrightarrow> \<not> table_kept s" and "ss_conn s k = Stray w \<Longrightarrow> ss_acceptor s w \<in> {At_test, Acceptor_over}"
    and "ss_conn s k = Stray w \<Longrightarrow> w < ss_workers s"
    and "ss_conn s k = Stray w \<Longrightarrow> ss_conn s k' = Stray w \<Longrightarrow> k = k'"
    and "ss_conn s k = Tracked w \<Longrightarrow> table_kept s"
    and "ss_conn s k = Taken \<Longrightarrow> k \<in> ss_asked s \<or> (\<exists>ks. ss_closer s = Cancelling ks \<and> k \<in> set ks)"
    and "ss_conn s k = In_hand \<Longrightarrow> \<exists>w. ss_acceptor s w = Got k"
    and "ss_acceptor s w = Got k \<Longrightarrow> ss_conn s k = In_hand"
    and "ss_acceptor s v = Got k \<Longrightarrow> ss_acceptor s w = Got k \<Longrightarrow> v = w"
    and "ss_workers s \<le> w \<Longrightarrow> ss_acceptor s w = Acceptor_over"
  using assms unfolding ssys_inv_def by blast+

lemma ssys_invI:
  assumes "ss_running s \<longleftrightarrow> ss_closer s = Serving"
    and "\<And>k w. ss_conn s k = Stray w \<Longrightarrow> \<not> table_kept s \<and> ss_acceptor s w \<in> {At_test, Acceptor_over} \<and> w < ss_workers s"
    and "\<And>k k' w. ss_conn s k = Stray w \<Longrightarrow> ss_conn s k' = Stray w \<Longrightarrow> k = k'"
    and "\<And>k w. ss_conn s k = Tracked w \<Longrightarrow> table_kept s"
    and "\<And>k. ss_conn s k = Taken \<Longrightarrow> k \<in> ss_asked s \<or> (\<exists>ks. ss_closer s = Cancelling ks \<and> k \<in> set ks)"
    and "\<And>k. ss_conn s k = In_hand \<Longrightarrow> \<exists>w. ss_acceptor s w = Got k"
    and "\<And>k w. ss_acceptor s w = Got k \<Longrightarrow> ss_conn s k = In_hand"
    and "\<And>k v w. ss_acceptor s v = Got k \<Longrightarrow> ss_acceptor s w = Got k \<Longrightarrow> v = w"
    and "\<And>w. ss_workers s \<le> w \<Longrightarrow> ss_acceptor s w = Acceptor_over"
  shows "ssys_inv s"
  using assms(1) unfolding ssys_inv_def
  by (intro conjI allI impI; (use assms in \<open>blast\<close>)?)

lemma table_kept_simps [simp]:
  "table_kept (put_acceptor w x s) = table_kept s" "table_kept (put_conn k y s) = table_kept s"
  "table_kept (s\<lparr>ss_done := d\<rparr>) = table_kept s"
  by (simp_all add: table_kept_def put_acceptor_def put_conn_def)

text \<open>An accept loop moves without a connection in its hand.\<close>

lemma ssys_inv_acceptor:
  assumes i: "ssys_inv s" and w: "ss_acceptor s w \<in> {At_test, Accepting}" and x: "x \<in> {At_test, Acceptor_over} \<or> x = Accepting \<and> ss_running s"
  shows "ssys_inv (put_acceptor w x s)"
proof -
  note D = ssys_invD [OF i]
  have st: "ss_conn s k = Stray w \<Longrightarrow> x \<in> {At_test, Acceptor_over}" for k
    using D(1) D(2) x by (auto simp: table_kept_def)
  have lt: "w < ss_workers s" using D(11) [of w] w by (cases "ss_workers s \<le> w") auto
  show ?thesis
  proof (rule ssys_invI, goal_cases)
    case (2 k v)
    then show ?case using D(2-4) [of k v] st by (auto simp: put_acceptor_def table_kept_def)
  next
    case (6 k)
    then have k: "ss_conn s k = In_hand" by (simp add: put_acceptor_def)
    from D(8) [OF k] obtain v where v: "ss_acceptor s v = Got k" by blast
    then have "v \<noteq> w" using w by auto
    then show ?case using v by (intro exI [of _ v]) (simp add: put_acceptor_def)
  next
    case (7 k v)
    then show ?case using D(9) [of v k] x by (auto simp: put_acceptor_def split: if_splits)
  next
    case (8 k u v)
    then show ?case using D(10) [of u k v] x by (auto simp: put_acceptor_def split: if_splits)
  next
    case (9 v)
    then show ?case using D(11) lt by (auto simp: put_acceptor_def)
  next
    case (3 k k' v)
    then show ?case using D(5) [of k v k'] by (simp add: put_acceptor_def)
  qed (use D(1,6,7) in \<open>auto simp: put_acceptor_def table_kept_def\<close>)
qed

text \<open>A step that leaves the accept loops and the table alone.\<close>

lemma ssys_inv_closer:
  assumes i: "ssys_inv s" and same: "ss_acceptor s' = ss_acceptor s" "ss_conn s' = ss_conn s" "ss_workers s' = ss_workers s"
    and r: "ss_running s' \<longleftrightarrow> ss_closer s' = Serving" and tk: "table_kept s' = table_kept s"
    and a: "\<And>k. ss_conn s k = Taken \<Longrightarrow> k \<in> ss_asked s \<or> (\<exists>ks. ss_closer s = Cancelling ks \<and> k \<in> set ks) \<Longrightarrow>
      k \<in> ss_asked s' \<or> (\<exists>ks. ss_closer s' = Cancelling ks \<and> k \<in> set ks)"
  shows "ssys_inv s'"
proof -
  note D = ssys_invD [OF i]
  show ?thesis
  proof (rule ssys_invI, goal_cases)
    case (2 k w)
    then show ?case using D(2-4) [of k w] by (simp add: same tk)
  next
    case (3 k k' w)
    then show ?case using D(5) [of k w k'] by (simp add: same)
  next
    case (5 k)
    then show ?case using D(7) [of k] a [of k] by (simp add: same)
  next
    case (8 k v w)
    then show ?case using D(10) [of v k w] by (simp add: same)
  qed (use r D(6,8,9,11) in \<open>simp_all add: same tk\<close>)
qed

lemma ssys_inv_step:
  assumes i: "ssys_inv s" and st: "server_step s s'"
  shows "ssys_inv s'"
proof -
  note D = ssys_invD [OF i]
  from st show ?thesis
  proof cases
    case (sv_test w)
    then show ?thesis using ssys_inv_acceptor [OF i, of w] by (simp add: acceptor_test_def)
  next
    case (sv_again w soft r b)
    then show ?thesis using ssys_inv_acceptor [OF i, of w] by simp
  next
    case (sv_stop_accepting w soft r b)
    then show ?thesis using ssys_inv_acceptor [OF i, of w] by simp
  next
    case (sv_accept w k)
    have fresh: "ss_acceptor s v \<noteq> Got k" for v using D(9) [of v k] sv_accept(3) by auto
    have nostray: "ss_conn s j \<noteq> Stray w" for j using D(3) [of j w] sv_accept(2) by auto
    have lt: "w < ss_workers s" using D(11) [of w] sv_accept(2) by (cases "ss_workers s \<le> w") auto
    show ?thesis unfolding sv_accept(1)
    proof (rule ssys_invI, goal_cases)
      case (2 j v)
      then show ?case using D(2-4) [of j v] nostray by (auto simp: put_acceptor_def put_conn_def table_kept_def split: if_splits)
    next
      case (3 j j' v)
      then show ?case using D(5) [of j v j'] by (auto simp: put_acceptor_def put_conn_def split: if_splits)
    next
      case (6 j)
      then show ?case using D(8) [of j] sv_accept(2) by (fastforce simp: put_acceptor_def put_conn_def split: if_splits)
    next
      case (7 j v)
      then show ?case using D(9) [of v j] by (auto simp: put_acceptor_def put_conn_def split: if_splits)
    next
      case (8 j u v)
      then show ?case using D(10) [of u j v] fresh by (auto simp: put_acceptor_def put_conn_def split: if_splits)
    next
      case (9 v)
      then show ?case using D(11) lt by (auto simp: put_acceptor_def put_conn_def)
    qed (use D(1,6,7) in \<open>auto simp: put_acceptor_def put_conn_def table_kept_def split: if_splits\<close>)
  next
    case (sv_add w k)
    have k: "ss_conn s k = In_hand" using D(9) sv_add(2) by blast
    have nostray: "ss_conn s j \<noteq> Stray w" for j using D(3) [of j w] sv_add(2) by auto
    have lt: "w < ss_workers s" using D(11) [of w] sv_add(2) by (cases "ss_workers s \<le> w") auto
    have only: "ss_acceptor s v = Got k \<Longrightarrow> v = w" for v using D(10) sv_add(2) by blast
    show ?thesis unfolding sv_add(1) acceptor_add_def
    proof (rule ssys_invI, goal_cases)
      case (2 j v)
      then show ?case using D(2-4) [of j v] lt by (auto simp: put_acceptor_def put_conn_def table_kept_def split: if_splits)
    next
      case (3 j j' v)
      then show ?case using D(5) [of j v j'] nostray by (auto simp: put_acceptor_def put_conn_def split: if_splits)
    next
      case (4 j v)
      then show ?case using D(6) [of j v] by (auto simp: put_acceptor_def put_conn_def table_kept_def split: if_splits)
    next
      case (6 j)
      then have j: "j \<noteq> k" "ss_conn s j = In_hand" by (auto simp: put_acceptor_def put_conn_def split: if_splits)
      from D(8) [OF j(2)] obtain v where v: "ss_acceptor s v = Got j" by blast
      then have "v \<noteq> w" using j(1) sv_add(2) by auto
      then show ?case using v by (intro exI [of _ v]) (simp add: put_acceptor_def put_conn_def)
    next
      case (7 j v)
      then show ?case using D(9) [of v j] only [of v] by (auto simp: put_acceptor_def put_conn_def split: if_splits)
    next
      case (8 j u v)
      then show ?case using D(10) [of u j v] by (auto simp: put_acceptor_def put_conn_def split: if_splits)
    next
      case (9 v)
      then show ?case using D(11) lt by (auto simp: put_acceptor_def put_conn_def)
    next
      case (5 j)
      then show ?case using D(7) [of j] by (auto simp: put_acceptor_def put_conn_def split: if_splits)
    qed (use D(1) in \<open>auto simp: put_acceptor_def put_conn_def\<close>)
  next
    case (sv_snapshot ks)
    have nostray: "ss_conn s j \<noteq> Stray v" for j v using D(2) [of j v] sv_snapshot(2) by (auto simp: table_kept_def)
    show ?thesis unfolding sv_snapshot(1) close_snapshot_def
    proof (rule ssys_invI, goal_cases)
      case (6 j)
      then show ?case using D(8) [of j] by (auto split: if_splits)
    next
      case (7 j v)
      then show ?case using D(9) [of v j] sv_snapshot(4) by auto
    next
      case (8 j u v)
      then show ?case using D(10) [of u j v] by simp
    next
      case (5 j)
      then show ?case using D(7) [of j] sv_snapshot(2) by (auto split: if_splits)
    qed (use D(1,6,11) nostray sv_snapshot in \<open>auto simp: table_kept_def split: if_splits\<close>)
  next
    case (sv_done k)
    then show ?thesis using D(1) by (intro ssys_inv_closer [OF i]) auto
  next
    case sv_close
    then show ?thesis using D(1) by (intro ssys_inv_closer [OF i]) (auto simp: table_kept_def)
  next
    case sv_cancel_acceptors
    then show ?thesis using D(1) by (intro ssys_inv_closer [OF i]) (auto simp: table_kept_def)
  next
    case sv_close_sockets
    then show ?thesis using D(1) by (intro ssys_inv_closer [OF i]) (auto simp: table_kept_def)
  next
    case sv_drained
    then show ?thesis using D(1) by (intro ssys_inv_closer [OF i]) (auto simp: table_kept_def)
  next
    case (sv_cancel k ks)
    then show ?thesis using D(1) by (intro ssys_inv_closer [OF i]) (auto simp: table_kept_def)
  next
    case sv_over
    then show ?thesis using D(1) by (intro ssys_inv_closer [OF i]) (auto simp: table_kept_def)
  qed
qed

interpretation servers: invariant_system ssys_start server_step ssys_inv
  by unfold_locales (auto intro: ssys_inv_start ssys_inv_step)


section \<open>Starting and accepting\<close>

lemma put_acceptors_ok:
  "p_running p \<Longrightarrow> \<forall>i \<in> set is. i < length (p_loops p) \<Longrightarrow>
   put_acceptors p is s = (None, s\<lparr>v_acceptors := v_acceptors s @ is\<rparr>)"
  by (induction "is" arbitrary: s) (auto simp: get_loop_def)

lemma put_acceptors_stopped:
  "\<not> p_running p \<Longrightarrow> put_acceptors p (i # is) s = (Some (RuntimeError ''pool is not running''), s)"
  by (simp add: get_loop_def)

lemma accept_sleeps_bound:
  "1 \<le> b \<Longrightarrow> b \<le> 100 \<Longrightarrow> x \<in> set (accept_sleeps soft rs b) \<Longrightarrow> 1 \<le> x \<and> x \<le> 100"
proof (induction soft rs b rule: accept_sleeps.induct)
  case (2 soft r rs b)
  have "accept_turn soft True r b \<in> {(True, 0, 1), (False, 0, b), (True, 0, b), (True, b, min (b * 2) 100)}"
    by (cases r) (auto simp: accept_fail_def)
  then show ?case using 2 by (auto split: if_splits)
qed simp

lemma accept_sleeps_failing:
  "accept_sleeps soft (replicate n Accept_runtime) (min (2 ^ k) 100) = map (\<lambda>i. min (2 ^ (k + i)) 100) [0 ..< n]"
proof (induction n arbitrary: k)
  case (Suc n)
  have "min (min (2 ^ k) 100 * 2) (100 :: nat) = min (2 ^ Suc k) 100" by (simp add: min_def)
  moreover have "map (\<lambda>i. min (2 ^ (k + i)) 100) [0 ..< Suc n] = min (2 ^ k) 100 # map (\<lambda>i. min (2 ^ (Suc k + i)) (100 :: nat)) [0 ..< n]"
    by (simp add: upt_conv_Cons map_Suc_upt [symmetric] o_def del: upt_Suc)
  ultimately show ?case using Suc [of "Suc k"] by (simp add: accept_fail_def del: power_Suc upt_Suc)
qed simp

lemma server_start_listens:
  assumes "p_running p" and "length (p_loops p) = p_threads p" and "0 < p_threads p" and "\<not> v_running s"
    and "server_start reuse windows bind shared p s = (None, s')"
  shows "v_running s' \<and>
    (v_sockets s' = [0 ..< p_threads p] \<and> v_acceptors s' = [0 ..< p_threads p] \<and> bind 0 (v_port s) = Some (v_port s') \<and>
       (\<forall>i \<in> {1 ..< p_threads p}. bind i (v_port s') \<noteq> None) \<or>
     v_sockets s' = [0] \<and> v_acceptors s' = [0 ..< (if windows then 1 else p_threads p)])"
proof -
  have lt: "\<forall>i \<in> set [0 ..< k]. i < length (p_loops p)" if "k \<le> p_threads p" for k using that assms(2) by simp
  have m: "max 1 (p_threads p) = p_threads p" using assms(3) by simp
  obtain port socks where ps: "(if reuse then bind_reuseport bind (p_threads p) (v_port s) else (v_port s, None)) = (port, socks)"
    by fastforce
  show ?thesis
  proof (cases socks)
    case None
    then obtain q where "shared port = Some q"
      using assms(4,5) by (cases "shared port") (auto simp: server_start_def ps Let_def)
    then show ?thesis
      using assms(3-5) None put_acceptors_ok [OF assms(1) lt, of "if windows then 1 else p_threads p"]
      by (auto simp: server_start_def ps Let_def split: if_splits)
  next
    case (Some ss)
    then have ss: "ss = [0 ..< p_threads p]" "bind 0 (v_port s) = Some port" "\<forall>i \<in> {1 ..< p_threads p}. bind i port \<noteq> None"
      using ps m by (auto simp: bind_reuseport_def list_all_iff split: if_splits option.splits)
    then show ?thesis
      using assms(4,5) Some put_acceptors_ok [OF assms(1) lt, of "p_threads p"]
      by (auto simp: server_start_def ps Let_def)
  qed
qed

lemma server_start_running:
  "p_running p \<Longrightarrow> length (p_loops p) = p_threads p \<Longrightarrow> 0 < p_threads p \<Longrightarrow> \<not> v_running s \<Longrightarrow>
   server_start reuse windows bind shared p s = (None, s') \<Longrightarrow> v_running s'"
  using server_start_listens by blast

section \<open>Properties\<close>

text \<open>
  What a started server is.  On a running pool, a \<open>start\<close> that returns has either one listener for
  each worker, all on one port, or a single listener that the workers share (one of them on Windows);
  and each of these workers runs exactly one accept loop.
\<close>

theorem server_started:
  assumes "p_running p" and "length (p_loops p) = p_threads p" and "0 < p_threads p" and "\<not> v_running s"
    and "server_start reuse windows bind shared p s = (None, s')"
  shows "v_running s' \<and>
    (v_sockets s' = [0 ..< p_threads p] \<and> v_acceptors s' = [0 ..< p_threads p] \<and> bind 0 (v_port s) = Some (v_port s') \<and>
       (\<forall>i \<in> {1 ..< p_threads p}. bind i (v_port s') \<noteq> None) \<or>
     v_sockets s' = [0] \<and> v_acceptors s' = [0 ..< (if windows then 1 else p_threads p)])"
  by (rule server_start_listens [OF assms])

definition demo_pool :: pool where
  "demo_pool = (pool_new 2)\<lparr>p_running := True, p_started := True, p_loops := [10, 11]\<rparr>"

theorem server_started_witness:
  "v_acceptors (snd (server_start True False (\<lambda>i p. Some (if p = 0 then 5000 else p)) (\<lambda>p. None) demo_pool (server_new 0))) = [0, 1]"
proof -
  let ?s = "\<lparr>v_running = True, v_port = 5000, v_sockets = [0, 1], v_acceptors = [0, 1]\<rparr>"
  have s: "server_start True False (\<lambda>i p. Some (if p = 0 then 5000 else p)) (\<lambda>p. None) demo_pool (server_new 0) = (None, ?s)"
    by (simp add: server_start_def bind_reuseport_def demo_pool_def pool_new_def server_new_def get_loop_def upt_rec)
  from server_started [OF _ _ _ _ s] show ?thesis
    unfolding s by (simp add: demo_pool_def pool_new_def server_new_def upt_rec)
qed

text \<open>
  \<open>start\<close> can fail half-way.  On a pool that is not running it raises \<open>RuntimeError\<close> after it has opened
  its listener and declared itself running: clients can connect and nobody accepts, and a second
  \<open>start\<close>, also on a pool that runs by then, returns at once without an accept loop.
\<close>

theorem server_start_half:
  assumes "\<not> p_running p" and "0 < p_threads p" and "\<not> v_running s" and "shared (v_port s) = Some q"
    and "server_start False windows bind shared p s = (e, s')"
  shows "e = Some (RuntimeError ''pool is not running'') \<and> v_running s' \<and> v_sockets s' = [0] \<and> v_acceptors s' = [] \<and>
    server_start reuse windows' bind' shared' p' s' = (None, s')"
proof -
  have "[0 ..< (if windows then 1 else p_threads p)] = 0 # [1 ..< (if windows then 1 else p_threads p)]"
    using assms(2) by (simp add: upt_rec)
  then show ?thesis
    using assms put_acceptors_stopped [OF assms(1)] by (auto simp: server_start_def Let_def)
qed

theorem server_start_half_witness:
  "fst (server_start False False (\<lambda>i p. None) (\<lambda>p. Some 80) (pool_new 1) (server_new 80)) = Some (RuntimeError ''pool is not running'')"
  using server_start_half [of "pool_new 1" "server_new 80" "\<lambda>p. Some 80" 80 False "\<lambda>i p. None"]
  by (simp add: pool_new_def server_new_def) (metis prod.collapse)

text \<open>
  The back-off of an accept loop.  Whatever \<open>sock_accept\<close> does, the loop of a running server never
  sleeps less than 1 ms or more than 100 ms at a time, and a run of failures doubles the sleep from
  1 ms up to that limit.
\<close>

theorem accept_backoff:
  assumes "x \<in> set (accept_sleeps soft rs 1)"
  shows "1 \<le> x \<and> x \<le> 100 \<and>
    accept_sleeps soft (replicate n Accept_runtime) 1 = map (\<lambda>i. min (2 ^ i) 100) [0 ..< n]"
  using accept_sleeps_bound [of 1 x soft rs] accept_sleeps_failing [of soft n 0] assms by simp

theorem accept_backoff_witness:
  "accept_sleeps [11] [Accept_runtime, Accept_oserror 24 None, Accept_oserror 11 None, Accept_runtime, Accepted_conn, Accept_runtime] 1 = [1, 2, 4, 1]
   \<and> accept_sleeps [11] (replicate 9 Accept_runtime) 1 = [1, 2, 4, 8, 16, 32, 64, 100, 100]"
  using accept_backoff [of 4 "[11]" "[Accept_runtime, Accept_oserror 24 None, Accept_oserror 11 None, Accept_runtime, Accepted_conn, Accept_runtime]" 9]
  by (simp add: accept_fail_def soft_errno_def upt_rec)



text \<open>A run with one worker: a client is accepted while \<open>close\<close> runs, and added after the snapshot.\<close>

definition sv_demo :: "bool \<Rightarrow> bool \<Rightarrow> acceptor \<Rightarrow> tracking \<Rightarrow> server_closing \<Rightarrow> ssys" where
  "sv_demo run lis x y z = \<lparr>ss_running = run, ss_listening = lis, ss_workers = 1, ss_acceptor = (\<lambda>w. if w = 0 then x else Acceptor_over),
     ss_conn = (\<lambda>k. if k = 0 then y else Unknown), ss_done = {}, ss_asked = {}, ss_closer = z\<rparr>"

lemma sv_demo_simps [simp]:
  "ss_running (sv_demo run lis x y z) = run" "ss_acceptor (sv_demo run lis x y z) 0 = x" "ss_conn (sv_demo run lis x y z) 0 = y"
  "ss_closer (sv_demo run lis x y z) = z" "ss_asked (sv_demo run lis x y z) = {}" "ss_done (sv_demo run lis x y z) = {}"
  "put_acceptor 0 x' (sv_demo run lis x y z) = sv_demo run lis x' y z" "put_conn 0 y' (sv_demo run lis x y z) = sv_demo run lis x y' z"
  "(sv_demo run lis x y z)\<lparr>ss_closer := z'\<rparr> = sv_demo run lis x y z'"
  "(sv_demo run lis x y z)\<lparr>ss_running := r', ss_closer := z'\<rparr> = sv_demo r' lis x y z'"
  "(sv_demo run lis x y z)\<lparr>ss_listening := l', ss_closer := z'\<rparr> = sv_demo run l' x y z'"
  "table_kept (sv_demo run lis x y z) = (z \<in> {Serving, Stopped, Acceptors_cancelled, Sockets_closed, Drained_out})"
  by (simp_all add: sv_demo_def put_acceptor_def put_conn_def table_kept_def fun_eq_iff)

lemma sv_demo_new: "ssys_new 1 = sv_demo True True At_test Unknown Serving"
  by (simp add: ssys_new_def sv_demo_def fun_eq_iff)

lemma sv_demo_run: "reach server_step (ssys_new 1) (sv_demo False False At_test (Stray 0) Server_closed)"
proof -
  have a: "server_step (sv_demo True True At_test Unknown Serving) (sv_demo True True Accepting Unknown Serving)"
    using sv_test [of "sv_demo True True At_test Unknown Serving" 0] by (simp add: acceptor_test_def)
  have b: "server_step (sv_demo True True Accepting Unknown Serving) (sv_demo False True Accepting Unknown Stopped)"
    using sv_close [of "sv_demo True True Accepting Unknown Serving"] by simp
  have c: "server_step (sv_demo False True Accepting Unknown Stopped) (sv_demo False True (Got 0) In_hand Stopped)"
    using sv_accept [of "sv_demo False True Accepting Unknown Stopped" 0 0] by simp
  have d: "server_step (sv_demo False True (Got 0) In_hand Stopped) (sv_demo False True (Got 0) In_hand Acceptors_cancelled)"
    using sv_cancel_acceptors [of "sv_demo False True (Got 0) In_hand Stopped"] by simp
  have e: "server_step (sv_demo False True (Got 0) In_hand Acceptors_cancelled) (sv_demo False False (Got 0) In_hand Sockets_closed)"
    using sv_close_sockets [of "sv_demo False True (Got 0) In_hand Acceptors_cancelled"] by simp
  have f: "server_step (sv_demo False False (Got 0) In_hand Sockets_closed) (sv_demo False False (Got 0) In_hand Drained_out)"
    using sv_drained [of "sv_demo False False (Got 0) In_hand Sockets_closed"] by simp
  have g: "server_step (sv_demo False False (Got 0) In_hand Drained_out) (sv_demo False False (Got 0) In_hand (Cancelling []))"
    using sv_snapshot [of "sv_demo False False (Got 0) In_hand Drained_out" "[]"]
    by (simp add: close_snapshot_def) (simp add: sv_demo_def)
  have h: "server_step (sv_demo False False (Got 0) In_hand (Cancelling [])) (sv_demo False False At_test (Stray 0) (Cancelling []))"
    using sv_add [of "sv_demo False False (Got 0) In_hand (Cancelling [])" 0 0] by (simp add: acceptor_add_def)
  have k: "server_step (sv_demo False False At_test (Stray 0) (Cancelling [])) (sv_demo False False At_test (Stray 0) Server_closed)"
    using sv_over [of "sv_demo False False At_test (Stray 0) (Cancelling [])"] by simp
  note grow = reach_step [where step = server_step]
  show ?thesis unfolding sv_demo_new
    using grow [OF _ k] grow [OF _ h] grow [OF _ g] grow [OF _ f] grow [OF _ e] grow [OF _ d] grow [OF _ c] grow [OF _ b]
      reach_one [where step = server_step, OF a] by blast
qed


text \<open>
  A connection can outlive \<open>close\<close>.  There is a run in which \<open>close\<close> is over while a connection that was
  accepted meanwhile is alive, is in no table, and was never asked to cancel.
\<close>

theorem server_connection_escapes:
  "\<exists>s. reach server_step (ssys_new 1) s \<and> ss_closer s = Server_closed \<and> ss_conn s 0 = Stray 0 \<and> 0 \<notin> ss_asked s \<and> 0 \<notin> ss_done s"
  by (rule exI [of _ "sv_demo False False At_test (Stray 0) Server_closed"]) (simp add: sv_demo_run [simplified])

end
