(* ===== verification/Counters.thy ===== *)
theory Counters
  imports Asyncio "HOL-Library.Word"
begin

text \<open>
  \<open>AtomicMetrics\<close> of \<open>metrics.rs\<close> and its wrapper \<open>MetricsCollector\<close> of \<open>_metrics.py\<close>: the counters of the
  workers as 64-bit words, with the tasks that \<open>EventLoopThreadPool._run_task_wrapper\<close> counts.
  Proved: the shape of the counters is kept, and a snapshot counts the tasks exactly.
\<close>

section \<open>The code\<close>

record metrics =
  m_active :: "64 word list"
  m_completed :: "64 word list"
  m_global_pull :: "64 word list"
  m_park :: "64 word list"
  m_depth :: "64 word list"
  m_remote :: "64 word list"

definition metrics_new :: "nat \<Rightarrow> metrics" where
  "metrics_new n = \<lparr>m_active = replicate n 0, m_completed = replicate n 0, m_global_pull = replicate n 0,
     m_park = replicate n 0, m_depth = replicate n 0, m_remote = replicate n 0\<rparr>"

text \<open>\<open>fetch_add\<close> and \<open>fetch_sub\<close> wrap; a load of an index out of range is 0.\<close>

definition counter_add :: "nat \<Rightarrow> 64 word \<Rightarrow> 64 word list \<Rightarrow> 64 word list" where
  "counter_add i d xs = (if i < length xs then xs[i := xs ! i + d] else xs)"

definition counter_get :: "nat \<Rightarrow> 64 word list \<Rightarrow> 64 word" where
  "counter_get i xs = (if i < length xs then xs ! i else 0)"

definition inc_active :: "nat \<Rightarrow> metrics \<Rightarrow> metrics" where
  "inc_active i m = m\<lparr>m_active := counter_add i 1 (m_active m)\<rparr>"

definition dec_active :: "nat \<Rightarrow> metrics \<Rightarrow> metrics" where
  "dec_active i m =
     (if i < length (m_active m)
      then m\<lparr>m_active := counter_add i (- 1) (m_active m), m_completed := (m_completed m)[i := m_completed m ! i + 1]\<rparr> else m)"

definition inc_global_pull :: "nat \<Rightarrow> metrics \<Rightarrow> metrics" where
  "inc_global_pull i m = m\<lparr>m_global_pull := counter_add i 1 (m_global_pull m)\<rparr>"

definition inc_park :: "nat \<Rightarrow> metrics \<Rightarrow> metrics" where
  "inc_park i m = m\<lparr>m_park := counter_add i 1 (m_park m)\<rparr>"

definition inc_remote_schedule :: "nat \<Rightarrow> metrics \<Rightarrow> metrics" where
  "inc_remote_schedule i m = m\<lparr>m_remote := counter_add i 1 (m_remote m)\<rparr>"

definition set_depth :: "nat \<Rightarrow> 64 word \<Rightarrow> metrics \<Rightarrow> metrics" where
  "set_depth i d m = m\<lparr>m_depth := (if i < length (m_depth m) then (m_depth m)[i := d] else m_depth m)\<rparr>"

text \<open>\<open>get_snapshot\<close>; \<open>None\<close> is a collector without the Rust extension.\<close>

record snapshot_of =
  sn_running :: bool
  sn_threads :: nat
  sn_completed :: "64 word list"
  sn_active :: "64 word list"
  sn_global_pull :: "64 word list"
  sn_park :: "64 word list"
  sn_depth :: "64 word list"
  sn_remote :: "64 word list"

definition counters_of :: "(metrics \<Rightarrow> 64 word list) \<Rightarrow> nat \<Rightarrow> metrics option \<Rightarrow> 64 word list" where
  "counters_of f n m = map (\<lambda>i. case m of None \<Rightarrow> 0 | Some m \<Rightarrow> counter_get i (f m)) [0 ..< n]"

definition get_snapshot :: "bool \<Rightarrow> nat \<Rightarrow> metrics option \<Rightarrow> snapshot_of" where
  "get_snapshot running n m =
     \<lparr>sn_running = running, sn_threads = n, sn_completed = counters_of m_completed n m, sn_active = counters_of m_active n m,
      sn_global_pull = counters_of m_global_pull n m, sn_park = counters_of m_park n m,
      sn_depth = counters_of m_depth n m, sn_remote = counters_of m_remote n m\<rparr>"

section \<open>Tasks that are counted\<close>

text \<open>
  \<open>ms_running w\<close>, \<open>ms_finished w\<close>: the tasks of worker \<open>w\<close> inside the wrapper and past it.  Other
  workers and callers move the remaining counters.
\<close>

record msys =
  ms_metrics :: metrics
  ms_running :: "nat \<Rightarrow> nat"
  ms_finished :: "nat \<Rightarrow> nat"

inductive metrics_step :: "msys \<Rightarrow> msys \<Rightarrow> bool" where
  ms_begin: "metrics_step s (s\<lparr>ms_metrics := inc_active w (ms_metrics s), ms_running := (ms_running s)(w := Suc (ms_running s w))\<rparr>)"
| ms_end: "ms_running s w = Suc k \<Longrightarrow>
     metrics_step s (s\<lparr>ms_metrics := dec_active w (ms_metrics s), ms_running := (ms_running s)(w := k),
       ms_finished := (ms_finished s)(w := Suc (ms_finished s w))\<rparr>)"
| ms_other: "f \<in> {inc_global_pull w, inc_park w, inc_remote_schedule w, set_depth w d} \<Longrightarrow>
     metrics_step s (s\<lparr>ms_metrics := f (ms_metrics s)\<rparr>)"

definition msys_new :: "nat \<Rightarrow> msys" where
  "msys_new n = \<lparr>ms_metrics = metrics_new n, ms_running = (\<lambda>w. 0), ms_finished = (\<lambda>w. 0)\<rparr>"

definition metrics_wf :: "nat \<Rightarrow> metrics \<Rightarrow> bool" where
  "metrics_wf n m \<longleftrightarrow> length (m_active m) = n \<and> length (m_completed m) = n \<and> length (m_global_pull m) = n \<and>
     length (m_park m) = n \<and> length (m_depth m) = n \<and> length (m_remote m) = n"

definition metrics_inv :: "nat \<Rightarrow> msys \<Rightarrow> bool" where
  "metrics_inv n s \<longleftrightarrow> metrics_wf n (ms_metrics s) \<and>
     (\<forall>w < n. m_active (ms_metrics s) ! w = of_nat (ms_running s w) \<and> m_completed (ms_metrics s) ! w = of_nat (ms_finished s w))"

lemma counter_add_simps [simp]:
  "length (counter_add i d xs) = length xs"
  "w < length xs \<Longrightarrow> counter_add i d xs ! w = (if w = i then xs ! i + d else xs ! w)"
  by (auto simp: counter_add_def)

lemma metrics_wf_ops:
  assumes "metrics_wf n m"
  shows "metrics_wf n (inc_active i m)" "metrics_wf n (dec_active i m)" "metrics_wf n (inc_global_pull i m)"
    "metrics_wf n (inc_park i m)" "metrics_wf n (inc_remote_schedule i m)" "metrics_wf n (set_depth i d m)"
  using assms
  by (simp_all add: metrics_wf_def inc_active_def dec_active_def inc_global_pull_def inc_park_def inc_remote_schedule_def set_depth_def)

lemma metrics_inv_step: "metrics_inv n s \<Longrightarrow> metrics_step s s' \<Longrightarrow> metrics_inv n s'"
proof (erule metrics_step.cases, goal_cases)
  case (1 s1 w)
  then show ?case by (auto simp: metrics_inv_def metrics_wf_ops) (auto simp: inc_active_def metrics_wf_def)
next
  case (2 s1 w k)
  then show ?case by (auto simp: metrics_inv_def metrics_wf_ops) (auto simp: dec_active_def metrics_wf_def nth_list_update)
next
  case (3 f w d s1)
  then have "m_active (f (ms_metrics s1)) = m_active (ms_metrics s1)" "m_completed (f (ms_metrics s1)) = m_completed (ms_metrics s1)"
    by (auto simp: inc_global_pull_def inc_park_def inc_remote_schedule_def set_depth_def)
  with 3 show ?case by (auto simp: metrics_inv_def metrics_wf_ops)
qed

interpretation counters: invariant_system "\<lambda>s. s = msys_new n" metrics_step "metrics_inv n" for n
proof (unfold_locales, goal_cases)
  case (1 s)
  then show ?case by (simp add: metrics_inv_def metrics_wf_def msys_new_def metrics_new_def)
next
  case (2 s s')
  then show ?case by (rule metrics_inv_step)
qed

section \<open>Properties\<close>



text \<open>
  A snapshot counts.  However the workers start and finish tasks, a snapshot shows for each worker
  the number of its tasks inside the wrapper and of those past it, modulo the 64 bits of a counter.
\<close>

theorem metrics_count:
  assumes "reach metrics_step (msys_new n) s"
  shows "sn_active (get_snapshot running n (Some (ms_metrics s))) = map (\<lambda>w. of_nat (ms_running s w)) [0 ..< n] \<and>
    sn_completed (get_snapshot running n (Some (ms_metrics s))) = map (\<lambda>w. of_nat (ms_finished s w)) [0 ..< n]"
  using counters.inv_reach [OF assms refl]
  by (simp add: metrics_inv_def metrics_wf_def get_snapshot_def counters_of_def counter_get_def)

theorem metrics_count_witness:
  "sn_active (get_snapshot True 2 (Some (inc_active 1 (metrics_new 2)))) = [0, 1]"
proof -
  have "reach metrics_step (msys_new 2) ((msys_new 2)\<lparr>ms_metrics := inc_active 1 (metrics_new 2), ms_running := (\<lambda>w. 0)(1 := 1)\<rparr>)"
    by (rule reach_one) (use ms_begin [of "msys_new 2" 1] in \<open>simp add: msys_new_def\<close>)
  from metrics_count [OF this, of True] show ?thesis by (simp add: numeral_2_eq_2)
qed

end
