(* ===== verification/Cli.thy ===== *)
theory Cli
  imports Pool
begin

text \<open>
  \<open>cli.py\<close>: the application specification, the guess of its interface, the number of workers, the
  watcher of source files with its debounce loop, and the supervisor that restarts a worker
  process.  Proved: what a specification denotes, that a reload follows a change and a quiet
  interval, and that the supervisor has at most one child and leaves none.
\<close>

section \<open>The application\<close>

text \<open>\<open>s.split(c, 1)\<close> and \<open>s.rsplit(c, 1)\<close> on a string with the separator.\<close>

fun split1 :: "char \<Rightarrow> string \<Rightarrow> (string \<times> string) option" where
  "split1 c [] = None"
| "split1 c (x # xs) = (if x = c then Some ([], xs) else map_option (\<lambda>(a, b). (x # a, b)) (split1 c xs))"

definition rsplit1 :: "char \<Rightarrow> string \<Rightarrow> (string \<times> string) option" where
  "rsplit1 c s = map_option (\<lambda>(a, b). (rev b, rev a)) (split1 c (rev s))"

datatype 'a imported = Invalid_spec | No_module string | No_attribute string string | App 'a

text \<open>\<open>modules\<close> is what \<open>importlib.import_module\<close> finds: the attributes of a module, or \<open>None\<close>.\<close>

definition app_names :: "string \<Rightarrow> (string \<times> string) option" where
  "app_names spec = (case split1 (CHR '':'') spec of Some r \<Rightarrow> Some r | None \<Rightarrow> rsplit1 (CHR ''.'') spec)"

definition import_app :: "(string \<Rightarrow> (string \<Rightarrow> 'a option) option) \<Rightarrow> string \<Rightarrow> 'a imported" where
  "import_app modules spec =
     (case app_names spec of
        None \<Rightarrow> Invalid_spec
      | Some (m, a) \<Rightarrow>
          (case modules m of
             None \<Rightarrow> No_module m
           | Some attrs \<Rightarrow> (case attrs a of None \<Rightarrow> No_attribute m a | Some x \<Rightarrow> App x)))"

text \<open>
  What \<open>detect_interface\<close> looks at: whether the object, or its \<open>__call__\<close>, is a coroutine function, its
  attributes, the parameter names in lower case if it has a signature.
\<close>

record app_view =
  av_coroutine :: bool
  av_call_coroutine :: bool
  av_attrs :: "string list"
  av_params :: "string list option"

datatype interface = Asgi | Wsgi

definition asgi_attrs :: "string list" where
  "asgi_attrs = [''routes'', ''router'', ''middleware_stack'', ''build_middleware_stack'']"

definition by_signature :: "string list \<Rightarrow> interface" where
  "by_signature ps =
     (if ''environ'' \<in> set ps \<or> ''start_response'' \<in> set ps then Wsgi
      else if ''scope'' \<in> set ps \<or> ''receive'' \<in> set ps \<or> ''send'' \<in> set ps then Asgi
      else if length ps = 3 then Asgi else if length ps = 2 then Wsgi else Asgi)"

definition detect_interface :: "app_view \<Rightarrow> interface" where
  "detect_interface v =
     (if av_coroutine v \<or> av_call_coroutine v then Asgi
      else if list_ex (\<lambda>a. a \<in> set (av_attrs v)) asgi_attrs then Asgi
      else if ''wsgi_app'' \<in> set (av_attrs v) then Wsgi
      else (case av_params v of None \<Rightarrow> Asgi | Some ps \<Rightarrow> by_signature ps))"

text \<open>\<open>--workers\<close>: \<open>auto\<close>, a number (also as text), or text \<open>int()\<close> refuses; \<open>cpus\<close> is \<open>os.cpu_count()\<close>.\<close>

datatype workers_arg = Workers_auto | Workers_number int | Workers_text

definition worker_count :: "nat option \<Rightarrow> workers_arg \<Rightarrow> nat" where
  "worker_count cpus w =
     (let auto = (case cpus of None \<Rightarrow> 4 | Some 0 \<Rightarrow> 4 | Some k \<Rightarrow> k) in
      case w of Workers_auto \<Rightarrow> auto | Workers_number k \<Rightarrow> (if k \<le> 0 then auto else nat k) | Workers_text \<Rightarrow> auto)"

section \<open>The watcher\<close>

text \<open>
  \<open>_watch_files_thread\<close> on what its waits and scans give it: whether the stop event was set during a
  wait, and the modification times it then reads.  \<open>None\<close>: it still runs.
\<close>

fun watch_quiet :: "'s \<Rightarrow> (bool \<times> 's) list \<Rightarrow> bool option" where
  "watch_quiet current [] = None"
| "watch_quiet current ((stopped, now) # inputs) =
     (if stopped then Some False else if now = current then Some True else watch_quiet now inputs)"

fun watch_files :: "'s \<Rightarrow> (bool \<times> 's) list \<Rightarrow> bool option" where
  "watch_files seen [] = None"
| "watch_files seen ((stopped, now) # inputs) =
     (if stopped then Some False else if now \<noteq> seen then watch_quiet now inputs else watch_files seen inputs)"

section \<open>The supervisor\<close>

text \<open>
  \<open>_run_supervisor\<close>: about to start an iteration; the child runs; it has exited by itself; past the
  inner loop; it was asked to terminate; it was killed; over.  \<open>su_alive\<close>: the child processes alive.
\<close>

datatype su_stage = Su_loop | Su_running nat | Su_crashed nat | Su_after nat bool | Su_asked nat bool | Su_killed nat bool | Su_over

record supervisor =
  su_stage :: su_stage
  su_stop :: bool
  su_reload :: bool
  su_next :: nat
  su_alive :: "nat set"

definition su_new :: supervisor where
  "su_new = \<lparr>su_stage = Su_loop, su_stop = False, su_reload = False, su_next = 0, su_alive = {}\<rparr>"

text \<open>After a child is known to be dead: the loop goes on after a reload, and ends after a stop.\<close>

definition su_next_iteration :: "bool \<Rightarrow> supervisor \<Rightarrow> supervisor" where
  "su_next_iteration again s = s\<lparr>su_stage := (if again then Su_loop else Su_over)\<rparr>"

inductive su_step :: "supervisor \<Rightarrow> supervisor \<Rightarrow> bool" where
  su_finish: "su_stage s = Su_loop \<Longrightarrow> su_stop s \<Longrightarrow> su_step s (s\<lparr>su_stage := Su_over\<rparr>)"
| su_spawn: "su_stage s = Su_loop \<Longrightarrow> \<not> su_stop s \<Longrightarrow>
     su_step s (s\<lparr>su_stage := Su_running (su_next s), su_reload := False, su_next := Suc (su_next s), su_alive := insert (su_next s) (su_alive s)\<rparr>)"
| su_exited: "su_stage s = Su_running c \<Longrightarrow> c \<notin> su_alive s \<Longrightarrow>
     su_step s (s\<lparr>su_stage := (if su_stop s then Su_after c False else Su_crashed c)\<rparr>)"
| su_left: "su_stage s = Su_running c \<Longrightarrow> su_stop s \<or> su_reload s \<Longrightarrow> su_step s (s\<lparr>su_stage := Su_after c False\<rparr>)"
| su_crash_over: "su_stage s = Su_crashed c \<Longrightarrow> su_stop s \<or> su_reload s \<Longrightarrow> su_step s (s\<lparr>su_stage := Su_after c True\<rparr>)"
| su_restart_dead: "su_stage s = Su_after c crashed \<Longrightarrow> su_reload s \<Longrightarrow> \<not> su_stop s \<Longrightarrow> crashed \<or> c \<notin> su_alive s \<Longrightarrow>
     su_step s (su_next_iteration True s)"
| su_restart: "su_stage s = Su_after c False \<Longrightarrow> su_reload s \<Longrightarrow> \<not> su_stop s \<Longrightarrow> c \<in> su_alive s \<Longrightarrow>
     su_step s (s\<lparr>su_stage := Su_asked c True\<rparr>)"
| su_stop_dead: "su_stage s = Su_after c crashed \<Longrightarrow> su_stop s \<Longrightarrow> c \<notin> su_alive s \<Longrightarrow> su_step s (su_next_iteration False s)"
| su_stop_child: "su_stage s = Su_after c crashed \<Longrightarrow> su_stop s \<Longrightarrow> c \<in> su_alive s \<Longrightarrow> su_step s (s\<lparr>su_stage := Su_asked c False\<rparr>)"
| su_waited: "su_stage s = Su_asked c again \<Longrightarrow> c \<notin> su_alive s \<Longrightarrow> su_step s (su_next_iteration again s)"
| su_kill: "su_stage s = Su_asked c again \<Longrightarrow> su_step s (s\<lparr>su_stage := Su_killed c again\<rparr>)"
| su_reaped: "su_stage s = Su_killed c again \<Longrightarrow> c \<notin> su_alive s \<Longrightarrow> su_step s (su_next_iteration again s)"
| su_child_dies: "su_step s (s\<lparr>su_alive := su_alive s - {c}\<rparr>)"
| su_changed: "su_step s (s\<lparr>su_reload := True\<rparr>)"
| su_signal: "su_step s (s\<lparr>su_stop := True\<rparr>)"


text \<open>The children alive are those the stage knows of.\<close>

fun su_child :: "su_stage \<Rightarrow> nat set" where
  "su_child (Su_running c) = {c}"
| "su_child (Su_after c crashed) = (if crashed then {} else {c})"
| "su_child (Su_asked c again) = {c}"
| "su_child (Su_killed c again) = {c}"
| "su_child _ = {}"

definition su_inv :: "supervisor \<Rightarrow> bool" where
  "su_inv s \<longleftrightarrow> su_alive s \<subseteq> su_child (su_stage s) \<and> (su_stage s = Su_over \<longrightarrow> su_stop s) \<and>
     (\<forall>c again. su_stage s = Su_asked c again \<or> su_stage s = Su_killed c again \<longrightarrow> again \<or> su_stop s)"

lemma su_inv_step: "su_inv s \<Longrightarrow> su_step s s' \<Longrightarrow> su_inv s'"
  by (erule su_step.cases) (auto simp: su_inv_def su_next_iteration_def split: if_splits)

interpretation supervisors: invariant_system "\<lambda>s. s = su_new" su_step su_inv
proof (unfold_locales, goal_cases)
  case (1 s)
  then show ?case by (simp add: su_inv_def su_new_def)
next
  case (2 s s')
  then show ?case by (rule su_inv_step)
qed

section \<open>Lemmas\<close>

lemma split1_first: "c \<notin> set a \<Longrightarrow> split1 c (a @ c # b) = Some (a, b)"
  by (induction a) auto

lemma split1_none: "split1 c s = None \<longleftrightarrow> c \<notin> set s"
  by (induction s) auto

lemma rsplit1_last: "c \<notin> set b \<Longrightarrow> rsplit1 c (a @ c # b) = Some (a, b)"
  using split1_first [of c "rev b" "rev a"] by (simp add: rsplit1_def)

lemma watch_quiet_reload:
  "watch_quiet now inputs = Some True \<Longrightarrow>
   \<exists>mid post. inputs = mid @ (False, last (now # map snd mid)) # post \<and> (\<forall>i \<in> set mid. \<not> fst i)"
proof (induction now inputs rule: watch_quiet.induct)
  case (2 current stopped now inputs)
  show ?case
  proof (cases "now = current")
    case True
    with 2(2) show ?thesis by (intro exI [of _ "[]"] exI [of _ inputs]) (auto split: if_splits)
  next
    case False
    with 2(2) have w: "watch_quiet now inputs = Some True" "\<not> stopped" by (auto split: if_splits)
    from 2(1) [OF w(2) False w(1)] obtain mid post where
      "inputs = mid @ (False, last (now # map snd mid)) # post" "\<forall>i \<in> set mid. \<not> fst i"
      by blast
    with w(2) show ?thesis by (intro exI [of _ "(False, now) # mid"] exI [of _ post]) auto
  qed
qed simp

section \<open>Properties\<close>

text \<open>
  What an application specification denotes.  \<open>module:attribute\<close> is split at its first colon, a
  specification without a colon at its last dot, and each denotes that attribute of that module, with
  the failures told apart; without either separator it is refused.
\<close>

theorem import_app_names:
  assumes "CHR '':'' \<notin> set m"
  shows "import_app modules (m @ '':'' @ a) =
      (case modules m of None \<Rightarrow> No_module m | Some attrs \<Rightarrow> (case attrs a of None \<Rightarrow> No_attribute m a | Some x \<Rightarrow> App x)) \<and>
    (CHR '':'' \<notin> set a \<longrightarrow> CHR ''.'' \<notin> set a \<longrightarrow> import_app modules (m @ ''.'' @ a) = import_app modules (m @ '':'' @ a)) \<and>
    (CHR ''.'' \<notin> set m \<longrightarrow> import_app modules m = Invalid_spec)"
  using assms split1_first [of "CHR '':''" m a] rsplit1_last [of "CHR ''.''" a m] split1_none [of "CHR '':''" "m @ ''.'' @ a"]
    split1_none [of "CHR '':''" m] split1_none [of "CHR ''.''" "rev m"]
  by (auto simp: import_app_def app_names_def rsplit1_def)

theorem import_app_names_witness:
  "import_app (\<lambda>m. if m = ''app.web'' then Some (\<lambda>a. if a = ''main'' then Some (7 :: nat) else None) else None) ''app.web:main'' = App 7"
  using import_app_names [of "''app.web''" "\<lambda>m. if m = ''app.web'' then Some (\<lambda>a. if a = ''main'' then Some (7 :: nat) else None) else None" "''main''"]
  by simp

text \<open>
  An object with an attribute \<open>router\<close> or \<open>routes\<close> is taken for ASGI whatever its signature, also for one
  that is WSGI by its signature.
\<close>

lemma detect_misled:
  "\<not> av_coroutine v \<Longrightarrow> ''router'' \<in> set (av_attrs v) \<Longrightarrow> av_params v = Some [''environ'', ''start_response''] \<Longrightarrow>
   detect_interface v = Asgi \<and> by_signature [''environ'', ''start_response''] = Wsgi"
  by (simp add: detect_interface_def asgi_attrs_def by_signature_def)

lemma worker_count_pool:
  "0 < worker_count cpus w \<and> pool_threads cpus opts (Some (int (worker_count cpus w))) = Inr (worker_count cpus w)"
  by (auto simp: worker_count_def pool_threads_def Let_def split: workers_arg.splits option.splits nat.splits)

text \<open>
  A reload follows a change and a quiet interval.  When the watcher asks for a reload, it has seen
  times that differ from those at its start, and since then every scan before the last differed from
  the one before it, and the last two agree; it was not stopped.
\<close>

theorem watch_reload:
  assumes "watch_files seen inputs = Some True"
  shows "\<exists>pre now mid post. inputs = pre @ (False, now) # mid @ (False, last (now # map snd mid)) # post \<and>
    set pre \<subseteq> {(False, seen)} \<and> now \<noteq> seen \<and> (\<forall>i \<in> set mid. \<not> fst i)"
  using assms
proof (induction seen inputs rule: watch_files.induct)
  case (2 seen stopped now inputs)
  show ?case
  proof (cases "now = seen")
    case True
    with 2(2) have w: "watch_files seen inputs = Some True" "\<not> stopped" by (auto split: if_splits)
    from 2(1) [OF w(2) _ w(1)] True obtain pre n mid post where
      "inputs = pre @ (False, n) # mid @ (False, last (n # map snd mid)) # post"
      "set pre \<subseteq> {(False, seen)}" "n \<noteq> seen" "\<forall>i \<in> set mid. \<not> fst i"
      by blast
    with True w(2) show ?thesis
      by (intro exI [of _ "(False, seen) # pre"] exI [of _ n] exI [of _ mid] exI [of _ post]) simp
  next
    case False
    with 2(2) have "watch_quiet now inputs = Some True" "\<not> stopped" by (auto split: if_splits)
    with watch_quiet_reload [of now inputs] False show ?thesis
      by (intro exI [of _ "[]"]) auto
  qed
qed simp

theorem watch_reload_witness: "watch_files (0 :: nat) [(False, 0), (False, 1), (False, 2), (False, 2)] = Some True \<and> (1 :: nat) \<noteq> 0"
  using watch_reload [of "0 :: nat" "[(False, 0), (False, 1), (False, 2), (False, 2)]"] by simp

text \<open>
  The supervisor has one child.  Whatever signals, file changes and deaths of children happen, at
  most one worker process is alive at a time, and none when the supervisor returns, which it does only
  after it was asked to stop.
\<close>

theorem supervisor_one_child:
  assumes "reach su_step su_new s"
  shows "(\<exists>c. su_alive s \<subseteq> {c}) \<and> (su_stage s = Su_over \<longrightarrow> su_alive s = {} \<and> su_stop s)"
proof -
  have i: "su_inv s" by (rule supervisors.inv_reach [OF assms refl])
  have "\<exists>c. su_child (su_stage s) \<subseteq> {c}" by (cases "su_stage s") auto
  with i show ?thesis by (auto simp: su_inv_def)
qed

theorem supervisor_one_child_witness:
  "\<exists>c. su_alive \<lparr>su_stage = Su_running 0, su_stop = False, su_reload = False, su_next = 1, su_alive = {0}\<rparr> \<subseteq> {c}"
proof -
  have "su_step su_new \<lparr>su_stage = Su_running 0, su_stop = False, su_reload = False, su_next = 1, su_alive = {0}\<rparr>"
    using su_spawn [of su_new] by (simp add: su_new_def)
  from supervisor_one_child [OF reach_one [of su_step, OF this]] show ?thesis by blast
qed

end
